(* ===== verification/Ark_Prelude.thy ===== *)
theory Ark_Prelude
  imports Main "HOL-Library.Word"
begin

text \<open>
  Shared base of the development: the error values of the runtime, sequencing of
  operations that may throw, counted loops and their invariant rule, and the word and
  list facts that several components use.
\<close>

unbundle bit_operations_syntax

named_theorems ark_loops \<open>invariant rules of counted loops\<close>
named_theorems word_val \<open>rewriting of word operations to natural numbers\<close>

type_synonym u8 = "8 word"
type_synonym u32 = "32 word"
type_synonym u64 = "64 word"

section \<open>Errors and sequencing\<close>

text \<open>
  A pending exception of \<open>JSThread\<close> is the left value of a sum;
  \<open>RETURN_IF_ABRUPT_COMPLETION\<close> after a call is \<open>bindE\<close>.
\<close>

datatype js_error = RangeError string | TypeError string

type_synonym 'a result = "js_error + 'a"

definition bindE :: "'a result \<Rightarrow> ('a \<Rightarrow> 'b result) \<Rightarrow> 'b result" where
  "bindE m f = (case m of Inl e \<Rightarrow> Inl e | Inr x \<Rightarrow> f x)"

lemma bindE_Inl [simp]: "bindE (Inl e) f = Inl e"
  by (simp add: bindE_def)

lemma bindE_Inr [simp]: "bindE (Inr x) f = f x"
  by (simp add: bindE_def)

lemma bindE_eq_Inr_iff: "bindE m f = Inr y \<longleftrightarrow> (\<exists>x. m = Inr x \<and> f x = Inr y)"
  by (cases m) auto

lemma bindE_InrE [elim]:
  assumes "bindE m f = Inr y"
  obtains x where "m = Inr x" and "f x = Inr y"
  using assms by (auto simp: bindE_eq_Inr_iff)

section \<open>Counted loops\<close>

text \<open>
  \<open>for (i = lo; i < hi; i++) body\<close> is \<open>for_up lo hi body\<close>, and
  \<open>for (i = n - 1; i >= 0; i--) body\<close> is \<open>for_down n body\<close>; the loop's mutable
  variables are the state that \<open>body\<close> threads through.
\<close>

definition for_up :: "nat \<Rightarrow> nat \<Rightarrow> (nat \<Rightarrow> 's \<Rightarrow> 's) \<Rightarrow> 's \<Rightarrow> 's" where
  "for_up lo hi body s = fold body [lo..<hi] s"

definition for_down :: "nat \<Rightarrow> (nat \<Rightarrow> 's \<Rightarrow> 's) \<Rightarrow> 's \<Rightarrow> 's" where
  "for_down n body s = fold body (rev [0..<n]) s"

lemma for_up_refl [simp]: "for_up n n body s = s"
  by (simp add: for_up_def)

lemma for_up_Suc: "lo \<le> hi \<Longrightarrow> for_up lo (Suc hi) body s = body hi (for_up lo hi body s)"
  by (simp add: for_up_def)

lemma for_down_0 [simp]: "for_down 0 body s = s"
  by (simp add: for_down_def)

lemma for_down_Suc [simp]: "for_down (Suc n) body s = for_down n body (body n s)"
  by (simp add: for_down_def)

lemma for_up_inv [ark_loops]:
  assumes "lo \<le> hi" and "I lo s"
    and "\<And>i s. lo \<le> i \<Longrightarrow> i < hi \<Longrightarrow> I i s \<Longrightarrow> I (Suc i) (body i s)"
  shows "I hi (for_up lo hi body s)"
  using assms
proof (induction hi rule: dec_induct)
  case base
  then show ?case by simp
next
  case (step n)
  then have "I n (for_up lo n body s)" by simp
  with step show ?case by (simp add: for_up_Suc)
qed

lemma for_down_inv [ark_loops]:
  assumes "I n s" and "\<And>i s. i < n \<Longrightarrow> I (Suc i) s \<Longrightarrow> I i (body i s)"
  shows "I 0 (for_down n body s)"
  using assms
proof (induction n arbitrary: s)
  case 0
  then show ?case by simp
next
  case (Suc n)
  then show ?case by simp
qed

section \<open>Lists updated by index\<close>

lemma take_Suc_update [simp]:
  "i < length xs \<Longrightarrow> take (Suc i) (xs[i := v]) = take i xs @ [v]"
  by (simp add: take_Suc_conv_app_nth)

lemma drop_eq_Suc: "drop i xs = drop i ys \<Longrightarrow> drop (Suc i) xs = drop (Suc i) ys"
  by (metis drop_Suc tl_drop)

section \<open>Words\<close>

lemma unat_u32_lt: "unat (w :: u32) < 4294967296"
  using unsigned_less [of w, where 'a = nat] by simp

lemma unat_u64_lt: "unat (w :: u64) < 18446744073709551616"
  using unsigned_less [of w, where 'a = nat] by simp

lemma unat_u32_add: "unat (x + y :: u32) = (unat x + unat y) mod 4294967296"
  by (simp add: unat_word_ariths)

lemma unat_u32_mult: "unat (x * y :: u32) = (unat x * unat y) mod 4294967296"
  by (simp add: unat_word_ariths)

lemma unat_u32_sub: "unat (x - y :: u32) = (if y \<le> x then unat x - unat y else unat x + 4294967296 - unat y)"
  using unat_sub [of y x] unat_u32_lt [of x] unat_u32_lt [of y]
  by (auto simp: unat_sub_if' word_le_nat_alt)

lemma unat_u32_minus_1 [simp]: "unat (- 1 :: u32) = 4294967295"
  by (simp add: unsigned_minus_1_eq_mask mask_eq_exp_minus_1)

lemma mod_single_wrap: "(m :: nat) < 2 * n \<Longrightarrow> m mod n = (if m < n then m else m - n)"
  by (auto simp: le_mod_geq not_less)

lemma unat_u32_add_if:
  "unat (x + y :: u32) =
     (if unat x + unat y < 4294967296 then unat x + unat y else unat x + unat y - 4294967296)"
proof -
  have "unat x + unat y < 2 * 4294967296"
    using unat_u32_lt [of x] unat_u32_lt [of y] by linarith
  then show ?thesis unfolding unat_u32_add by (rule mod_single_wrap)
qed

lemmas u32_nat_simps [word_val] = unat_u32_add unat_u32_mult unat_u32_sub

lemma unat_u32_push_bit [word_val]: "unat (push_bit n (w :: u32)) = (unat w * 2 ^ n) mod 4294967296"
  unfolding unsigned_push_bit_eq by (simp add: take_bit_eq_mod push_bit_eq_mult)

lemma unat_u32_drop_bit [word_val]: "unat (drop_bit n (w :: u32)) = unat w div 2 ^ n"
  unfolding unsigned_drop_bit_eq by (simp add: drop_bit_eq_div take_bit_eq_mod unat_u32_lt)

lemma unat_u64_push_bit [word_val]:
  "unat (push_bit n (w :: u64)) = (unat w * 2 ^ n) mod 18446744073709551616"
  unfolding unsigned_push_bit_eq by (simp add: take_bit_eq_mod push_bit_eq_mult)

lemma unat_u64_drop_bit [word_val]: "unat (drop_bit n (w :: u64)) = unat w div 2 ^ n"
  unfolding unsigned_drop_bit_eq by (simp add: drop_bit_eq_div take_bit_eq_mod unat_u64_lt)

text \<open>An \<open>OR\<close> that fills the zero bits left behind by a shift adds.\<close>

lemma bit_u32_imp_ge: "unat (c :: u32) < 2 ^ n \<Longrightarrow> bit c i \<Longrightarrow> i < n"
proof (rule ccontr)
  assume *: "unat c < 2 ^ n" "bit c i" "\<not> i < n"
  from *(2) have "bit (unat c) i" by (simp add: bit_unsigned_iff)
  then have "2 ^ i \<le> unat c"
    by (metis bit_nat_def dvd_0_right div_eq_0_iff not_le)
  moreover have "(2 :: nat) ^ n \<le> 2 ^ i" using *(3) by (intro power_increasing) auto
  ultimately show False using *(1) by linarith
qed

lemma shl_or_eq_add: "unat (c :: u32) < 2 ^ n \<Longrightarrow> push_bit n v OR c = push_bit n v + c"
  by (rule disjunctive_add [symmetric]) (auto simp: bit_push_bit_iff dest: bit_u32_imp_ge)

lemma unat_shl_or:
  assumes "n \<le> 32" and "unat (c :: u32) < 2 ^ n"
  shows "unat (push_bit n v OR c) = (unat v * 2 ^ n) mod 4294967296 + unat c"
proof -
  have "(4294967296 :: nat) = 2 ^ n * 2 ^ (32 - n)"
    using assms(1) by (simp flip: power_add)
  then have eq: "(unat v * 2 ^ n) mod 4294967296 = 2 ^ n * (unat v mod 2 ^ (32 - n))"
    by (metis mult.commute mult_mod_right)
  moreover have "2 ^ n * (unat v mod 2 ^ (32 - n)) + 2 ^ n \<le> (4294967296 :: nat)"
  proof -
    have "unat v mod 2 ^ (32 - n) + 1 \<le> 2 ^ (32 - n)" by (simp add: Suc_le_eq)
    then have "2 ^ n * (unat v mod 2 ^ (32 - n) + 1) \<le> 2 ^ n * 2 ^ (32 - n)"
      by (rule mult_le_mono2)
    then show ?thesis
      using \<open>4294967296 = 2 ^ n * 2 ^ (32 - n)\<close> by (simp add: algebra_simps)
  qed
  ultimately have "unat (push_bit n v) + unat c < 4294967296"
    using assms(2) by (simp add: unat_u32_push_bit)
  then show ?thesis
    by (simp add: shl_or_eq_add [OF assms(2)] unat_u32_add_if unat_u32_push_bit)
qed

end
