(* ===== verification/BigInt_Core.thy ===== *)
theory BigInt_Core
  imports Ark_Prelude
begin

text \<open>
  The heap object \<open>BigInt\<close> of ecmascript/js_bigint.h: a sign bit and an array of
  32-bit digits, least significant first; its constructors, the normalisation
  \<open>BigIntHelper::RightTruncate\<close>, equality and ordering. The value of a digit array
  (\<open>bval\<close>), of a whole object (\<open>bint\<close>) and the well-formedness invariant that
  every operation of the class keeps (\<open>wf_bigint\<close>) are defined here.

  Lengths and digit positions are \<open>nat\<close>: a \<open>BigInt\<close> has at most \<open>MAXSIZE\<close> = 32768
  digits, so the \<open>uint32_t\<close> and \<open>int\<close> arithmetic on lengths in the source does
  not overflow. Digits are \<open>32 word\<close> and wrap as \<open>uint32_t\<close> does.
\<close>

section \<open>The object and its constants\<close>

definition DATA_BITS :: nat where "DATA_BITS = 32"
definition MAXBITS :: nat where "MAXBITS = 1048576"
definition kMaxLengthBits :: nat where "kMaxLengthBits = 1073741824"
definition MAXSIZE :: nat where "MAXSIZE = MAXBITS div DATA_BITS"
definition HALF_DATA_BITS :: nat where "HALF_DATA_BITS = DATA_BITS div 2"
definition HALF_UINT32_VALUE :: u32 where "HALF_UINT32_VALUE = push_bit HALF_DATA_BITS 1"
definition HALF_DATA_MASK :: u32 where "HALF_DATA_MASK = HALF_UINT32_VALUE - 1"

record BigInt =
  bi_sign :: bool
  bi_digits :: "u32 list"

datatype ComparisonResult = LESS | EQUAL | GREAT | UNDEFINED

definition GetLength :: "BigInt \<Rightarrow> nat" where
  "GetLength x = length (bi_digits x)"

definition GetDigit :: "BigInt \<Rightarrow> nat \<Rightarrow> u32" where
  "GetDigit x i = bi_digits x ! i"

definition SetDigit :: "BigInt \<Rightarrow> nat \<Rightarrow> u32 \<Rightarrow> BigInt" where
  "SetDigit x i d = x\<lparr>bi_digits := (bi_digits x)[i := d]\<rparr>"

definition SetSign :: "BigInt \<Rightarrow> bool \<Rightarrow> BigInt" where
  "SetSign x s = x\<lparr>bi_sign := s\<rparr>"

definition IsZero :: "BigInt \<Rightarrow> bool" where
  "IsZero x \<longleftrightarrow> GetLength x = 1 \<and> GetDigit x 0 = 0"

definition IsUint32 :: "BigInt \<Rightarrow> bool" where
  "IsUint32 x \<longleftrightarrow> GetLength x = 1"

section \<open>Allocation\<close>

definition max_size_error :: js_error where
  "max_size_error = RangeError ''Maximum BigInt size exceeded''"

definition NewBigInt :: "nat \<Rightarrow> BigInt" where
  "NewBigInt n = \<lparr>bi_sign = False, bi_digits = replicate n 0\<rparr>"

definition CreateBigint :: "nat \<Rightarrow> BigInt result" where
  "CreateBigint n = (if n > MAXSIZE then Inl max_size_error else Inr (NewBigInt n))"

text \<open>
  \<open>CreateRawBigInt\<close> leaves the sign and the digits uninitialised: what the memory
  holds is the argument \<open>raw\<close>, and no result of the development depends on it.
\<close>

definition CreateRawBigInt :: "BigInt \<Rightarrow> nat \<Rightarrow> BigInt result" where
  "CreateRawBigInt raw n =
     (if n > MAXSIZE then Inl max_size_error
      else Inr (raw\<lparr>bi_digits := take n (bi_digits raw @ replicate n 0)\<rparr>))"

definition NewSubBigInt :: "BigInt \<Rightarrow> nat \<Rightarrow> BigInt" where
  "NewSubBigInt x n = \<lparr>bi_sign = bi_sign x, bi_digits = take n (bi_digits x)\<rparr>"

definition CreateSubBigInt :: "BigInt \<Rightarrow> nat \<Rightarrow> BigInt result" where
  "CreateSubBigInt x n = (if n > MAXSIZE then Inl max_size_error else Inr (NewSubBigInt x n))"

definition Copy :: "BigInt \<Rightarrow> nat \<Rightarrow> BigInt result" where
  "Copy x len = CreateSubBigInt x len"

definition Int32ToBigInt :: "32 word \<Rightarrow> BigInt result" where
  "Int32ToBigInt number =
     bindE (CreateBigint 1) (\<lambda>bigint.
       let sign = number <s 0;
           value = (if sign then - (number + 1) + 1 else number)
       in Inr (SetSign (SetDigit bigint 0 value) sign))"

definition Uint32ToBigInt :: "u32 \<Rightarrow> BigInt result" where
  "Uint32ToBigInt number = bindE (CreateBigint 1) (\<lambda>bigint. Inr (SetDigit bigint 0 number))"

text \<open>
  The \<open>while\<close> loop of \<open>RightTruncate\<close> walks down to the highest non-zero digit; its
  variable \<open>index\<close>, which may reach \<open>-1\<close>, is one less than the result here.
\<close>

fun truncate_index :: "BigInt \<Rightarrow> nat \<Rightarrow> nat" where
  "truncate_index x 0 = 0"
| "truncate_index x (Suc index) =
     (if GetDigit x index \<noteq> 0 then Suc index else truncate_index x index)"

definition RightTruncate :: "BigInt \<Rightarrow> BigInt result" where
  "RightTruncate x =
     (let len = GetLength x in
      if len = 1 \<and> GetDigit x 0 = 0 then Inr (SetSign x False)
      else if GetDigit x (len - 1) \<noteq> 0 then Inr x
      else let n = truncate_index x len in
        if n = 0 then Uint32ToBigInt 0 else Copy x n)"

section \<open>Equality and ordering\<close>

definition Equal :: "BigInt \<Rightarrow> BigInt \<Rightarrow> bool" where
  "Equal x y =
     (if bi_sign x \<noteq> bi_sign y \<or> GetLength x \<noteq> GetLength y then False
      else for_up 0 (GetLength x) (\<lambda>i eq. eq \<and> GetDigit x i = GetDigit y i) True)"

definition SameValue :: "BigInt \<Rightarrow> BigInt \<Rightarrow> bool" where
  "SameValue x y = Equal x y"

definition SameValueZero :: "BigInt \<Rightarrow> BigInt \<Rightarrow> bool" where
  "SameValueZero x y = Equal x y"

fun differ_index :: "BigInt \<Rightarrow> BigInt \<Rightarrow> nat \<Rightarrow> nat" where
  "differ_index x y 0 = 0"
| "differ_index x y (Suc index) =
     (if GetDigit x index \<noteq> GetDigit y index then Suc index else differ_index x y index)"

definition AbsolutelyCompare :: "BigInt \<Rightarrow> BigInt \<Rightarrow> ComparisonResult" where
  "AbsolutelyCompare x y =
     (let xLen = GetLength x; yLen = GetLength y in
      if xLen > yLen then GREAT
      else if xLen < yLen then LESS
      else let n = differ_index x y xLen in
        if n = 0 then EQUAL
        else if GetDigit x (n - 1) > GetDigit y (n - 1) then GREAT else LESS)"

definition Compare :: "BigInt \<Rightarrow> BigInt \<Rightarrow> ComparisonResult" where
  "Compare x y =
     (let xSign = bi_sign x; ySign = bi_sign y in
      if xSign \<noteq> ySign then (if xSign then LESS else GREAT)
      else let compar = AbsolutelyCompare x y in
        if xSign \<and> compar \<noteq> EQUAL then (if compar = LESS then GREAT else LESS)
        else compar)"

definition LessThan :: "BigInt \<Rightarrow> BigInt \<Rightarrow> bool" where
  "LessThan x y \<longleftrightarrow> Compare x y = LESS"

section \<open>Values and well-formedness\<close>

abbreviation B :: nat where "B \<equiv> 4294967296"

fun bval :: "u32 list \<Rightarrow> nat" where
  "bval [] = 0"
| "bval (d # ds) = unat d + B * bval ds"

definition bmag :: "BigInt \<Rightarrow> nat" where
  "bmag x = bval (bi_digits x)"

definition bint :: "BigInt \<Rightarrow> int" where
  "bint x = (if bi_sign x then - int (bmag x) else int (bmag x))"

definition wf_digits :: "u32 list \<Rightarrow> bool" where
  "wf_digits ds \<longleftrightarrow> ds \<noteq> [] \<and> length ds \<le> MAXSIZE \<and> (1 < length ds \<longrightarrow> last ds \<noteq> 0)"

definition wf_bigint :: "BigInt \<Rightarrow> bool" where
  "wf_bigint x \<longleftrightarrow> wf_digits (bi_digits x) \<and> (bmag x = 0 \<longrightarrow> \<not> bi_sign x)"

named_theorems bigint_simps \<open>field access of BigInt objects\<close>

lemma MAXSIZE_eq: "MAXSIZE = 32768"
  by (simp add: MAXSIZE_def MAXBITS_def DATA_BITS_def)

lemma SetDigit_simps [bigint_simps, simp]:
  "bi_digits (SetDigit x i d) = (bi_digits x)[i := d]" "bi_sign (SetDigit x i d) = bi_sign x"
  by (simp_all add: SetDigit_def)

lemma SetSign_simps [bigint_simps, simp]:
  "bi_digits (SetSign x s) = bi_digits x" "bi_sign (SetSign x s) = s"
  "bmag (SetSign x s) = bmag x"
  by (simp_all add: SetSign_def bmag_def)

lemma NewBigInt_simps [bigint_simps, simp]:
  "bi_digits (NewBigInt n) = replicate n 0" "bi_sign (NewBigInt n) = False"
  by (simp_all add: NewBigInt_def)

lemma bval_append: "bval (xs @ ys) = bval xs + B ^ length xs * bval ys"
  by (induction xs) (auto simp: algebra_simps)

lemma bval_replicate_0 [simp]: "bval (replicate n 0) = 0"
  by (induction n) auto

lemma bval_lt: "bval xs < B ^ length xs"
proof (induction xs)
  case Nil
  then show ?case by simp
next
  case (Cons d ds)
  have "B * Suc (bval ds) \<le> B * B ^ length ds"
    using Cons.IH by (intro mult_le_mono) auto
  moreover have "unat d < B" by (rule unat_u32_lt)
  ultimately show ?case by simp
qed

lemma bval_take_Suc:
  "i < length xs \<Longrightarrow> bval (take (Suc i) xs) = bval (take i xs) + B ^ i * unat (xs ! i)"
  by (simp add: take_Suc_conv_app_nth bval_append)

lemma bval_take_update:
  "i < length xs \<Longrightarrow> bval (take (Suc i) (xs[i := d])) = bval (take i xs) + B ^ i * unat d"
  by (simp add: bval_append)

lemma bval_take_drop: "bval xs = bval (take i xs) + B ^ min i (length xs) * bval (drop i xs)"
  using bval_append [of "take i xs" "drop i xs"] by (simp add: min.commute)

lemma bval_eq_0_iff: "bval xs = 0 \<longleftrightarrow> (\<forall>d \<in> set xs. d = 0)"
  by (induction xs) (auto simp: unat_eq_zero)

lemma bval_ge_last:
  assumes "xs \<noteq> []" and "last xs \<noteq> 0"
  shows "B ^ (length xs - 1) \<le> bval xs"
proof -
  have "bval xs = bval (butlast xs) + B ^ (length xs - 1) * unat (last xs)"
    using bval_append [of "butlast xs" "[last xs]"] assms(1) by simp
  moreover have "1 \<le> unat (last xs)"
    using assms(2) by (simp add: Suc_le_eq unat_gt_0)
  then have "B ^ (length xs - 1) * 1 \<le> B ^ (length xs - 1) * unat (last xs)"
    by (rule mult_le_mono2)
  ultimately show ?thesis by linarith
qed

lemma bval_inject: "length xs = length ys \<Longrightarrow> bval xs = bval ys \<Longrightarrow> xs = ys"
proof (induction xs ys rule: list_induct2)
  case Nil
  then show ?case by simp
next
  case (Cons x xs y ys)
  have low: "bval (d # ds) mod B = unat d" for d ds
    using unat_u32_lt [of d] by (simp only: bval.simps mod_mult_self2 mod_less)
  from low [of x xs] low [of y ys] Cons.prems have "unat x = unat y" by (simp only:)
  then have "x = y" by (rule word_unat_eq_iff [THEN iffD2])
  with Cons show ?case by simp
qed

lemma wf_digits_length_eq:
  assumes "wf_digits xs" "wf_digits ys" "length xs < length ys"
  shows "bval xs < bval ys"
proof -
  have "1 < length ys" using assms by (cases xs) (auto simp: wf_digits_def)
  with assms(2) have "B ^ (length ys - 1) \<le> bval ys"
    by (intro bval_ge_last) (auto simp: wf_digits_def)
  moreover have "bval xs < B ^ (length ys - 1)"
    using bval_lt [of xs] assms(3)
    by (intro less_le_trans [OF bval_lt] power_increasing) auto
  ultimately show ?thesis by simp
qed

lemma wf_digits_inject:
  assumes "wf_digits xs" "wf_digits ys" "bval xs = bval ys"
  shows "xs = ys"
  using assms wf_digits_length_eq [of xs ys] wf_digits_length_eq [of ys xs]
  by (cases "length xs" "length ys" rule: linorder_cases) (auto intro: bval_inject)

lemma wf_bigintD:
  assumes "wf_bigint x"
  shows "wf_digits (bi_digits x)" "bi_digits x \<noteq> []" "0 < GetLength x" "GetLength x \<le> MAXSIZE"
    "bmag x = 0 \<Longrightarrow> \<not> bi_sign x"
  using assms by (auto simp: wf_bigint_def wf_digits_def GetLength_def)

lemma IsZero_iff: "wf_bigint x \<Longrightarrow> IsZero x \<longleftrightarrow> bmag x = 0"
  unfolding IsZero_def
  by (cases "bi_digits x" rule: rev_cases)
    (auto simp: wf_bigint_def wf_digits_def GetLength_def GetDigit_def bmag_def bval_eq_0_iff
      length_Suc_conv)

lemma bint_eq_0_iff [simp]: "bint x = 0 \<longleftrightarrow> bmag x = 0"
  by (simp add: bint_def)

text \<open>
  One digit of a carry or borrow loop: the digit written at position \<open>i\<close> and the carry
  it leaves account for the digits read there.
\<close>

lemma bval_carry_step:
  assumes "i < length ds" and "unat d + B * k' = s + k" and "bval (take i ds) + B ^ i * k = v"
  shows "bval (take (Suc i) (ds[i := d])) + B ^ Suc i * k' = v + B ^ i * s"
proof -
  have "B ^ i * (unat d + B * k') = B ^ i * (s + k)" using assms(2) by (rule arg_cong)
  then show ?thesis using assms(1,3) by (simp add: bval_append algebra_simps)
qed

lemma bval_borrow_step:
  assumes "i < length ds" and "unat d + t + k = s + B * k'"
    and "bval (take i ds) + w = v + B ^ i * k"
  shows "bval (take (Suc i) (ds[i := d])) + (w + B ^ i * t) = (v + B ^ i * s) + B ^ Suc i * k'"
proof -
  have "B ^ i * (unat d + t + k) = B ^ i * (s + B * k')" using assms(2) by (rule arg_cong)
  then show ?thesis using assms(1,3) by (simp add: bval_append algebra_simps)
qed

section \<open>Allocation and truncation\<close>

lemma CreateBigint_Inr: "n \<le> MAXSIZE \<Longrightarrow> CreateBigint n = Inr (NewBigInt n)"
  by (simp add: CreateBigint_def)

lemma CreateBigint_Inl: "n > MAXSIZE \<Longrightarrow> CreateBigint n = Inl max_size_error"
  by (simp add: CreateBigint_def)

lemma Uint32ToBigInt_eq: "Uint32ToBigInt d = Inr \<lparr>bi_sign = False, bi_digits = [d]\<rparr>"
  by (simp add: Uint32ToBigInt_def CreateBigint_def MAXSIZE_eq NewBigInt_def SetDigit_def)

lemma Int32ToBigInt_eq:
  "Int32ToBigInt w = Inr \<lparr>bi_sign = w <s 0, bi_digits = [if w <s 0 then - w else w]\<rparr>"
  by (simp add: Int32ToBigInt_def CreateBigint_def MAXSIZE_eq NewBigInt_def SetDigit_def
      SetSign_def Let_def)

lemma truncate_index_spec:
  "n \<le> GetLength x \<Longrightarrow>
     truncate_index x n \<le> n \<and>
     (\<forall>i. truncate_index x n \<le> i \<longrightarrow> i < n \<longrightarrow> GetDigit x i = 0) \<and>
     (truncate_index x n \<noteq> 0 \<longrightarrow> GetDigit x (truncate_index x n - 1) \<noteq> 0)"
  by (induction n) (auto simp: less_Suc_eq)

lemma bval_take_truncate:
  assumes "\<And>i. k \<le> i \<Longrightarrow> i < length xs \<Longrightarrow> xs ! i = 0"
  shows "bval (take k xs) = bval xs"
proof -
  have "bval (drop k xs) = 0"
    using assms by (auto simp: bval_eq_0_iff in_set_conv_nth)
  then show ?thesis using bval_take_drop [of xs k] by simp
qed

text \<open>
  The normalisation every arithmetic operation ends with: it cannot fail, it keeps the
  value, and its result is well-formed.
\<close>

lemma RightTruncate_correct:
  assumes ne: "bi_digits x \<noteq> []" and le: "GetLength x \<le> MAXSIZE"
  obtains r where "RightTruncate x = Inr r" and "wf_bigint r" and "bmag r = bmag x"
    and "bint r = bint x" and "bmag x \<noteq> 0 \<Longrightarrow> bi_sign r = bi_sign x"
    and "GetLength r \<le> GetLength x"
proof -
  let ?ds = "bi_digits x" and ?n = "truncate_index x (GetLength x)"
  note D = GetLength_def GetDigit_def RightTruncate_def Let_def
  note V = wf_bigint_def wf_digits_def bmag_def bint_def
  consider (zero) "length ?ds = 1" "?ds ! 0 = 0" | (full) "\<not> (length ?ds = 1 \<and> ?ds ! 0 = 0)"
      "last ?ds \<noteq> 0" | (cut) "\<not> (length ?ds = 1 \<and> ?ds ! 0 = 0)" "last ?ds = 0"
    by blast
  then show thesis
  proof cases
    case zero
    then obtain d where "?ds = [d]" "d = 0" by (cases ?ds) auto
    then show thesis using le that [of "SetSign x False"] by (simp add: D V)
  next
    case full
    then have "bval ?ds \<noteq> 0" using bval_ge_last [OF ne] by (metis le_zero_eq power_eq_0_iff zero_neq_numeral)
    moreover have "RightTruncate x = Inr x"
      using full ne by (auto simp: D last_conv_nth)
    ultimately show thesis using full ne le that [of x] by (simp add: V GetLength_def)
  next
    case cut
    have spec: "?n \<le> length ?ds" "\<And>i. ?n \<le> i \<Longrightarrow> i < length ?ds \<Longrightarrow> ?ds ! i = 0"
      "?n \<noteq> 0 \<Longrightarrow> ?ds ! (?n - 1) \<noteq> 0"
      using truncate_index_spec [of "GetLength x" x] by (auto simp: GetLength_def GetDigit_def)
    have val: "bval (take ?n ?ds) = bval ?ds"
      using spec(2) by (rule bval_take_truncate)
    show thesis
    proof (cases "?n = 0")
      case True
      with val have "bval ?ds = 0" by simp
      moreover have "RightTruncate x = Inr \<lparr>bi_sign = False, bi_digits = [0]\<rparr>"
        using True cut ne by (auto simp: D last_conv_nth Uint32ToBigInt_eq)
      ultimately show thesis
        using that [of "\<lparr>bi_sign = False, bi_digits = [0]\<rparr>"] ne
        by (simp add: V MAXSIZE_eq GetLength_def Suc_le_eq)
    next
      case False
      let ?r = "NewSubBigInt x ?n"
      have "RightTruncate x = Inr ?r"
        using False cut ne le spec(1)
        by (auto simp: D last_conv_nth Copy_def CreateSubBigInt_def)
      moreover have last: "last (take ?n ?ds) \<noteq> 0" "take ?n ?ds \<noteq> []"
        using False spec(1,3) ne by (auto simp: last_conv_nth min_def)
      moreover have "bval ?ds \<noteq> 0"
        using bval_ge_last [OF last(2,1)] val by (metis le_zero_eq power_eq_0_iff zero_neq_numeral)
      ultimately show thesis
        using that [of ?r] val spec(1) le
        by (simp add: V NewSubBigInt_def GetLength_def)
    qed
  qed
qed

section \<open>Equality and ordering are those of the integers\<close>

lemma Equal_digits: "Equal x y \<longleftrightarrow> bi_sign x = bi_sign y \<and> bi_digits x = bi_digits y"
proof (cases "bi_sign x = bi_sign y \<and> GetLength x = GetLength y")
  case True
  let ?f = "\<lambda>i eq. eq \<and> GetDigit x i = GetDigit y i"
  have "for_up 0 n ?f True \<longleftrightarrow> (\<forall>i < n. GetDigit x i = GetDigit y i)" for n
    by (induction n) (auto simp: for_up_Suc less_Suc_eq)
  with True show ?thesis
    by (auto simp: Equal_def GetLength_def GetDigit_def list_eq_iff_nth_eq)
next
  case False
  then show ?thesis by (auto simp: Equal_def GetLength_def)
qed

lemma differ_index_spec:
  "differ_index x y n \<le> n \<and>
   (\<forall>i. differ_index x y n \<le> i \<longrightarrow> i < n \<longrightarrow> GetDigit x i = GetDigit y i) \<and>
   (differ_index x y n \<noteq> 0 \<longrightarrow>
      GetDigit x (differ_index x y n - 1) \<noteq> GetDigit y (differ_index x y n - 1))"
  by (induction n) (auto simp: less_Suc_eq)

lemma bval_less_by_digit:
  assumes len: "length xs = length ys" and k: "k < length xs"
    and same: "\<And>i. k < i \<Longrightarrow> i < length xs \<Longrightarrow> xs ! i = ys ! i"
    and lt: "xs ! k < ys ! k"
  shows "bval xs < bval ys"
proof -
  have tail: "drop (Suc k) xs = drop (Suc k) ys"
    using len same by (auto intro!: nth_equalityI)
  have "bval (take k xs) + B ^ k * unat (xs ! k) < B ^ k * Suc (unat (xs ! k))"
    using bval_lt [of "take k xs"] k by simp
  also have "\<dots> \<le> B ^ k * unat (ys ! k)"
    using lt by (intro mult_le_mono2) (simp add: word_less_nat_alt Suc_le_eq)
  finally have "bval (take (Suc k) xs) < bval (take (Suc k) ys)"
    using k len by (simp add: bval_take_Suc)
  with tail k len show ?thesis
    using bval_take_drop [of xs "Suc k"] bval_take_drop [of ys "Suc k"] by simp
qed

lemma AbsolutelyCompare_correct:
  assumes "wf_bigint x" "wf_bigint y"
  shows "AbsolutelyCompare x y =
    (if bmag x < bmag y then LESS else if bmag x = bmag y then EQUAL else GREAT)"
proof (cases "GetLength x" "GetLength y" rule: linorder_cases)
  case less
  then have "bmag x < bmag y"
    using wf_digits_length_eq wf_bigintD(1) assms by (simp add: GetLength_def bmag_def)
  with less show ?thesis by (simp add: AbsolutelyCompare_def Let_def)
next
  case greater
  then have "bmag y < bmag x"
    using wf_digits_length_eq wf_bigintD(1) assms by (simp add: GetLength_def bmag_def)
  with greater show ?thesis by (simp add: AbsolutelyCompare_def Let_def)
next
  case equal
  let ?n = "differ_index x y (GetLength x)"
  have spec: "?n \<le> GetLength x"
    "\<And>i. ?n \<le> i \<Longrightarrow> i < GetLength x \<Longrightarrow> GetDigit x i = GetDigit y i"
    "?n \<noteq> 0 \<Longrightarrow> GetDigit x (?n - 1) \<noteq> GetDigit y (?n - 1)"
    using differ_index_spec [of x y "GetLength x"] by auto
  show ?thesis
  proof (cases "?n = 0")
    case True
    with spec(2) equal have "bi_digits x = bi_digits y"
      by (auto simp: GetLength_def GetDigit_def intro!: nth_equalityI)
    with True equal show ?thesis by (simp add: AbsolutelyCompare_def Let_def bmag_def)
  next
    case False
    have "GetDigit x (?n - 1) < GetDigit y (?n - 1) \<Longrightarrow> bmag x < bmag y"
      and "GetDigit y (?n - 1) < GetDigit x (?n - 1) \<Longrightarrow> bmag y < bmag x"
      unfolding bmag_def
      using False spec(1,2) equal
      by (auto simp: GetLength_def GetDigit_def intro!: bval_less_by_digit [where k = "?n - 1"])
    with False spec(3) equal show ?thesis
      by (cases "GetDigit x (?n - 1)" "GetDigit y (?n - 1)" rule: linorder_cases)
        (auto simp: AbsolutelyCompare_def Let_def)
  qed
qed

end
