(* ===== verification/BigInt_AddSub.thy ===== *)
theory BigInt_AddSub
  imports BigInt_Core
begin

text \<open>
  Addition and subtraction of \<open>BigInt\<close> (js_bigint.cpp): the carry and borrow helpers,
  the schoolbook loops on magnitudes and the sign analysis of \<open>Add\<close> and
  \<open>Subtract\<close>. The result is shown to be the integer sum or difference, or a
  \<open>RangeError\<close> exactly when the object would need more than \<open>MAXSIZE\<close> digits.
\<close>

section \<open>Operations\<close>

text \<open>The reference parameter \<open>bigintCarry\<close> is passed in and returned as the second component.\<close>

definition AddHelper :: "u32 \<Rightarrow> u32 \<Rightarrow> u32 \<Rightarrow> u32 \<times> u32" where
  "AddHelper x y bigintCarry =
     (let addPlus = x + y
      in (addPlus, if addPlus < x then bigintCarry + 1 else bigintCarry))"

definition SubHelper :: "u32 \<Rightarrow> u32 \<Rightarrow> u32 \<Rightarrow> u32 \<times> u32" where
  "SubHelper x y bigintCarry =
     (let minuSub = x - y
      in (minuSub, if minuSub > x then bigintCarry + 1 else bigintCarry))"

definition add_step :: "BigInt \<Rightarrow> BigInt \<Rightarrow> nat \<Rightarrow> BigInt \<times> u32 \<Rightarrow> BigInt \<times> u32" where
  "add_step x y i s =
     (let (bigint, bigintCarry) = s;
          (addPlus, newBigintCarry) = AddHelper (GetDigit x i) (GetDigit y i) 0;
          (addPlus, newBigintCarry) = AddHelper addPlus bigintCarry newBigintCarry
      in (SetDigit bigint i addPlus, newBigintCarry))"

definition add_carry_step :: "BigInt \<Rightarrow> nat \<Rightarrow> BigInt \<times> u32 \<Rightarrow> BigInt \<times> u32" where
  "add_carry_step x i s =
     (let (bigint, bigintCarry) = s;
          (addPlus, newBigintCarry) = AddHelper (GetDigit x i) bigintCarry 0
      in (SetDigit bigint i addPlus, newBigintCarry))"

function BigintAdd :: "BigInt \<Rightarrow> BigInt \<Rightarrow> bool \<Rightarrow> BigInt result" where
  "BigintAdd x y resultSign =
     (if GetLength x < GetLength y then BigintAdd y x resultSign
      else bindE (CreateBigint (GetLength x + 1)) (\<lambda>bigint.
        let s = for_up 0 (GetLength y) (add_step x y) (bigint, 0);
            (bigint, bigintCarry) = for_up (GetLength y) (GetLength x) (add_carry_step x) s
        in RightTruncate
             (SetSign (SetDigit bigint (GetLength x) bigintCarry) resultSign)))"
  by pat_completeness auto
termination
  by (relation "measure (\<lambda>(x, y, _). if GetLength x < GetLength y then 1 else 0)") auto

declare BigintAdd.simps [simp del]

definition sub_step :: "BigInt \<Rightarrow> BigInt \<Rightarrow> nat \<Rightarrow> BigInt \<times> u32 \<Rightarrow> BigInt \<times> u32" where
  "sub_step x y i s =
     (let (bigint, bigintCarry) = s;
          (minuSub, newBigintCarry) = SubHelper (GetDigit x i) (GetDigit y i) 0;
          (minuSub, newBigintCarry) = SubHelper minuSub bigintCarry newBigintCarry
      in (SetDigit bigint i minuSub, newBigintCarry))"

definition sub_borrow_step :: "BigInt \<Rightarrow> nat \<Rightarrow> BigInt \<times> u32 \<Rightarrow> BigInt \<times> u32" where
  "sub_borrow_step x i s =
     (let (bigint, bigintCarry) = s;
          (minuSub, newBigintCarry) = SubHelper (GetDigit x i) bigintCarry 0
      in (SetDigit bigint i minuSub, newBigintCarry))"

definition BigintSub :: "BigInt \<Rightarrow> BigInt \<Rightarrow> bool \<Rightarrow> BigInt result" where
  "BigintSub x y resultSign =
     bindE (CreateBigint (GetLength x)) (\<lambda>bigint.
       let s = for_up 0 (GetLength y) (sub_step x y) (bigint, 0);
           (bigint, bigintCarry) = for_up (GetLength y) (GetLength x) (sub_borrow_step x) s
       in RightTruncate (SetSign bigint resultSign))"

text \<open>The loop \<open>while (i > 0 && x[i] == y[i]) i--\<close> of \<open>Add\<close> and \<open>Subtract\<close>.\<close>

fun skip_equal :: "BigInt \<Rightarrow> BigInt \<Rightarrow> nat \<Rightarrow> nat" where
  "skip_equal x y 0 = 0"
| "skip_equal x y (Suc i) =
     (if GetDigit x (Suc i) = GetDigit y (Suc i) then skip_equal x y i else Suc i)"

definition Add :: "BigInt \<Rightarrow> BigInt \<Rightarrow> BigInt result" where
  "Add x y =
     (let xSignFlag = bi_sign x; ySignFlag = bi_sign y in
      if xSignFlag = ySignFlag then BigintAdd x y xSignFlag
      else
        let subSize = int (GetLength x) - int (GetLength y) in
        if subSize > 0 then BigintSub x y xSignFlag
        else if subSize = 0 then
          let i = skip_equal x y (GetLength x - 1) in
          if GetDigit x i > GetDigit y i then BigintSub x y xSignFlag
          else BigintSub y x ySignFlag
        else BigintSub y x ySignFlag)"

definition Subtract :: "BigInt \<Rightarrow> BigInt \<Rightarrow> BigInt result" where
  "Subtract x y =
     (let xSignFlag = bi_sign x; ySignFlag = bi_sign y in
      if xSignFlag \<noteq> ySignFlag then BigintAdd x y xSignFlag
      else
        let subSize = int (GetLength x) - int (GetLength y) in
        if subSize > 0 then BigintSub x y xSignFlag
        else if subSize = 0 then
          let i = skip_equal x y (GetLength x - 1) in
          if GetDigit x i > GetDigit y i then BigintSub x y xSignFlag
          else BigintSub y x (\<not> ySignFlag)
        else BigintSub y x (\<not> ySignFlag))"

definition BigintAddOne :: "BigInt \<Rightarrow> BigInt result" where
  "BigintAddOne x = bindE (Int32ToBigInt 1) (\<lambda>temp. Add x temp)"

definition BigintSubOne :: "BigInt \<Rightarrow> BigInt result" where
  "BigintSubOne x = bindE (Int32ToBigInt 1) (\<lambda>temp. Subtract x temp)"

definition UnaryMinus :: "BigInt \<Rightarrow> BigInt result" where
  "UnaryMinus x =
     (if IsZero x then Inr x
      else bindE (Copy x (GetLength x)) (\<lambda>y. Inr (SetSign y (\<not> bi_sign y))))"

definition BitwiseNOT :: "BigInt \<Rightarrow> BigInt result" where
  "BitwiseNOT x =
     bindE (BigintAddOne x) (\<lambda>res.
       if bi_sign x then Inr (SetSign res False) else Inr (SetSign res True))"

section \<open>Helpers\<close>

lemma unat_u32_Suc: "unat (c :: u32) < B - 1 \<Longrightarrow> unat (c + 1) = unat c + 1"
  by (simp add: unat_u32_add_if)

lemma AddHelper_spec:
  assumes "AddHelper x y c = (a, c')" and "unat c < B - 1"
  shows "unat a + B * unat c' = unat x + unat y + B * unat c" and "unat c' \<le> unat c + 1"
proof -
  have a: "a = x + y" and c': "c' = (if unat a < unat x then c + 1 else c)"
    using assms(1) by (auto simp: AddHelper_def Let_def word_less_nat_alt)
  have "unat c' = (if unat a < unat x then unat c + 1 else unat c)"
    unfolding c' by (simp only: unat_u32_Suc [OF assms(2)] if_distrib [of unat] refl)
  then show "unat a + B * unat c' = unat x + unat y + B * unat c" and "unat c' \<le> unat c + 1"
    using unat_u32_lt [of x] unat_u32_lt [of y] unat_u32_add_if [of x y]
    unfolding a by (auto split: if_splits)
qed

lemma SubHelper_spec:
  assumes "SubHelper x y c = (a, c')" and "unat c < B - 1"
  shows "unat a + unat y + B * unat c = unat x + B * unat c'" and "unat c' \<le> unat c + 1"
proof -
  have a: "a = x - y" and c': "c' = (if unat x < unat a then c + 1 else c)"
    using assms(1) by (auto simp: SubHelper_def Let_def word_less_nat_alt)
  have "unat c' = (if unat x < unat a then unat c + 1 else unat c)"
    unfolding c' by (simp only: unat_u32_Suc [OF assms(2)] if_distrib [of unat] refl)
  then show "unat a + unat y + B * unat c = unat x + B * unat c'" and "unat c' \<le> unat c + 1"
    using unat_u32_lt [of x] unat_u32_lt [of y] unat_u32_sub [of x y]
    unfolding a by (auto simp: word_le_nat_alt split: if_splits)
qed

section \<open>Magnitudes\<close>

definition add_inv :: "u32 list \<Rightarrow> u32 list \<Rightarrow> nat \<Rightarrow> nat \<Rightarrow> BigInt \<times> u32 \<Rightarrow> bool" where
  "add_inv xs ys n i s \<longleftrightarrow>
     length (bi_digits (fst s)) = n \<and> unat (snd s) \<le> 1 \<and>
     bval (take i (bi_digits (fst s))) + B ^ i * unat (snd s) =
       bval (take i xs) + bval (take i ys)"

lemma add_step_inv:
  assumes "add_inv (bi_digits x) (bi_digits y) n i s" and "i < n"
    and "i < GetLength x" and "i < GetLength y"
  shows "add_inv (bi_digits x) (bi_digits y) n (Suc i) (add_step x y i s)"
proof -
  obtain b c where s: "s = (b, c)" by (cases s)
  obtain a1 c1 where h1: "AddHelper (GetDigit x i) (GetDigit y i) 0 = (a1, c1)" by fastforce
  obtain a2 c2 where h2: "AddHelper a1 c c1 = (a2, c2)" by fastforce
  have c1: "unat c1 \<le> 1" using AddHelper_spec(2) [OF h1] by simp
  have inv: "length (bi_digits b) = n" "unat c \<le> 1"
    "bval (take i (bi_digits b)) + B ^ i * unat c = bval (take i (bi_digits x)) + bval (take i (bi_digits y))"
    using assms(1) by (auto simp: add_inv_def s)
  have eq: "unat a2 + B * unat c2 = (unat (GetDigit x i) + unat (GetDigit y i)) + unat c"
    using AddHelper_spec(1) [OF h1] AddHelper_spec(1) [OF h2] c1 by simp
  have "unat c2 \<le> 1"
    using eq inv(2) unat_u32_lt [of "GetDigit x i"] unat_u32_lt [of "GetDigit y i"] by linarith
  moreover have "add_step x y i s = (SetDigit b i a2, c2)"
    by (simp add: add_step_def s h1 h2)
  ultimately show ?thesis
    using bval_carry_step [OF _ eq inv(3)] inv(1) assms(2-4)
    by (simp add: add_inv_def bval_take_Suc GetDigit_def GetLength_def algebra_simps)
qed

lemma add_carry_step_inv:
  assumes "add_inv (bi_digits x) ys n i s" and "i < n" and "i < GetLength x" and "length ys \<le> i"
  shows "add_inv (bi_digits x) ys n (Suc i) (add_carry_step x i s)"
proof -
  obtain b c where s: "s = (b, c)" by (cases s)
  obtain a1 c1 where h1: "AddHelper (GetDigit x i) c 0 = (a1, c1)" by fastforce
  have inv: "length (bi_digits b) = n" "unat c \<le> 1"
    "bval (take i (bi_digits b)) + B ^ i * unat c = bval (take i (bi_digits x)) + bval (take i ys)"
    using assms(1) by (auto simp: add_inv_def s)
  have eq: "unat a1 + B * unat c1 = unat (GetDigit x i) + unat c"
    using AddHelper_spec(1) [OF h1] by simp
  moreover have "unat c1 \<le> 1" using AddHelper_spec(2) [OF h1] by simp
  moreover have "add_carry_step x i s = (SetDigit b i a1, c1)"
    by (simp add: add_carry_step_def s h1)
  ultimately show ?thesis
    using bval_carry_step [OF _ eq inv(3)] inv(1) assms(2-4)
    by (simp add: add_inv_def bval_take_Suc GetDigit_def GetLength_def algebra_simps)
qed

lemma add_loops:
  assumes "GetLength y \<le> GetLength x"
  shows "add_inv (bi_digits x) (bi_digits y) (GetLength x + 1) (GetLength x)
    (for_up (GetLength y) (GetLength x) (add_carry_step x)
      (for_up 0 (GetLength y) (add_step x y) (NewBigInt (GetLength x + 1), 0)))"
proof -
  let ?I = "add_inv (bi_digits x) (bi_digits y) (GetLength x + 1)"
  let ?s = "for_up 0 (GetLength y) (add_step x y) (NewBigInt (GetLength x + 1), 0)"
  have "?I 0 (NewBigInt (GetLength x + 1), 0)" by (simp add: add_inv_def)
  then have "?I (GetLength y) ?s"
    by (rule for_up_inv [where I = ?I, rotated]) (use assms in \<open>auto intro!: add_step_inv\<close>)
  then show ?thesis
    by (rule for_up_inv [where I = ?I, OF assms])
      (auto intro!: add_carry_step_inv simp: GetLength_def)
qed

lemma BigintAdd_swap: "GetLength x < GetLength y \<Longrightarrow> BigintAdd x y rs = BigintAdd y x rs"
  by (simp add: BigintAdd.simps [of x])

lemma BigintAdd_overflow:
  assumes "max (GetLength x) (GetLength y) = MAXSIZE"
  shows "BigintAdd x y rs = Inl max_size_error"
proof -
  have *: "BigintAdd a b rs = Inl max_size_error"
    if "GetLength b \<le> GetLength a" "GetLength a = MAXSIZE" for a b
    using that by (simp add: BigintAdd.simps CreateBigint_def)
  show ?thesis
    using assms * [of y x] * [of x y] BigintAdd_swap [of x y rs]
    by (cases "GetLength x < GetLength y") (simp_all add: max_def)
qed

lemma BigintAdd_ge:
  assumes wf: "wf_bigint x" "wf_bigint y" and le: "GetLength y \<le> GetLength x"
    and fits: "GetLength x < MAXSIZE"
  obtains r where "BigintAdd x y rs = Inr r" "wf_bigint r" "bmag r = bmag x + bmag y"
    "bint r = (if rs then - (int (bmag x) + int (bmag y)) else int (bmag x) + int (bmag y))"
proof -
  obtain b c where loop: "for_up (GetLength y) (GetLength x) (add_carry_step x)
      (for_up 0 (GetLength y) (add_step x y) (NewBigInt (GetLength x + 1), 0)) = (b, c)"
    by fastforce
  from add_loops [OF le] have inv: "length (bi_digits b) = GetLength x + 1"
    "bval (take (GetLength x) (bi_digits b)) + B ^ GetLength x * unat c = bmag x + bmag y"
    using le unfolding loop by (auto simp: add_inv_def bmag_def GetLength_def)
  let ?r = "SetSign (SetDigit b (GetLength x) c) rs"
  have mag: "bmag ?r = bmag x + bmag y"
    using inv bval_take_update [of "GetLength x" "bi_digits b" c] by (simp add: bmag_def)
  have "BigintAdd x y rs = RightTruncate ?r"
    using le fits loop by (simp add: BigintAdd.simps CreateBigint_Inr)
  moreover obtain r where "RightTruncate ?r = Inr r" "wf_bigint r" "bmag r = bmag ?r" "bint r = bint ?r"
    by (rule RightTruncate_correct [of ?r]) (use inv(1) fits in \<open>auto simp: GetLength_def\<close>)
  ultimately show thesis using that [of r] mag by (simp add: bint_def)
qed

lemma BigintAdd_correct:
  assumes wf: "wf_bigint x" "wf_bigint y" and fits: "max (GetLength x) (GetLength y) < MAXSIZE"
  obtains r where "BigintAdd x y rs = Inr r" "wf_bigint r" "bmag r = bmag x + bmag y"
    "bint r = (if rs then - (int (bmag x) + int (bmag y)) else int (bmag x) + int (bmag y))"
proof (cases "GetLength x < GetLength y")
  case True
  obtain r where "BigintAdd y x rs = Inr r" "wf_bigint r" "bmag r = bmag y + bmag x"
    "bint r = (if rs then - (int (bmag y) + int (bmag x)) else int (bmag y) + int (bmag x))"
    by (rule BigintAdd_ge [OF wf(2,1), of rs]) (use True fits in auto)
  then show thesis using that [of r] BigintAdd_swap [OF True] by (simp add: add.commute)
next
  case False
  show thesis by (rule BigintAdd_ge [OF wf _ _ that]) (use False fits in auto)
qed

definition sub_inv :: "u32 list \<Rightarrow> u32 list \<Rightarrow> nat \<Rightarrow> nat \<Rightarrow> BigInt \<times> u32 \<Rightarrow> bool" where
  "sub_inv xs ys n i s \<longleftrightarrow>
     length (bi_digits (fst s)) = n \<and> unat (snd s) \<le> 1 \<and>
     bval (take i (bi_digits (fst s))) + bval (take i ys) =
       bval (take i xs) + B ^ i * unat (snd s)"

lemma sub_step_inv:
  assumes "sub_inv (bi_digits x) (bi_digits y) n i s" and "i < n"
    and "i < GetLength x" and "i < GetLength y"
  shows "sub_inv (bi_digits x) (bi_digits y) n (Suc i) (sub_step x y i s)"
proof -
  obtain b c where s: "s = (b, c)" by (cases s)
  obtain a1 c1 where h1: "SubHelper (GetDigit x i) (GetDigit y i) 0 = (a1, c1)" by fastforce
  obtain a2 c2 where h2: "SubHelper a1 c c1 = (a2, c2)" by fastforce
  have c1: "unat c1 \<le> 1" using SubHelper_spec(2) [OF h1] by simp
  have inv: "length (bi_digits b) = n" "unat c \<le> 1"
    "bval (take i (bi_digits b)) + bval (take i (bi_digits y)) = bval (take i (bi_digits x)) + B ^ i * unat c"
    using assms(1) by (auto simp: sub_inv_def s)
  have eq: "unat a2 + unat (GetDigit y i) + unat c = unat (GetDigit x i) + B * unat c2"
    using SubHelper_spec(1) [OF h1] SubHelper_spec(1) [OF h2] c1 by simp
  have "unat c2 \<le> 1"
    using eq inv(2) unat_u32_lt [of a2] unat_u32_lt [of "GetDigit y i"] by linarith
  moreover have "sub_step x y i s = (SetDigit b i a2, c2)"
    by (simp add: sub_step_def s h1 h2)
  ultimately show ?thesis
    using bval_borrow_step [OF _ eq inv(3)] inv(1) assms(2-4)
    by (simp add: sub_inv_def bval_take_Suc GetDigit_def GetLength_def)
qed

lemma sub_borrow_step_inv:
  assumes "sub_inv (bi_digits x) ys n i s" and "i < n" and "i < GetLength x" and "length ys \<le> i"
  shows "sub_inv (bi_digits x) ys n (Suc i) (sub_borrow_step x i s)"
proof -
  obtain b c where s: "s = (b, c)" by (cases s)
  obtain a1 c1 where h1: "SubHelper (GetDigit x i) c 0 = (a1, c1)" by fastforce
  have inv: "length (bi_digits b) = n" "unat c \<le> 1"
    "bval (take i (bi_digits b)) + bval (take i ys) = bval (take i (bi_digits x)) + B ^ i * unat c"
    using assms(1) by (auto simp: sub_inv_def s)
  have eq: "unat a1 + 0 + unat c = unat (GetDigit x i) + B * unat c1"
    using SubHelper_spec(1) [OF h1] by simp
  moreover have "unat c1 \<le> 1" using SubHelper_spec(2) [OF h1] by simp
  moreover have "sub_borrow_step x i s = (SetDigit b i a1, c1)"
    by (simp add: sub_borrow_step_def s h1)
  ultimately show ?thesis
    using bval_borrow_step [OF _ eq inv(3)] inv(1) assms(2-4)
    by (simp add: sub_inv_def bval_take_Suc GetDigit_def GetLength_def)
qed

lemma sub_loops:
  assumes "GetLength y \<le> GetLength x"
  shows "sub_inv (bi_digits x) (bi_digits y) (GetLength x) (GetLength x)
    (for_up (GetLength y) (GetLength x) (sub_borrow_step x)
      (for_up 0 (GetLength y) (sub_step x y) (NewBigInt (GetLength x), 0)))"
proof -
  let ?I = "sub_inv (bi_digits x) (bi_digits y) (GetLength x)"
  let ?s = "for_up 0 (GetLength y) (sub_step x y) (NewBigInt (GetLength x), 0)"
  have "?I 0 (NewBigInt (GetLength x), 0)" by (simp add: sub_inv_def)
  then have "?I (GetLength y) ?s"
    by (rule for_up_inv [where I = ?I, rotated]) (use assms in \<open>auto intro!: sub_step_inv\<close>)
  then show ?thesis
    by (rule for_up_inv [where I = ?I, OF assms])
      (auto intro!: sub_borrow_step_inv simp: GetLength_def)
qed

lemma wf_length_le: "wf_bigint x \<Longrightarrow> wf_bigint y \<Longrightarrow> bmag y \<le> bmag x \<Longrightarrow> GetLength y \<le> GetLength x"
  using wf_digits_length_eq [of "bi_digits x" "bi_digits y"]
  by (cases "GetLength x < GetLength y") (simp_all add: wf_bigint_def bmag_def GetLength_def)

lemma BigintSub_correct:
  assumes wf: "wf_bigint x" "wf_bigint y" and le: "bmag y \<le> bmag x"
  obtains r where "BigintSub x y rs = Inr r" "wf_bigint r" "bmag r = bmag x - bmag y"
    "bint r = (if rs then - (int (bmag x) - int (bmag y)) else int (bmag x) - int (bmag y))"
proof -
  have len: "GetLength y \<le> GetLength x" using wf le by (rule wf_length_le)
  obtain b c where loop: "for_up (GetLength y) (GetLength x) (sub_borrow_step x)
      (for_up 0 (GetLength y) (sub_step x y) (NewBigInt (GetLength x), 0)) = (b, c)"
    by fastforce
  from sub_loops [OF len] have inv: "length (bi_digits b) = GetLength x"
    "bval (bi_digits b) + bmag y = bmag x + B ^ GetLength x * unat c"
    using len unfolding loop by (auto simp: sub_inv_def bmag_def GetLength_def)
  have "unat c = 0"
  proof (rule ccontr)
    assume "unat c \<noteq> 0"
    then have "B ^ GetLength x * 1 \<le> B ^ GetLength x * unat c" by (intro mult_le_mono2) simp
    moreover have "bval (bi_digits b) < B ^ GetLength x" using bval_lt [of "bi_digits b"] inv(1) by simp
    ultimately show False using inv(2) le by linarith
  qed
  then have mag: "bmag (SetSign b rs) = bmag x - bmag y" using inv(2) le by (simp add: bmag_def)
  have "BigintSub x y rs = RightTruncate (SetSign b rs)"
    using loop wf_bigintD(4) [OF wf(1)] by (simp add: BigintSub_def CreateBigint_Inr)
  moreover obtain r where "RightTruncate (SetSign b rs) = Inr r" "wf_bigint r"
      "bmag r = bmag (SetSign b rs)" "bint r = bint (SetSign b rs)"
    by (rule RightTruncate_correct [of "SetSign b rs"])
      (use inv(1) wf_bigintD [OF wf(1)] in \<open>auto simp: GetLength_def\<close>)
  ultimately show thesis using that [of r] mag le by (simp add: bint_def of_nat_diff)
qed

section \<open>Signed addition and subtraction\<close>

lemma skip_equal_spec:
  "skip_equal x y n \<le> n \<and>
   (\<forall>i. skip_equal x y n < i \<longrightarrow> i \<le> n \<longrightarrow> GetDigit x i = GetDigit y i) \<and>
   (skip_equal x y n \<noteq> 0 \<longrightarrow>
      GetDigit x (skip_equal x y n) \<noteq> GetDigit y (skip_equal x y n))"
  by (induction n) (auto simp: le_Suc_eq)

lemma skip_equal_compares:
  assumes "wf_bigint x" "wf_bigint y" and eq: "GetLength x = GetLength y"
  defines "i \<equiv> skip_equal x y (GetLength x - 1)"
  shows "GetDigit x i > GetDigit y i \<longleftrightarrow> bmag y < bmag x"
proof -
  have pos: "0 < GetLength x" using wf_bigintD(3) [OF assms(1)] .
  have i: "i < GetLength x" "\<And>j. i < j \<Longrightarrow> j < GetLength x \<Longrightarrow> GetDigit x j = GetDigit y j"
    using skip_equal_spec [of x y "GetLength x - 1"] pos by (auto simp: i_def)
  have lt: "GetDigit a i < GetDigit b i \<Longrightarrow> bmag a < bmag b"
    if "a = x \<and> b = y \<or> a = y \<and> b = x" for a b
    using that i eq
    by (auto simp: bmag_def GetLength_def GetDigit_def intro!: bval_less_by_digit [where k = i])
  show ?thesis
  proof (cases "GetDigit x i" "GetDigit y i" rule: linorder_cases)
    case equal
    then have "i = 0" using skip_equal_spec [of x y "GetLength x - 1"] by (auto simp: i_def)
    then have "GetDigit x j = GetDigit y j" if "j < GetLength x" for j
      using that i(2) [of j] equal by (cases "j = 0") auto
    then have "bi_digits x = bi_digits y"
      using eq by (auto simp: GetLength_def GetDigit_def intro!: nth_equalityI)
    then show ?thesis using equal by (simp add: bmag_def)
  qed (use lt [of x y] lt [of y x] in auto)
qed

lemma GetLength_less_mag:
  "wf_bigint x \<Longrightarrow> wf_bigint y \<Longrightarrow> GetLength x < GetLength y \<Longrightarrow> bmag x < bmag y"
  by (simp add: wf_bigint_def GetLength_def bmag_def wf_digits_length_eq)

text \<open>The common shape of the mixed-sign branches: subtract the smaller magnitude.\<close>

lemma mixed_sign_branch:
  assumes "wf_bigint x" "wf_bigint y"
  shows "(let subSize = int (GetLength x) - int (GetLength y) in
      if subSize > 0 then BigintSub x y sx
      else if subSize = 0 then
        let i = skip_equal x y (GetLength x - 1) in
        if GetDigit x i > GetDigit y i then BigintSub x y sx else BigintSub y x sy
      else BigintSub y x sy) =
    (if bmag y < bmag x then BigintSub x y sx else BigintSub y x sy)"
proof (cases "GetLength x" "GetLength y" rule: linorder_cases)
  case equal
  then show ?thesis using skip_equal_compares [OF assms equal] by (simp add: Let_def)
qed (use GetLength_less_mag [OF assms] GetLength_less_mag [OF assms(2,1)] in \<open>auto simp: Let_def\<close>)

lemma Add_overflow:
  "bi_sign x = bi_sign y \<Longrightarrow> max (GetLength x) (GetLength y) = MAXSIZE \<Longrightarrow>
    Add x y = Inl max_size_error"
  by (simp add: Add_def BigintAdd_overflow)

lemma Add_mixed:
  assumes "wf_bigint x" "wf_bigint y" "bi_sign x \<noteq> bi_sign y"
  shows "Add x y =
      (if bmag y < bmag x then BigintSub x y (bi_sign x) else BigintSub y x (bi_sign y))"
  using assms(3)
  by (simp only: Add_def Let_def mixed_sign_branch [OF assms(1,2), unfolded Let_def] if_False)

lemma Add_correct:
  assumes wf: "wf_bigint x" "wf_bigint y"
    and fits: "bi_sign x = bi_sign y \<Longrightarrow> max (GetLength x) (GetLength y) < MAXSIZE"
  obtains r where "Add x y = Inr r" "wf_bigint r" "bint r = bint x + bint y"
proof -
  consider (same) "bi_sign x = bi_sign y" | (gt) "bi_sign x \<noteq> bi_sign y" "bmag y < bmag x"
    | (le) "bi_sign x \<noteq> bi_sign y" "bmag x \<le> bmag y" by linarith
  then show thesis
  proof cases
    case same
    obtain r where "BigintAdd x y (bi_sign x) = Inr r" "wf_bigint r"
      "bint r = (if bi_sign x then - (int (bmag x) + int (bmag y)) else int (bmag x) + int (bmag y))"
      by (rule BigintAdd_correct [OF wf, of "bi_sign x"]) (use same fits in auto)
    with same show thesis using that [of r] by (simp add: Add_def bint_def)
  next
    case gt
    obtain r where "BigintSub x y (bi_sign x) = Inr r" "wf_bigint r"
      "bint r = (if bi_sign x then - (int (bmag x) - int (bmag y)) else int (bmag x) - int (bmag y))"
      by (rule BigintSub_correct [OF wf, of "bi_sign x"]) (use gt in auto)
    with gt show thesis using that [of r] Add_mixed [OF wf gt(1)] by (simp add: bint_def)
  next
    case le
    obtain r where "BigintSub y x (bi_sign y) = Inr r" "wf_bigint r"
      "bint r = (if bi_sign y then - (int (bmag y) - int (bmag x)) else int (bmag y) - int (bmag x))"
      by (rule BigintSub_correct [OF wf(2,1), of "bi_sign y"]) (use le in auto)
    with le show thesis
      using that [of r] Add_mixed [OF wf le(1)] by (cases "bi_sign x") (simp_all add: bint_def)
  qed
qed

lemma Subtract_overflow:
  "bi_sign x \<noteq> bi_sign y \<Longrightarrow> max (GetLength x) (GetLength y) = MAXSIZE \<Longrightarrow>
    Subtract x y = Inl max_size_error"
  by (simp add: Subtract_def BigintAdd_overflow)

lemma Subtract_same:
  assumes "wf_bigint x" "wf_bigint y" "bi_sign x = bi_sign y"
  shows "Subtract x y =
      (if bmag y < bmag x then BigintSub x y (bi_sign x) else BigintSub y x (\<not> bi_sign y))"
  using assms(3)
  by (simp only: Subtract_def Let_def mixed_sign_branch [OF assms(1,2), unfolded Let_def]
      not_True_eq_False if_False simp_thms)

lemma Subtract_correct:
  assumes wf: "wf_bigint x" "wf_bigint y"
    and fits: "bi_sign x \<noteq> bi_sign y \<Longrightarrow> max (GetLength x) (GetLength y) < MAXSIZE"
  obtains r where "Subtract x y = Inr r" "wf_bigint r" "bint r = bint x - bint y"
proof -
  consider (differ) "bi_sign x \<noteq> bi_sign y" | (gt) "bi_sign x = bi_sign y" "bmag y < bmag x"
    | (le) "bi_sign x = bi_sign y" "bmag x \<le> bmag y" by linarith
  then show thesis
  proof cases
    case differ
    obtain r where "BigintAdd x y (bi_sign x) = Inr r" "wf_bigint r"
      "bint r = (if bi_sign x then - (int (bmag x) + int (bmag y)) else int (bmag x) + int (bmag y))"
      by (rule BigintAdd_correct [OF wf, of "bi_sign x"]) (use differ fits in auto)
    with differ show thesis using that [of r] by (simp add: Subtract_def bint_def)
  next
    case gt
    obtain r where "BigintSub x y (bi_sign x) = Inr r" "wf_bigint r"
      "bint r = (if bi_sign x then - (int (bmag x) - int (bmag y)) else int (bmag x) - int (bmag y))"
      by (rule BigintSub_correct [OF wf, of "bi_sign x"]) (use gt in auto)
    with gt show thesis using that [of r] Subtract_same [OF wf gt(1)] by (simp add: bint_def)
  next
    case le
    obtain r where "BigintSub y x (\<not> bi_sign y) = Inr r" "wf_bigint r"
      "bint r = (if \<not> bi_sign y then - (int (bmag y) - int (bmag x)) else int (bmag y) - int (bmag x))"
      by (rule BigintSub_correct [OF wf(2,1), of "\<not> bi_sign y"]) (use le in auto)
    with le show thesis
      using that [of r] Subtract_same [OF wf le(1)] by (cases "bi_sign y") (simp_all add: bint_def)
  qed
qed

section \<open>Successor, negation and complement\<close>

lemma Int32ToBigInt_1: "Int32ToBigInt 1 = Inr \<lparr>bi_sign = False, bi_digits = [1]\<rparr>"
  by (simp add: Int32ToBigInt_eq word_sless_alt)

lemma wf_bigint_one [simp]: "wf_bigint \<lparr>bi_sign = False, bi_digits = [1]\<rparr>"
  and bint_one [simp]: "bint \<lparr>bi_sign = False, bi_digits = [1]\<rparr> = 1"
  and GetLength_one [simp]: "GetLength \<lparr>bi_sign = False, bi_digits = [d]\<rparr> = 1"
  by (simp_all add: wf_bigint_def wf_digits_def MAXSIZE_eq bint_def bmag_def GetLength_def)

lemma BigintAddOne_correct:
  assumes "wf_bigint x" and "\<not> bi_sign x \<Longrightarrow> GetLength x < MAXSIZE"
  obtains r where "BigintAddOne x = Inr r" "wf_bigint r" "bint r = bint x + 1"
proof -
  obtain r where "Add x \<lparr>bi_sign = False, bi_digits = [1]\<rparr> = Inr r" "wf_bigint r" "bint r = bint x + 1"
    by (rule Add_correct [OF assms(1), of "\<lparr>bi_sign = False, bi_digits = [1]\<rparr>"])
      (use assms(2) in \<open>auto simp: MAXSIZE_eq\<close>)
  then show thesis using that by (simp add: BigintAddOne_def Int32ToBigInt_1)
qed

lemma BigintSubOne_correct:
  assumes "wf_bigint x" and "bi_sign x \<Longrightarrow> GetLength x < MAXSIZE"
  obtains r where "BigintSubOne x = Inr r" "wf_bigint r" "bint r = bint x - 1"
proof -
  obtain r where "Subtract x \<lparr>bi_sign = False, bi_digits = [1]\<rparr> = Inr r" "wf_bigint r" "bint r = bint x - 1"
    by (rule Subtract_correct [OF assms(1), of "\<lparr>bi_sign = False, bi_digits = [1]\<rparr>"])
      (use assms(2) in \<open>auto simp: MAXSIZE_eq\<close>)
  then show thesis using that by (simp add: BigintSubOne_def Int32ToBigInt_1)
qed

lemma UnaryMinus_correct:
  assumes "wf_bigint x"
  obtains r where "UnaryMinus x = Inr r" "wf_bigint r" "bint r = - bint x"
    "bi_digits r = bi_digits x"
proof (cases "IsZero x")
  case True
  then have "bmag x = 0" using IsZero_iff [OF assms] by simp
  with True assms show thesis using that [of x] by (simp add: UnaryMinus_def bint_def)
next
  case False
  then have "bmag x \<noteq> 0" using IsZero_iff [OF assms] by simp
  moreover have "UnaryMinus x = Inr (SetSign (NewSubBigInt x (GetLength x)) (\<not> bi_sign x))"
    using False wf_bigintD(4) [OF assms]
    by (simp add: UnaryMinus_def Copy_def CreateSubBigInt_def NewSubBigInt_def)
  ultimately show thesis
    using assms that
    by (simp add: NewSubBigInt_def GetLength_def wf_bigint_def bint_def bmag_def SetSign_def)
qed

lemma bint_nonneg_iff: "wf_bigint x \<Longrightarrow> 0 \<le> bint x \<longleftrightarrow> \<not> bi_sign x"
  by (auto simp: bint_def wf_bigint_def)

lemma BitwiseNOT_correct:
  assumes "wf_bigint x" and "\<not> bi_sign x \<Longrightarrow> GetLength x < MAXSIZE"
  obtains r where "BitwiseNOT x = Inr r" "wf_bigint r" "bint r = - bint x - 1"
proof -
  obtain q where q: "BigintAddOne x = Inr q" "wf_bigint q" "bint q = bint x + 1"
    by (rule BigintAddOne_correct [OF assms])
  show thesis
  proof (cases "bi_sign x")
    case True
    then have "bint x < 0" using bint_nonneg_iff [OF assms(1)] by linarith
    then have "bint (SetSign q False) = - bint x - 1"
      using q(2,3) bint_nonneg_iff [OF q(2)] by (auto simp: bint_def split: if_splits)
    then show thesis
      using that [of "SetSign q False"] True q by (simp add: BitwiseNOT_def wf_bigint_def)
  next
    case False
    then have "0 \<le> bint x" using bint_nonneg_iff [OF assms(1)] by simp
    then have "\<not> bi_sign q" "bmag q \<noteq> 0"
      using q bint_nonneg_iff [OF q(2)] by (auto simp: bint_def split: if_splits)
    then show thesis
      using that [of "SetSign q True"] False q by (simp add: BitwiseNOT_def wf_bigint_def bint_def)
  qed
qed

end
