(* ===== verification/BigInt_Shift.thy ===== *)
theory BigInt_Shift
  imports BigInt_AddSub
begin

text \<open>
  Shifts of \<open>BigInt\<close> (js_bigint.cpp): the digit loops that move bits across digit
  boundaries, the rounding of negative right shifts and the two successor routines on
  magnitudes. A right shift is shown to be the floor division by a power of two and a
  left shift the multiplication by it.
\<close>

section \<open>Operations\<close>

definition BitwiseSubOne :: "BigInt \<Rightarrow> nat \<Rightarrow> BigInt result" where
  "BitwiseSubOne bigint maxLen =
     bindE (CreateBigint maxLen) (\<lambda>newBigint.
       let (newBigint, carry) =
         for_up 0 (GetLength bigint)
           (\<lambda>i (newBigint, carry).
              let (d, bigintCarry) = SubHelper (GetDigit bigint i) carry 0
              in (SetDigit newBigint i d, bigintCarry))
           (newBigint, 1)
       in RightTruncate newBigint)"

definition BitwiseAddOne :: "BigInt \<Rightarrow> BigInt result" where
  "BitwiseAddOne bigint =
     (let bigintLength = GetLength bigint;
          needExpend = for_up 0 bigintLength
            (\<lambda>i needExpend. if - 1 \<noteq> GetDigit bigint i then False else needExpend) True;
          newLength = (if needExpend then bigintLength + 1 else bigintLength)
      in bindE (CreateBigint newLength) (\<lambda>newBigint.
        let (newBigint, carry) =
              for_up 0 bigintLength
                (\<lambda>i (newBigint, carry).
                   let (d, bigintCarry) = AddHelper (GetDigit bigint i) carry 0
                   in (SetDigit newBigint i d, bigintCarry))
                (newBigint, 1);
            newBigint = (if needExpend then SetDigit newBigint bigintLength carry else newBigint)
        in RightTruncate (SetSign newBigint True)))"

definition right_shift_step :: "BigInt \<Rightarrow> nat \<Rightarrow> nat \<Rightarrow> nat \<Rightarrow> BigInt \<times> u32 \<Rightarrow> BigInt \<times> u32" where
  "right_shift_step x digitMove bitsMove i s =
     (let (bigint, carry) = s;
          value = GetDigit x (i + digitMove + 1)
      in (SetDigit bigint i (push_bit (DATA_BITS - bitsMove) value OR carry),
          drop_bit bitsMove value))"

definition RightShift :: "BigInt \<Rightarrow> BigInt \<Rightarrow> nat \<Rightarrow> nat \<Rightarrow> BigInt" where
  "RightShift bigint x digitMove bitsMove =
     (let size = GetLength x in
      if bitsMove = 0 then
        for_up digitMove size (\<lambda>i bigint. SetDigit bigint (i - digitMove) (GetDigit x i)) bigint
      else
        let carry = drop_bit bitsMove (GetDigit x digitMove);
            last = size - digitMove - 1;
            (bigint, carry) =
              for_up 0 last (right_shift_step x digitMove bitsMove) (bigint, carry)
        in SetDigit bigint last carry)"

definition JudgeRoundDown :: "BigInt \<Rightarrow> nat \<Rightarrow> nat \<Rightarrow> nat \<Rightarrow> nat \<times> bool" where
  "JudgeRoundDown x digitMove bitsMove needLen =
     (let stamp = push_bit bitsMove 1 - 1;
          roundDown =
            (if GetDigit x digitMove AND stamp \<noteq> 0 then True
             else for_up 0 digitMove
               (\<lambda>i roundDown. if GetDigit x i \<noteq> 0 then True else roundDown) False)
      in if roundDown \<and> bitsMove = 0 then
           let highBits = GetDigit x (GetLength x - 1)
           in (if NOT highBits = 0 then needLen + 1 else needLen, roundDown)
         else (needLen, roundDown))"

definition ReturnIfRightShiftOverMax :: "bool \<Rightarrow> BigInt result" where
  "ReturnIfRightShiftOverMax sign = (if sign then Int32ToBigInt (- 1) else Int32ToBigInt 0)"

definition RightShiftHelper :: "BigInt \<Rightarrow> BigInt \<Rightarrow> BigInt result" where
  "RightShiftHelper x y =
     (let sign = bi_sign x in
      if GetLength y > 1 \<or> unat (GetDigit y 0) > MAXBITS then ReturnIfRightShiftOverMax sign
      else
        let moveNum = unat (GetDigit y 0);
            digitMove = moveNum div DATA_BITS;
            bitsMove = moveNum mod DATA_BITS in
        if GetLength x \<le> digitMove then ReturnIfRightShiftOverMax sign
        else
          let needLen = GetLength x - digitMove;
              (needLen, roundDown) =
                (if sign then JudgeRoundDown x digitMove bitsMove needLen else (needLen, False))
          in bindE (CreateBigint needLen) (\<lambda>bigint.
             bindE (RightTruncate (RightShift bigint x digitMove bitsMove)) (\<lambda>bigint.
               if sign then
                 let bigint = SetSign bigint True
                 in if roundDown then BitwiseAddOne bigint else Inr bigint
               else Inr bigint)))"

definition left_shift_step :: "BigInt \<Rightarrow> nat \<Rightarrow> nat \<Rightarrow> nat \<Rightarrow> BigInt \<times> u32 \<Rightarrow> BigInt \<times> u32" where
  "left_shift_step x digitMove bitsMove index s =
     (let (bigint, carry) = s;
          value = GetDigit x index
      in (SetDigit bigint (index + digitMove) (push_bit bitsMove value OR carry),
          drop_bit (DATA_BITS - bitsMove) value))"

definition LeftShiftHelper :: "BigInt \<Rightarrow> BigInt \<Rightarrow> BigInt result" where
  "LeftShiftHelper x y =
     (if IsZero x then Inr x
      else
        let moveNum = unat (GetDigit y 0);
            digitMove = moveNum div DATA_BITS;
            bitsMove = moveNum mod DATA_BITS;
            needLen = digitMove + GetLength x + (if bitsMove \<noteq> 0 then 1 else 0)
        in bindE (CreateBigint needLen) (\<lambda>bigint.
          let bigint =
            (if bitsMove = 0 then
               for_up digitMove needLen
                 (\<lambda>index bigint. SetDigit bigint index (GetDigit x (index - digitMove))) bigint
             else
               let (bigint, carry) =
                 for_up 0 (GetLength x) (left_shift_step x digitMove bitsMove) (bigint, 0)
               in if carry \<noteq> 0 then SetDigit bigint (GetLength x + digitMove) carry
                  else bigint)
          in RightTruncate (SetSign bigint (bi_sign x))))"

definition SignedRightShift :: "BigInt \<Rightarrow> BigInt \<Rightarrow> BigInt result" where
  "SignedRightShift x y =
     (if IsZero x \<or> IsZero y then Inr x
      else if bi_sign y then LeftShiftHelper x y else RightShiftHelper x y)"

definition LeftShift :: "BigInt \<Rightarrow> BigInt \<Rightarrow> BigInt result" where
  "LeftShift x y = (if bi_sign y then RightShiftHelper x y else LeftShiftHelper x y)"

definition UnsignedRightShift :: "BigInt result" where
  "UnsignedRightShift = Inl (TypeError ''BigInt have no unsigned right shift, use >> instead'')"

section \<open>Successor and predecessor of a magnitude\<close>

definition chain_inv :: "u32 list \<Rightarrow> nat \<Rightarrow> nat \<Rightarrow> BigInt \<times> u32 \<Rightarrow> bool" where
  "chain_inv xs n i s \<longleftrightarrow>
     length (bi_digits (fst s)) = n \<and> unat (snd s) \<le> 1 \<and> bi_sign (fst s) = False \<and>
     drop i (bi_digits (fst s)) = replicate (n - i) 0 \<and>
     bval (take i (bi_digits (fst s))) + B ^ i * unat (snd s) = bval (take i xs) + 1"

lemma drop_Suc_replicate: "drop i xs = replicate (n - i) v \<Longrightarrow> drop (Suc i) xs = replicate (n - Suc i) v"
  by (metis drop_Suc drop_replicate drop_tl diff_Suc_eq_diff_pred drop_drop add.commute drop0 diff_diff_left plus_1_eq_Suc)

lemma add_chain:
  assumes "GetLength x \<le> n"
  shows "chain_inv (bi_digits x) n (GetLength x)
    (for_up 0 (GetLength x) (add_carry_step x) (NewBigInt n, 1))"
proof (rule for_up_inv [where I = "chain_inv (bi_digits x) n"])
  show "chain_inv (bi_digits x) n 0 (NewBigInt n, 1)" by (simp add: chain_inv_def)
next
  fix i s
  assume i: "i < GetLength x" and inv: "chain_inv (bi_digits x) n i s"
  obtain b c where s: "s = (b, c)" by (cases s)
  obtain a1 c1 where h: "AddHelper (GetDigit x i) c 0 = (a1, c1)" by fastforce
  have I: "length (bi_digits b) = n" "unat c \<le> 1" "\<not> bi_sign b"
    "drop i (bi_digits b) = replicate (n - i) 0"
    "bval (take i (bi_digits b)) + B ^ i * unat c = bval (take i (bi_digits x)) + 1"
    using inv by (auto simp: chain_inv_def s)
  have eq: "unat a1 + B * unat c1 = unat (GetDigit x i) + unat c" and "unat c1 \<le> 1"
    using AddHelper_spec [OF h] by simp_all
  moreover have "add_carry_step x i s = (SetDigit b i a1, c1)"
    by (simp add: add_carry_step_def s h)
  ultimately show "chain_inv (bi_digits x) n (Suc i) (add_carry_step x i s)"
    using bval_carry_step [OF _ eq I(5)] I i assms drop_Suc_replicate [OF I(4)]
    by (simp add: chain_inv_def bval_take_Suc GetDigit_def GetLength_def algebra_simps)
qed simp

lemma add_one_step_eq:
  "(\<lambda>i (newBigint, carry). let (d, bigintCarry) = AddHelper (GetDigit x i) carry 0
      in (SetDigit newBigint i d, bigintCarry)) = add_carry_step x"
  by (simp add: add_carry_step_def fun_eq_iff split: prod.splits)

lemma sub_one_step_eq:
  "(\<lambda>i (newBigint, carry). let (d, bigintCarry) = SubHelper (GetDigit x i) carry 0
      in (SetDigit newBigint i d, bigintCarry)) = sub_borrow_step x"
  by (simp add: sub_borrow_step_def fun_eq_iff split: prod.splits)

definition borrow_inv :: "u32 list \<Rightarrow> nat \<Rightarrow> nat \<Rightarrow> BigInt \<times> u32 \<Rightarrow> bool" where
  "borrow_inv xs n i s \<longleftrightarrow>
     length (bi_digits (fst s)) = n \<and> unat (snd s) \<le> 1 \<and> bi_sign (fst s) = False \<and>
     drop i (bi_digits (fst s)) = replicate (n - i) 0 \<and>
     bval (take i (bi_digits (fst s))) + 1 = bval (take i xs) + B ^ i * unat (snd s)"

lemma sub_chain:
  assumes "GetLength x \<le> n"
  shows "borrow_inv (bi_digits x) n (GetLength x)
    (for_up 0 (GetLength x) (sub_borrow_step x) (NewBigInt n, 1))"
proof (rule for_up_inv [where I = "borrow_inv (bi_digits x) n"])
  show "borrow_inv (bi_digits x) n 0 (NewBigInt n, 1)" by (simp add: borrow_inv_def)
next
  fix i s
  assume i: "i < GetLength x" and inv: "borrow_inv (bi_digits x) n i s"
  obtain b c where s: "s = (b, c)" by (cases s)
  obtain a1 c1 where h: "SubHelper (GetDigit x i) c 0 = (a1, c1)" by fastforce
  have I: "length (bi_digits b) = n" "unat c \<le> 1" "\<not> bi_sign b"
    "drop i (bi_digits b) = replicate (n - i) 0"
    "bval (take i (bi_digits b)) + 1 = bval (take i (bi_digits x)) + B ^ i * unat c"
    using inv by (auto simp: borrow_inv_def s)
  have eq: "unat a1 + 0 + unat c = unat (GetDigit x i) + B * unat c1" and "unat c1 \<le> 1"
    using SubHelper_spec [OF h] by simp_all
  moreover have "sub_borrow_step x i s = (SetDigit b i a1, c1)"
    by (simp add: sub_borrow_step_def s h)
  ultimately show "borrow_inv (bi_digits x) n (Suc i) (sub_borrow_step x i s)"
    using bval_borrow_step [OF _ eq I(5)] I i assms drop_Suc_replicate [OF I(4)]
    by (simp add: borrow_inv_def bval_take_Suc GetDigit_def GetLength_def algebra_simps)
qed simp

lemma bval_not_all_ones: "\<exists>d \<in> set xs. d \<noteq> - 1 \<Longrightarrow> bval xs + 1 < B ^ length xs"
proof (induction xs)
  case Nil
  then show ?case by simp
next
  case (Cons d ds)
  show ?case
  proof (cases "\<exists>e \<in> set ds. e \<noteq> - 1")
    case True
    then have "B * (bval ds + 2) \<le> B * B ^ length ds"
      using Cons.IH by (intro mult_le_mono2) linarith
    then show ?thesis using unat_u32_lt [of d] by simp
  next
    case False
    with Cons.prems have "d \<noteq> - 1" by auto
    then have "unat d \<noteq> unat (- 1 :: u32)" using word_unat_eq_iff by blast
    then have "unat d + 1 < B" using unat_u32_lt [of d] by simp
    moreover have "B * (bval ds + 1) \<le> B * B ^ length ds"
      using bval_lt [of ds] by (intro mult_le_mono2) linarith
    ultimately show ?thesis by simp
  qed
qed

lemma needExpend_iff:
  "for_up 0 n (\<lambda>i needExpend. if - 1 \<noteq> GetDigit x i then False else needExpend) True \<longleftrightarrow>
     (\<forall>i < n. GetDigit x i = - 1)"
  by (induction n) (auto simp: for_up_Suc less_Suc_eq)

definition all_ones :: "BigInt \<Rightarrow> bool" where
  "all_ones x \<longleftrightarrow> (\<forall>d \<in> set (bi_digits x). d = - 1)"

lemma BitwiseAddOne_correct:
  assumes ne: "bi_digits x \<noteq> []" and le: "GetLength x \<le> MAXSIZE"
    and fits: "all_ones x \<Longrightarrow> GetLength x < MAXSIZE"
  obtains r where "BitwiseAddOne x = Inr r" "wf_bigint r" "bmag r = bmag x + 1" "bi_sign r"
proof -
  let ?n = "GetLength x"
  let ?len = "if all_ones x then ?n + 1 else ?n"
  obtain b c where loop: "for_up 0 ?n (add_carry_step x) (NewBigInt ?len, 1) = (b, c)"
    by fastforce
  have inv: "length (bi_digits b) = ?len" "drop ?n (bi_digits b) = replicate (?len - ?n) 0"
    "bval (take ?n (bi_digits b)) + B ^ ?n * unat c = bmag x + 1"
    using add_chain [of x ?len] unfolding loop
    by (auto simp: chain_inv_def bmag_def GetLength_def split: if_splits)
  let ?b = "if all_ones x then SetDigit b ?n c else b"
  have mag: "bmag ?b = bmag x + 1"
  proof (cases "all_ones x")
    case True
    then show ?thesis using inv bval_take_update [of ?n "bi_digits b" c] by (simp add: bmag_def)
  next
    case False
    then have "bmag x + 1 < B ^ ?n"
      using bval_not_all_ones by (auto simp: all_ones_def bmag_def GetLength_def)
    then have "unat c = 0"
      using inv(3) by (cases "unat c") auto
    then show ?thesis using False inv by (simp add: bmag_def GetLength_def)
  qed
  have exp: "for_up 0 ?n (\<lambda>i ne. if - 1 \<noteq> GetDigit x i then False else ne) True = all_ones x"
    unfolding needExpend_iff
    by (simp add: all_ones_def GetDigit_def GetLength_def all_set_conv_all_nth)
  have "BitwiseAddOne x = RightTruncate (SetSign ?b True)"
    using le fits loop unfolding BitwiseAddOne_def add_one_step_eq exp
    by (auto simp: exp CreateBigint_Inr Let_def)
  moreover obtain r where "RightTruncate (SetSign ?b True) = Inr r" "wf_bigint r"
      "bmag r = bmag ?b" "bmag ?b \<noteq> 0 \<Longrightarrow> bi_sign r"
    by (rule RightTruncate_correct [of "SetSign ?b True"])
      (use inv(1) ne le fits in \<open>auto simp: GetLength_def split: if_splits\<close>)
  ultimately show thesis using that [of r] mag by simp
qed

lemma BitwiseSubOne_correct:
  assumes ne: "bi_digits x \<noteq> []" and pos: "bmag x \<noteq> 0"
    and le: "GetLength x \<le> n" "n \<le> MAXSIZE"
  obtains r where "BitwiseSubOne x n = Inr r" "wf_bigint r" "bmag r = bmag x - 1" "\<not> bi_sign r"
    "GetLength r \<le> n"
proof -
  obtain b c where loop: "for_up 0 (GetLength x) (sub_borrow_step x) (NewBigInt n, 1) = (b, c)"
    by fastforce
  have inv: "length (bi_digits b) = n" "\<not> bi_sign b"
    "drop (GetLength x) (bi_digits b) = replicate (n - GetLength x) 0"
    "bval (take (GetLength x) (bi_digits b)) + 1 = bmag x + B ^ GetLength x * unat c"
    using sub_chain [OF le(1)] unfolding loop by (auto simp: borrow_inv_def bmag_def GetLength_def)
  have "bval (take (GetLength x) (bi_digits b)) < B ^ GetLength x"
    using bval_lt [of "take (GetLength x) (bi_digits b)"] inv(1) le(1) by (simp add: min.absorb2)
  then have "unat c = 0"
    using inv(4) pos by (cases "unat c") auto
  then have mag: "bmag b = bmag x - 1"
    using inv pos bval_take_drop [of "bi_digits b" "GetLength x"] by (simp add: bmag_def)
  have "BitwiseSubOne x n = RightTruncate b"
    using le loop unfolding BitwiseSubOne_def sub_one_step_eq by (simp add: CreateBigint_Inr)
  moreover obtain r where r: "RightTruncate b = Inr r" "wf_bigint r" "bmag r = bmag b"
      "bmag b \<noteq> 0 \<Longrightarrow> bi_sign r = bi_sign b" "GetLength r \<le> n"
    by (rule RightTruncate_correct [of b])
      (use inv(1) ne le in \<open>auto simp: GetLength_def\<close>)
  moreover have "\<not> bi_sign r" using r inv(2) by (auto simp: wf_bigint_def)
  ultimately show thesis using that [of r] mag by simp
qed

section \<open>Digit loops\<close>

text \<open>Moving the bits of one digit: what leaves at the top enters the next digit.\<close>

lemma B_pow: "b \<le> 32 \<Longrightarrow> B = 2 ^ b * 2 ^ (32 - b)"
  by (simp flip: power_add)

lemma split_shifted: "(v * p) mod (p * q) + p * q * (v div q) = (v :: nat) * p"
proof -
  have "p * (v mod q) + p * (q * (v div q)) = p * v" by (simp flip: distrib_left)
  then show ?thesis by (simp add: mult.commute [of v p] mult.assoc)
qed

lemma shl_digit:
  assumes "b \<le> 32" and "unat c < 2 ^ b"
  shows "unat (push_bit b v OR c) + B * unat (drop_bit (32 - b) (v :: u32)) = unat v * 2 ^ b + unat c"
  using split_shifted [of "unat v" "2 ^ b" "2 ^ (32 - b)", folded B_pow [OF assms(1)]]
  unfolding unat_shl_or [OF assms] unat_u32_drop_bit by linarith

lemma drop_bit_u32_lt: "b \<le> 32 \<Longrightarrow> unat (drop_bit (32 - b) (v :: u32)) < 2 ^ b"
  using unat_u32_lt [of v] B_pow [of b]
  by (simp add: unat_u32_drop_bit div_less_iff_less_mult mult.commute)

lemma left_shift_loop:
  assumes b: "b < 32" and n: "digitMove + GetLength x \<le> n"
  shows "case for_up 0 (GetLength x) (left_shift_step x digitMove b) (NewBigInt n, 0) of (r, c) \<Rightarrow>
    length (bi_digits r) = n \<and> unat c < 2 ^ b \<and>
    drop (GetLength x + digitMove) (bi_digits r) = replicate (n - (GetLength x + digitMove)) 0 \<and>
    bval (take (GetLength x + digitMove) (bi_digits r)) + B ^ (GetLength x + digitMove) * unat c =
      B ^ digitMove * 2 ^ b * bmag x"
proof -
  let ?I = "\<lambda>i (r :: BigInt, c :: u32). length (bi_digits r) = n \<and> unat c < 2 ^ b \<and>
    drop (i + digitMove) (bi_digits r) = replicate (n - (i + digitMove)) 0 \<and>
    bval (take (i + digitMove) (bi_digits r)) + B ^ (i + digitMove) * unat c =
      B ^ digitMove * 2 ^ b * bval (take i (bi_digits x))"
  have "?I (GetLength x) (for_up 0 (GetLength x) (left_shift_step x digitMove b) (NewBigInt n, 0))"
  proof (rule for_up_inv [where I = ?I])
    show "?I 0 (NewBigInt n, 0)" using n by (simp add: min_def)
  next
    fix i s
    assume i: "i < GetLength x" and inv: "?I i s"
    obtain r c where s: "s = (r, c)" by (cases s)
    let ?d = "push_bit b (GetDigit x i) OR c" and ?c = "drop_bit (32 - b) (GetDigit x i)"
    have I: "length (bi_digits r) = n" "unat c < 2 ^ b"
      "drop (i + digitMove) (bi_digits r) = replicate (n - (i + digitMove)) 0"
      "bval (take (i + digitMove) (bi_digits r)) + B ^ (i + digitMove) * unat c =
        B ^ digitMove * 2 ^ b * bval (take i (bi_digits x))"
      using inv by (auto simp: s)
    have step: "left_shift_step x digitMove b i s = (SetDigit r (i + digitMove) ?d, ?c)"
      by (simp add: left_shift_step_def s DATA_BITS_def Let_def)
    have pos: "i + digitMove < length (bi_digits r)" using i n I(1) by simp
    have "unat ?d + B * unat ?c = unat (GetDigit x i) * 2 ^ b + unat c"
      using b I(2) by (intro shl_digit) auto
    from bval_carry_step [OF pos this I(4)]
    have "bval (take (Suc (i + digitMove)) ((bi_digits r)[i + digitMove := ?d])) +
        B ^ Suc (i + digitMove) * unat ?c =
        B ^ digitMove * 2 ^ b * bval (take (Suc i) (bi_digits x))"
      using i by (simp add: bval_take_Suc GetLength_def GetDigit_def power_add algebra_simps)
    moreover have "unat ?c < 2 ^ b" using b by (intro drop_bit_u32_lt) simp
    ultimately show "?I (Suc i) (left_shift_step x digitMove b i s)"
      unfolding step using I drop_Suc_replicate [OF I(3)] by simp
  qed simp
  then show ?thesis by (simp add: bmag_def GetLength_def split: prod.splits)
qed

lemma bval_drop: "bval (drop k xs) = bval xs div B ^ k"
proof (cases "k \<le> length xs")
  case True
  then have "bval (take k xs) < B ^ k" using bval_lt [of "take k xs"] by (simp add: min.absorb2)
  then show ?thesis using bval_take_drop [of xs k] True by (simp add: min.absorb1)
next
  case False
  then have "bval xs < B ^ k"
    by (intro less_le_trans [OF bval_lt] power_increasing) auto
  with False show ?thesis by simp
qed

lemma right_shift_loop:
  assumes b: "0 < b" "b < 32" and dm: "digitMove < GetLength x"
    and n: "GetLength x - digitMove \<le> length (bi_digits r0)"
    and m: "m < GetLength x - digitMove"
  shows "case for_up 0 m (right_shift_step x digitMove b) (r0, drop_bit b (GetDigit x digitMove)) of (r, c) \<Rightarrow>
    length (bi_digits r) = length (bi_digits r0) \<and> bi_sign r = bi_sign r0 \<and>
    drop m (bi_digits r) = drop m (bi_digits r0) \<and> c = drop_bit b (GetDigit x (m + digitMove)) \<and>
    bval (take m (bi_digits r)) + B ^ m * unat c =
      bval (take (Suc m) (drop digitMove (bi_digits x))) div 2 ^ b"
proof -
  let ?xs = "drop digitMove (bi_digits x)"
  let ?I = "\<lambda>i (r :: BigInt, c :: u32). length (bi_digits r) = length (bi_digits r0) \<and>
    bi_sign r = bi_sign r0 \<and> drop i (bi_digits r) = drop i (bi_digits r0) \<and>
    c = drop_bit b (GetDigit x (i + digitMove)) \<and>
    bval (take i (bi_digits r)) + B ^ i * unat c = bval (take (Suc i) ?xs) div 2 ^ b"
  have nth: "?xs ! i = GetDigit x (i + digitMove)" if "i + digitMove < GetLength x" for i
    using that by (simp add: GetDigit_def GetLength_def add.commute)
  have "?I m (for_up 0 m (right_shift_step x digitMove b) (r0, drop_bit b (GetDigit x digitMove)))"
  proof (rule for_up_inv [where I = ?I])
    have "take (Suc 0) ?xs = [GetDigit x digitMove]"
      using dm by (simp add: take_Suc_conv_app_nth GetDigit_def GetLength_def)
    then show "?I 0 (r0, drop_bit b (GetDigit x digitMove))" by (simp add: unat_u32_drop_bit)
  next
    fix i s
    assume i: "i < m" and inv: "?I i s"
    obtain r c where s: "s = (r, c)" by (cases s)
    let ?v = "GetDigit x (i + digitMove + 1)"
    let ?d = "push_bit (32 - b) ?v OR c" and ?c = "drop_bit b ?v"
    have I: "length (bi_digits r) = length (bi_digits r0)" "bi_sign r = bi_sign r0"
      "drop i (bi_digits r) = drop i (bi_digits r0)" "c = drop_bit b (GetDigit x (i + digitMove))"
      "bval (take i (bi_digits r)) + B ^ i * unat c = bval (take (Suc i) ?xs) div 2 ^ b"
      using inv by (auto simp: s)
    have step: "right_shift_step x digitMove b i s = (SetDigit r i ?d, ?c)"
      by (simp add: right_shift_step_def s DATA_BITS_def Let_def)
    have pos: "i < length (bi_digits r)" using i m n I(1) by linarith
    have c: "unat c < 2 ^ (32 - b)"
      using drop_bit_u32_lt [of "32 - b" "GetDigit x (i + digitMove)"] b I(4) by simp
    have "unat ?d + B * unat ?c = unat ?v * 2 ^ (32 - b) + unat c"
      using shl_digit [OF _ c, of ?v] b by simp
    from bval_carry_step [OF pos this I(5)]
    have "bval (take (Suc i) ((bi_digits r)[i := ?d])) + B ^ Suc i * unat ?c =
        bval (take (Suc i) ?xs) div 2 ^ b + B ^ i * (unat ?v * 2 ^ (32 - b))" .
    also have "\<dots> = (bval (take (Suc i) ?xs) + 2 ^ b * (B ^ i * (unat ?v * 2 ^ (32 - b)))) div 2 ^ b"
      by simp
    also have "2 ^ b * (B ^ i * (unat ?v * 2 ^ (32 - b))) = B ^ Suc i * unat ?v"
      using B_pow [of b] b by simp
    also have "bval (take (Suc i) ?xs) + B ^ Suc i * unat ?v = bval (take (Suc (Suc i)) ?xs)"
      using i m nth [of "Suc i"] by (simp add: bval_take_Suc [of "Suc i"] GetLength_def)
    finally show "?I (Suc i) (right_shift_step x digitMove b i s)"
      unfolding step using I(1,2) drop_eq_Suc [OF I(3)] by simp
  qed simp
  then show ?thesis by simp
qed

lemma copy_down_loop:
  assumes "dm \<le> GetLength x" and "GetLength x - dm \<le> length (bi_digits r0)"
  defines "r \<equiv> for_up dm (GetLength x) (\<lambda>i r. SetDigit r (i - dm) (GetDigit x i)) r0"
  shows "length (bi_digits r) = length (bi_digits r0)" "bi_sign r = bi_sign r0"
    "take (GetLength x - dm) (bi_digits r) = drop dm (bi_digits x)"
    "drop (GetLength x - dm) (bi_digits r) = drop (GetLength x - dm) (bi_digits r0)"
proof -
  let ?I = "\<lambda>i (r :: BigInt). length (bi_digits r) = length (bi_digits r0) \<and> bi_sign r = bi_sign r0 \<and>
    take (i - dm) (bi_digits r) = take (i - dm) (drop dm (bi_digits x)) \<and>
    drop (i - dm) (bi_digits r) = drop (i - dm) (bi_digits r0)"
  have "?I (GetLength x) r" unfolding r_def
  proof (rule for_up_inv [where I = ?I, OF assms(1)])
    fix i r
    assume i: "dm \<le> i" "i < GetLength x" and I: "?I i r"
    have lt: "i - dm < length (bi_digits r)" using i assms(2) I by linarith
    have "take (Suc (i - dm)) (drop dm (bi_digits x)) = take (i - dm) (drop dm (bi_digits x)) @ [GetDigit x i]"
      using i by (simp add: take_Suc_conv_app_nth GetLength_def GetDigit_def)
    with i I lt drop_eq_Suc [of "i - dm" "bi_digits r" "bi_digits r0"]
    show "?I (Suc i) (SetDigit r (i - dm) (GetDigit x i))"
      by (simp add: Suc_diff_le)
  qed simp
  then show "length (bi_digits r) = length (bi_digits r0)" "bi_sign r = bi_sign r0"
    "take (GetLength x - dm) (bi_digits r) = drop dm (bi_digits x)"
    "drop (GetLength x - dm) (bi_digits r) = drop (GetLength x - dm) (bi_digits r0)"
    by (simp_all add: GetLength_def)
qed

lemma RightShift_spec:
  assumes dm: "dm < GetLength x" and b: "b < 32"
    and n: "GetLength x - dm \<le> length (bi_digits r0)"
  shows "length (bi_digits (RightShift r0 x dm b)) = length (bi_digits r0)"
    "bi_sign (RightShift r0 x dm b) = bi_sign r0"
    "bval (take (GetLength x - dm) (bi_digits (RightShift r0 x dm b))) = bmag x div (B ^ dm * 2 ^ b)"
    "drop (GetLength x - dm) (bi_digits (RightShift r0 x dm b)) = drop (GetLength x - dm) (bi_digits r0)"
proof -
  have "length (bi_digits (RightShift r0 x dm b)) = length (bi_digits r0) \<and>
    bi_sign (RightShift r0 x dm b) = bi_sign r0 \<and>
    bval (take (GetLength x - dm) (bi_digits (RightShift r0 x dm b))) = bmag x div (B ^ dm * 2 ^ b) \<and>
    drop (GetLength x - dm) (bi_digits (RightShift r0 x dm b)) = drop (GetLength x - dm) (bi_digits r0)"
  proof (cases "b = 0")
    case True
    then have eq: "RightShift r0 x dm b = for_up dm (GetLength x) (\<lambda>i r. SetDigit r (i - dm) (GetDigit x i)) r0"
      by (simp add: RightShift_def)
    show ?thesis
      unfolding eq using copy_down_loop [OF less_imp_le [OF dm] n] True
      by (simp add: bval_drop bmag_def)
  next
    case False
    let ?m = "GetLength x - dm - 1"
    obtain r c where loop: "for_up 0 ?m (right_shift_step x dm b) (r0, drop_bit b (GetDigit x dm)) = (r, c)"
      by fastforce
    have m: "?m < GetLength x - dm" "Suc ?m = GetLength x - dm" using dm by simp_all
    have I: "length (bi_digits r) = length (bi_digits r0)" "bi_sign r = bi_sign r0"
      "drop ?m (bi_digits r) = drop ?m (bi_digits r0)"
      "bval (take ?m (bi_digits r)) + B ^ ?m * unat c = bval (take (Suc ?m) (drop dm (bi_digits x))) div 2 ^ b"
      using right_shift_loop [OF _ b dm n m(1)] False unfolding loop by auto
    have eq: "RightShift r0 x dm b = SetDigit r ?m c"
      using False loop by (simp add: RightShift_def Let_def)
    have "bval (take (Suc ?m) ((bi_digits r)[?m := c])) = bval (drop dm (bi_digits x)) div 2 ^ b"
    proof -
      have "?m < length (bi_digits r)" using m n I(1) by linarith
      moreover have "take (Suc ?m) (drop dm (bi_digits x)) = drop dm (bi_digits x)"
        using m by (simp add: GetLength_def)
      ultimately show ?thesis
        using bval_take_update [of ?m "bi_digits r" c] I(4) by (simp only:)
    qed
    then have "bval (take (GetLength x - dm) ((bi_digits r)[?m := c])) = bval (drop dm (bi_digits x)) div 2 ^ b"
      unfolding m(2) .
    then show ?thesis
      unfolding eq using I(1,2) drop_eq_Suc [OF I(3)] m
      by (simp add: bval_drop bmag_def div_mult2_eq)
  qed
  then show "length (bi_digits (RightShift r0 x dm b)) = length (bi_digits r0)"
    "bi_sign (RightShift r0 x dm b) = bi_sign r0"
    "bval (take (GetLength x - dm) (bi_digits (RightShift r0 x dm b))) = bmag x div (B ^ dm * 2 ^ b)"
    "drop (GetLength x - dm) (bi_digits (RightShift r0 x dm b)) = drop (GetLength x - dm) (bi_digits r0)"
    by auto
qed

lemma RightShift_fresh:
  assumes "dm < GetLength x" and "b < 32" and "GetLength x - dm \<le> n"
  shows "bmag (RightShift (NewBigInt n) x dm b) = bmag x div (B ^ dm * 2 ^ b)"
    "length (bi_digits (RightShift (NewBigInt n) x dm b)) = n"
    "\<not> bi_sign (RightShift (NewBigInt n) x dm b)"
  using RightShift_spec [OF assms(1,2), of "NewBigInt n"] assms(3)
    bval_take_drop [of "bi_digits (RightShift (NewBigInt n) x dm b)" "GetLength x - dm"]
  by (simp_all add: bmag_def)

section \<open>Rounding\<close>

lemma stamp_eq_mask: "b < 32 \<Longrightarrow> (push_bit b 1 - 1 :: u32) = mask b"
  by (simp add: mask_eq_exp_minus_1)

lemma and_stamp_eq_0_iff:
  assumes "b < 32"
  shows "(d :: u32) AND (push_bit b 1 - 1) = 0 \<longleftrightarrow> unat d mod 2 ^ b = 0"
proof -
  have "unat (d AND mask b) = take_bit b (unat d)"
    unfolding take_bit_eq_mask [symmetric] by (rule unsigned_take_bit_eq)
  then have "unat (d AND mask b) = unat d mod 2 ^ b" by (simp only: take_bit_eq_mod)
  then show ?thesis
    unfolding stamp_eq_mask [OF assms] by (metis unat_eq_zero)
qed

lemma low_digits_loop:
  "for_up 0 n (\<lambda>i roundDown. if GetDigit x i \<noteq> 0 then True else roundDown) False \<longleftrightarrow>
     (\<exists>i < n. GetDigit x i \<noteq> 0)"
  by (induction n) (auto simp: for_up_Suc less_Suc_eq)

lemma dropped_bits:
  assumes "dm < GetLength x" and b: "b < 32"
  shows "bmag x mod (B ^ dm * 2 ^ b) = bval (take dm (bi_digits x)) + B ^ dm * (unat (GetDigit x dm) mod 2 ^ b)"
proof -
  let ?xs = "bi_digits x"
  have "bval (drop dm ?xs) = unat (GetDigit x dm) + B * bval (drop (Suc dm) ?xs)"
    using assms(1) by (simp add: GetLength_def GetDigit_def flip: Cons_nth_drop_Suc)
  also have "\<dots> mod 2 ^ b = unat (GetDigit x dm) mod 2 ^ b"
    unfolding B_pow [OF less_imp_le [OF b]] mult.assoc by (rule mod_mult_self2)
  finally have low: "bval (drop dm ?xs) mod 2 ^ b = unat (GetDigit x dm) mod 2 ^ b" .
  have lt: "bval (take dm ?xs) < B ^ dm"
    using bval_lt [of "take dm ?xs"] assms(1) by (simp add: GetLength_def)
  have "bmag x = bval (take dm ?xs) + B ^ dm * bval (drop dm ?xs)"
    using bval_take_drop [of ?xs dm] assms(1) by (simp add: bmag_def GetLength_def)
  then have "bmag x mod (B ^ dm * 2 ^ b) = B ^ dm * (bval (drop dm ?xs) mod 2 ^ b) + bval (take dm ?xs)"
    using lt by (simp add: mod_mult2_eq)
  with low show ?thesis by simp
qed

lemma JudgeRoundDown_spec:
  assumes "dm < GetLength x" and "b < 32"
    and "JudgeRoundDown x dm b n = (needLen, roundDown)"
  shows "roundDown \<longleftrightarrow> bmag x mod (B ^ dm * 2 ^ b) \<noteq> 0"
    and "n \<le> needLen" and "needLen \<le> n + 1" and "needLen \<noteq> n \<Longrightarrow> 0 < dm"
proof -
  have rd: "roundDown \<longleftrightarrow> unat (GetDigit x dm) mod 2 ^ b \<noteq> 0 \<or> (\<exists>i < dm. GetDigit x i \<noteq> 0)"
    using assms(3) and_stamp_eq_0_iff [OF assms(2), of "GetDigit x dm"]
    by (auto simp: JudgeRoundDown_def Let_def low_digits_loop split: if_splits)
  have "(\<exists>i < dm. GetDigit x i \<noteq> 0) \<longleftrightarrow> bval (take dm (bi_digits x)) \<noteq> 0"
    using assms(1) by (auto simp: bval_eq_0_iff GetDigit_def GetLength_def all_set_conv_all_nth)
  then show "roundDown \<longleftrightarrow> bmag x mod (B ^ dm * 2 ^ b) \<noteq> 0"
    using rd by (auto simp: dropped_bits [OF assms(1,2)])
  show "n \<le> needLen" "needLen \<le> n + 1"
    using assms(3) by (auto simp: JudgeRoundDown_def Let_def split: if_splits)
  show "0 < dm" if "needLen \<noteq> n"
  proof -
    have "roundDown" "b = 0"
      using that assms(3) by (auto simp: JudgeRoundDown_def Let_def split: if_splits)
    with rd show ?thesis by auto
  qed
qed

section \<open>Right shift is floor division\<close>

lemma B_eq_pow: "B = 2 ^ DATA_BITS"
  by (simp add: DATA_BITS_def)

lemma bmag_lt_max: "wf_bigint x \<Longrightarrow> bmag x < 2 ^ MAXBITS"
proof -
  assume wf: "wf_bigint x"
  have "DATA_BITS * GetLength x \<le> MAXBITS"
    using wf_bigintD(4) [OF wf] by (simp add: MAXSIZE_def DATA_BITS_def MAXBITS_def)
  then have "B ^ GetLength x \<le> 2 ^ MAXBITS"
    unfolding B_eq_pow power_mult [symmetric] by (rule power_increasing) simp
  moreover have "bmag x < B ^ GetLength x" using bval_lt by (simp add: bmag_def GetLength_def)
  ultimately show ?thesis by (rule less_le_trans [rotated])
qed

lemma move_split: "B ^ (k div DATA_BITS) * 2 ^ (k mod DATA_BITS) = 2 ^ k"
  by (simp only: B_eq_pow power_mult [symmetric] power_add [symmetric] mult_div_mod_eq)

lemma floor_shift_neg:
  "0 < p \<Longrightarrow> (- int m) div int p = - int (m div p) - (if m mod p = 0 then 0 else 1)"
  using zdiv_zminus1_eq_if [of "int p" "int m", folded zdiv_int zmod_int] by simp

lemma ReturnIfRightShiftOverMax_correct:
  assumes "wf_bigint x" and "bmag x < 2 ^ k"
  obtains r where "ReturnIfRightShiftOverMax (bi_sign x) = Inr r" "wf_bigint r"
    "bint r = bint x div 2 ^ k"
proof (cases "bi_sign x")
  case True
  then have "bmag x \<noteq> 0" using assms(1) by (auto simp: wf_bigint_def)
  then have "bint x div 2 ^ k = - 1"
    using True assms(2) floor_shift_neg [of "2 ^ k" "bmag x"] by (simp add: bint_def)
  moreover have "ReturnIfRightShiftOverMax True = Inr \<lparr>bi_sign = True, bi_digits = [1]\<rparr>"
    by (simp add: ReturnIfRightShiftOverMax_def Int32ToBigInt_eq word_sless_alt)
  ultimately show thesis
    using True that [of "\<lparr>bi_sign = True, bi_digits = [1]\<rparr>"]
    by (simp add: wf_bigint_def wf_digits_def MAXSIZE_eq bint_def bmag_def)
next
  case False
  then have "bint x div 2 ^ k = 0"
    using assms(2) by (simp add: bint_def div_pos_pos_trivial flip: of_nat_power)
  moreover have "ReturnIfRightShiftOverMax False = Inr \<lparr>bi_sign = False, bi_digits = [0]\<rparr>"
    by (simp add: ReturnIfRightShiftOverMax_def Int32ToBigInt_eq word_sless_alt)
  ultimately show thesis
    using False that [of "\<lparr>bi_sign = False, bi_digits = [0]\<rparr>"]
    by (simp add: wf_bigint_def wf_digits_def MAXSIZE_eq bint_def bmag_def)
qed

lemma bval_all_ones: "\<forall>d \<in> set xs. d = - 1 \<Longrightarrow> bval xs + 1 = B ^ length xs"
proof (induction xs)
  case Nil
  then show ?case by simp
next
  case (Cons d ds)
  then have "B * (bval ds + 1) = B * B ^ length ds" by (intro arg_cong [where f = "(*) B"]) simp
  with Cons.prems show ?case by simp
qed

lemma all_ones_half:
  assumes "all_ones r" and "bmag r \<le> bmag x div 2" and "GetLength x \<le> n" "bi_digits r \<noteq> []"
  shows "GetLength r < n"
proof (rule ccontr)
  assume "\<not> GetLength r < n"
  then have "B ^ GetLength x \<le> B ^ GetLength r" using assms(3) by (intro power_increasing) auto
  moreover have "bmag r + 1 = B ^ GetLength r"
    using assms(1) bval_all_ones [of "bi_digits r"] by (simp add: all_ones_def bmag_def GetLength_def)
  moreover have "bmag x < B ^ GetLength x" using bval_lt by (simp add: bmag_def GetLength_def)
  moreover have "2 * bmag r \<le> bmag x" using assms(2) by linarith
  moreover have "0 < bmag r"
  proof -
    have "B ^ 1 \<le> B ^ GetLength r"
      using assms(4) by (intro power_increasing) (auto simp: GetLength_def Suc_le_eq)
    with \<open>bmag r + 1 = B ^ GetLength r\<close> show ?thesis by simp
  qed
  ultimately show False by linarith
qed

lemma RightShiftHelper_over:
  assumes "GetLength y > 1 \<or> unat (GetDigit y 0) > MAXBITS \<or>
    GetLength x \<le> unat (GetDigit y 0) div DATA_BITS"
  shows "RightShiftHelper x y = ReturnIfRightShiftOverMax (bi_sign x)"
  using assms by (auto simp: RightShiftHelper_def Let_def)

lemma single_digit_mag: "GetLength y = 1 \<Longrightarrow> bmag y = unat (GetDigit y 0)"
  by (cases "bi_digits y") (auto simp: GetLength_def GetDigit_def bmag_def)

lemma two_digits_mag:
  assumes "wf_bigint y" "GetLength y > 1"
  shows "B \<le> bmag y"
proof -
  have "B ^ (GetLength y - 1) \<le> bmag y"
    using assms bval_ge_last [of "bi_digits y"] wf_bigintD(1,2) [OF assms(1)]
    by (auto simp: wf_digits_def bmag_def GetLength_def)
  moreover have "B ^ 1 \<le> B ^ (GetLength y - 1)"
    using assms(2) by (intro power_increasing) auto
  ultimately show ?thesis by simp
qed

lemma shift_over_max:
  assumes wf: "wf_bigint x" "wf_bigint y"
    and over: "GetLength y > 1 \<or> unat (GetDigit y 0) > MAXBITS \<or>
      GetLength x \<le> unat (GetDigit y 0) div DATA_BITS"
  shows "bmag x < 2 ^ bmag y"
proof (cases "GetLength y > 1 \<or> unat (GetDigit y 0) > MAXBITS")
  case True
  have "MAXBITS \<le> bmag y"
  proof (cases "GetLength y > 1")
    case True
    have "MAXBITS \<le> B" by (simp add: MAXBITS_def)
    then show ?thesis using two_digits_mag [OF wf(2) True] by (rule le_trans)
  next
    case False
    then have "GetLength y = 1" using wf_bigintD(3) [OF wf(2)] by linarith
    with True False single_digit_mag show ?thesis by auto
  qed
  then show ?thesis
    by (intro less_le_trans [OF bmag_lt_max [OF wf(1)]] power_increasing) auto
next
  case False
  let ?k = "unat (GetDigit y 0)"
  from False over have le: "GetLength x \<le> ?k div DATA_BITS" by simp
  have y: "bmag y = ?k"
    using False wf_bigintD(3) [OF wf(2)] by (intro single_digit_mag) linarith
  have "bmag x < B ^ GetLength x" by (simp add: bval_lt bmag_def GetLength_def)
  also have "\<dots> \<le> B ^ (?k div DATA_BITS)" using le by (intro power_increasing) auto
  also have "\<dots> * 1 \<le> B ^ (?k div DATA_BITS) * 2 ^ (?k mod DATA_BITS)" by (intro mult_le_mono2) simp
  finally show ?thesis unfolding move_split y by simp
qed

lemma RightShiftHelper_nonneg:
  assumes wf: "wf_bigint x" and dm: "k div DATA_BITS < GetLength x" and pos: "\<not> bi_sign x"
  obtains r where "RightTruncate (RightShift (NewBigInt (GetLength x - k div DATA_BITS)) x
      (k div DATA_BITS) (k mod DATA_BITS)) = Inr r" "wf_bigint r" "bint r = bint x div 2 ^ k"
proof -
  let ?dm = "k div DATA_BITS" and ?b = "k mod DATA_BITS"
  let ?r = "RightShift (NewBigInt (GetLength x - ?dm)) x ?dm ?b"
  have b: "?b < 32" by (simp add: DATA_BITS_def)
  note R = RightShift_fresh [OF dm b order_refl, unfolded move_split]
  have "bint ?r = bint x div 2 ^ k"
    using R(1,3) pos by (simp add: bint_def zdiv_int)
  moreover obtain r where "RightTruncate ?r = Inr r" "wf_bigint r" "bint r = bint ?r"
    by (rule RightTruncate_correct [of ?r])
      (use R(2) dm wf_bigintD(4) [OF wf] in \<open>auto simp: GetLength_def\<close>)
  ultimately show thesis using that by simp
qed

lemma RightShiftHelper_neg:
  assumes wf: "wf_bigint x" and dm: "k div DATA_BITS < GetLength x" and neg: "bi_sign x"
    and J: "JudgeRoundDown x (k div DATA_BITS) (k mod DATA_BITS) (GetLength x - k div DATA_BITS) =
      (needLen, roundDown)"
  obtains t r where "needLen \<le> MAXSIZE" "RightTruncate (RightShift (NewBigInt needLen) x
      (k div DATA_BITS) (k mod DATA_BITS)) = Inr t"
    "(if roundDown then BitwiseAddOne (SetSign t True) else Inr (SetSign t True)) = Inr r"
    "wf_bigint r" "bint r = bint x div 2 ^ k"
proof -
  let ?dm = "k div DATA_BITS" and ?b = "k mod DATA_BITS"
  let ?r = "RightShift (NewBigInt needLen) x ?dm ?b"
  have b: "?b < 32" by (simp add: DATA_BITS_def)
  note J' = JudgeRoundDown_spec [OF dm b J, unfolded move_split]
  have max: "needLen \<le> MAXSIZE"
    using J'(3,4) dm wf_bigintD(4) [OF wf] by (cases "needLen = GetLength x - ?dm") linarith+
  note R = RightShift_fresh [OF dm b J'(2), unfolded move_split]
  have floor: "bint x div 2 ^ k = - int (bmag x div 2 ^ k) - (if roundDown then 1 else 0)"
    using floor_shift_neg [of "2 ^ k" "bmag x"] neg J'(1) by (simp add: bint_def)
  obtain t where t: "RightTruncate ?r = Inr t" "wf_bigint t" "bmag t = bmag x div 2 ^ k"
    by (rule RightTruncate_correct [of ?r])
      (use R(1,2) J'(2) dm max in \<open>auto simp: GetLength_def\<close>)
  show thesis
  proof (cases roundDown)
    case True
    then have "k \<noteq> 0" using J'(1) by (cases k) auto
    then have "(2 :: nat) ^ 1 \<le> 2 ^ k" by (intro power_increasing) auto
    then have "bmag x div 2 ^ k \<le> bmag x div 2" by (intro div_le_mono2) auto
    then have half: "bmag (SetSign t True) \<le> bmag x div 2" using t(3) by simp
    obtain r where r: "BitwiseAddOne (SetSign t True) = Inr r" "wf_bigint r" "bmag r = bmag t + 1" "bi_sign r"
      by (rule BitwiseAddOne_correct [of "SetSign t True"])
        (use t(2) wf_bigintD [OF t(2)] wf_bigintD [OF wf] all_ones_half [OF _ half]
          in \<open>auto simp: GetLength_def\<close>)
    then show thesis
      using that [of t r] True t max floor by (simp add: bint_def)
  next
    case False
    then have "bmag x mod 2 ^ k = 0" using J'(1) by simp
    moreover have "bmag x \<noteq> 0" using wf neg by (auto simp: wf_bigint_def)
    ultimately have "bmag t \<noteq> 0" using t(3) by (metis div_eq_0_iff mod_eq_0_iff_dvd mod_less power_eq_0_iff zero_neq_numeral)
    then show thesis
      using that [of t "SetSign t True"] False t max floor by (simp add: bint_def wf_bigint_def)
  qed
qed

lemma RightShiftHelper_correct:
  assumes wf: "wf_bigint x" "wf_bigint y"
  obtains r where "RightShiftHelper x y = Inr r" "wf_bigint r" "bint r = bint x div 2 ^ bmag y"
proof -
  let ?k = "unat (GetDigit y 0)"
  let ?over = "GetLength y > 1 \<or> ?k > MAXBITS \<or> GetLength x \<le> ?k div DATA_BITS"
  consider (over) ?over | (pos) "\<not> ?over" "\<not> bi_sign x" | (neg) "\<not> ?over" "bi_sign x" by blast
  then show thesis
  proof cases
    case over
    from RightShiftHelper_over [OF over] ReturnIfRightShiftOverMax_correct [OF wf(1) shift_over_max [OF wf over]]
    show thesis using that by auto
  next
    case pos
    then have y: "bmag y = ?k" using wf_bigintD(3) [OF wf(2)] by (intro single_digit_mag) linarith
    obtain r where "RightTruncate (RightShift (NewBigInt (GetLength x - ?k div DATA_BITS)) x
      (?k div DATA_BITS) (?k mod DATA_BITS)) = Inr r" "wf_bigint r" "bint r = bint x div 2 ^ ?k"
      by (rule RightShiftHelper_nonneg [OF wf(1), of ?k]) (use pos in auto)
    moreover have "GetLength x - ?k div DATA_BITS \<le> MAXSIZE" using wf_bigintD(4) [OF wf(1)] by simp
    ultimately show thesis
      using that [of r] pos y by (simp add: RightShiftHelper_def Let_def CreateBigint_Inr)
  next
    case neg
    then have y: "bmag y = ?k" using wf_bigintD(3) [OF wf(2)] by (intro single_digit_mag) linarith
    obtain n rd where J: "JudgeRoundDown x (?k div DATA_BITS) (?k mod DATA_BITS)
      (GetLength x - ?k div DATA_BITS) = (n, rd)" by fastforce
    obtain t r where "n \<le> MAXSIZE" "RightTruncate (RightShift (NewBigInt n) x
      (?k div DATA_BITS) (?k mod DATA_BITS)) = Inr t"
      "(if rd then BitwiseAddOne (SetSign t True) else Inr (SetSign t True)) = Inr r"
      "wf_bigint r" "bint r = bint x div 2 ^ ?k"
      by (rule RightShiftHelper_neg [OF wf(1) _ _ J]) (use neg in auto)
    then show thesis
      using that [of r] neg y J by (simp add: RightShiftHelper_def Let_def CreateBigint_Inr)
  qed
qed

section \<open>Left shift is multiplication\<close>

lemma copy_up_loop:
  assumes "n = dm + GetLength x"
  shows "bi_digits (for_up dm n (\<lambda>i r. SetDigit r i (GetDigit x (i - dm))) (NewBigInt n)) =
    replicate dm 0 @ bi_digits x"
proof -
  let ?f = "\<lambda>i r. SetDigit r i (GetDigit x (i - dm))"
  let ?I = "\<lambda>i (r :: BigInt). length (bi_digits r) = n \<and>
    take i (bi_digits r) = replicate dm 0 @ take (i - dm) (bi_digits x)"
  define r where "r = for_up dm n ?f (NewBigInt n)"
  have I: "?I n r" unfolding r_def
  proof (rule for_up_inv [where I = ?I])
    fix i r
    assume i: "dm \<le> i" "i < n" and I: "?I i r"
    have "take (Suc (i - dm)) (bi_digits x) = take (i - dm) (bi_digits x) @ [GetDigit x (i - dm)]"
      using i assms by (simp add: take_Suc_conv_app_nth GetLength_def GetDigit_def)
    with i I show "?I (Suc i) (?f i r)" by (simp add: Suc_diff_le)
  qed (use assms in \<open>simp_all add: min_def\<close>)
  moreover have "take (n - dm) (bi_digits x) = bi_digits x" using assms by (simp add: GetLength_def)
  ultimately have "bi_digits r = replicate dm 0 @ bi_digits x" by auto
  then show ?thesis unfolding r_def .
qed

definition left_shift_length :: "BigInt \<Rightarrow> nat \<Rightarrow> nat" where
  "left_shift_length x k = k div DATA_BITS + GetLength x + (if k mod DATA_BITS \<noteq> 0 then 1 else 0)"

lemma LeftShiftHelper_overflow:
  "\<not> IsZero x \<Longrightarrow> left_shift_length x (unat (GetDigit y 0)) > MAXSIZE \<Longrightarrow>
    LeftShiftHelper x y = Inl max_size_error"
  by (simp add: LeftShiftHelper_def left_shift_length_def Let_def CreateBigint_Inl)

definition left_shift_body :: "BigInt \<Rightarrow> nat \<Rightarrow> BigInt" where
  "left_shift_body x k =
     (let digitMove = k div DATA_BITS; bitsMove = k mod DATA_BITS; n = left_shift_length x k in
      if bitsMove = 0 then
        for_up digitMove n (\<lambda>index bigint. SetDigit bigint index (GetDigit x (index - digitMove))) (NewBigInt n)
      else
        let (bigint, carry) = for_up 0 (GetLength x) (left_shift_step x digitMove bitsMove) (NewBigInt n, 0)
        in if carry \<noteq> 0 then SetDigit bigint (GetLength x + digitMove) carry else bigint)"

lemma LeftShiftHelper_body:
  assumes "\<not> IsZero x" and "left_shift_length x (unat (GetDigit y 0)) \<le> MAXSIZE"
  shows "LeftShiftHelper x y =
    RightTruncate (SetSign (left_shift_body x (unat (GetDigit y 0))) (bi_sign x))"
  using assms
  by (simp add: LeftShiftHelper_def left_shift_body_def left_shift_length_def CreateBigint_Inr Let_def)

lemma left_shift_body_spec:
  shows "bmag (left_shift_body x k) = 2 ^ k * bmag x"
    "length (bi_digits (left_shift_body x k)) = left_shift_length x k"
proof -
  let ?dm = "k div DATA_BITS" and ?b = "k mod DATA_BITS" and ?n = "left_shift_length x k"
  have b: "?b < 32" by (simp add: DATA_BITS_def)
  have "bmag (left_shift_body x k) = B ^ ?dm * 2 ^ ?b * bmag x \<and>
    length (bi_digits (left_shift_body x k)) = ?n"
  proof (cases "?b = 0")
    case True
    then have n: "?n = ?dm + GetLength x" by (simp add: left_shift_length_def)
    have "bi_digits (left_shift_body x k) = replicate ?dm 0 @ bi_digits x"
      using copy_up_loop [OF n] True by (simp add: left_shift_body_def Let_def)
    with True n show ?thesis by (simp add: bmag_def bval_append GetLength_def)
  next
    case False
    then have n: "?n = Suc (GetLength x + ?dm)" by (simp add: left_shift_length_def)
    obtain r c where loop: "for_up 0 (GetLength x) (left_shift_step x ?dm ?b) (NewBigInt ?n, 0) = (r, c)"
      by fastforce
    let ?m = "GetLength x + ?dm"
    have I: "length (bi_digits r) = Suc ?m" "drop ?m (bi_digits r) = [0]"
      "bval (take ?m (bi_digits r)) + B ^ ?m * unat c = B ^ ?dm * 2 ^ ?b * bmag x"
      using left_shift_loop [OF b, of ?dm x ?n] n unfolding loop by simp_all
    let ?r = "if c \<noteq> 0 then SetDigit r ?m c else r"
    have "bval (bi_digits ?r) = bval (take ?m (bi_digits r)) + B ^ ?m * unat c"
      using I(1,2) bval_take_drop [of "bi_digits r" ?m] bval_take_update [of ?m "bi_digits r" c] by simp
    moreover have "left_shift_body x k = ?r"
      using False loop by (simp add: left_shift_body_def Let_def)
    ultimately show ?thesis using I n by (simp add: bmag_def)
  qed
  then show "bmag (left_shift_body x k) = 2 ^ k * bmag x"
    "length (bi_digits (left_shift_body x k)) = ?n"
    by (simp_all only: move_split)
qed

lemma LeftShiftHelper_correct:
  assumes wf: "wf_bigint x" and nz: "\<not> IsZero x"
    and fits: "left_shift_length x (unat (GetDigit y 0)) \<le> MAXSIZE"
  obtains r where "LeftShiftHelper x y = Inr r" "wf_bigint r"
    "bint r = bint x * 2 ^ unat (GetDigit y 0)"
proof -
  let ?k = "unat (GetDigit y 0)"
  let ?r = "SetSign (left_shift_body x ?k) (bi_sign x)"
  note L = left_shift_body_spec [of x ?k]
  have "0 < left_shift_length x ?k"
    using wf_bigintD(3) [OF wf] by (simp add: left_shift_length_def)
  then obtain r where "RightTruncate ?r = Inr r" "wf_bigint r" "bint r = bint ?r"
    by - (rule RightTruncate_correct [of ?r], use L(2) fits in \<open>auto simp: GetLength_def\<close>)
  moreover have "bint ?r = bint x * 2 ^ ?k" using L(1) by (simp add: bint_def)
  ultimately show thesis using that LeftShiftHelper_body [OF nz fits] by simp
qed

end
