(* ===== verification/BigInt_Bitwise.thy ===== *)
theory BigInt_Bitwise
  imports BigInt_Shift
begin

text \<open>
  Bitwise operations of \<open>BigInt\<close> (js_bigint.cpp). The code works on sign and
  magnitude and rewrites negative operands with \<open>-x = ~(x - 1)\<close>; the lemmas show that
  the result is the two's complement operation on the integers.
\<close>

section \<open>Operations\<close>

datatype Operate = OpAND | OpOR | OpXOR

definition BitwiseOp :: "Operate \<Rightarrow> BigInt \<Rightarrow> BigInt \<Rightarrow> BigInt result" where
  "BitwiseOp op x y =
     (let xlen = GetLength x; ylen = GetLength y;
          (maxLen, minLen) = (if xlen > ylen then (xlen, ylen) else (ylen, xlen))
      in bindE (CreateBigint maxLen) (\<lambda>bigint.
        let bigint = for_up 0 minLen
              (\<lambda>i bigint.
                 if op = OpOR then SetDigit bigint i (GetDigit x i OR GetDigit y i)
                 else if op = OpAND then SetDigit bigint i (GetDigit x i AND GetDigit y i)
                 else SetDigit bigint i (GetDigit x i XOR GetDigit y i)) bigint;
            bigint =
              (if op = OpOR \<or> op = OpXOR then
                 (if xlen > ylen then
                    for_up ylen xlen (\<lambda>i bigint. SetDigit bigint i (GetDigit x i)) bigint
                  else if ylen > xlen then
                    for_up xlen ylen (\<lambda>i bigint. SetDigit bigint i (GetDigit y i)) bigint
                  else bigint)
               else bigint)
        in RightTruncate bigint))"

definition OneIsNegativeAND :: "BigInt \<Rightarrow> BigInt \<Rightarrow> BigInt result" where
  "OneIsNegativeAND x y =
     bindE (BitwiseSubOne y (GetLength y)) (\<lambda>yVal.
       let xLength = GetLength x; yLength = GetLength yVal;
           minLen = (if xLength > yLength then yLength else xLength)
       in bindE (CreateBigint xLength) (\<lambda>newBigint.
         let newBigint = for_up 0 minLen
               (\<lambda>i newBigint. SetDigit newBigint i (GetDigit x i AND NOT (GetDigit yVal i))) newBigint;
             newBigint = for_up minLen xLength
               (\<lambda>i newBigint. SetDigit newBigint i (GetDigit x i)) newBigint
         in RightTruncate newBigint))"

definition BitwiseAND :: "BigInt \<Rightarrow> BigInt \<Rightarrow> BigInt result" where
  "BitwiseAND x y =
     (if bi_sign x \<and> bi_sign y then
        bindE (BitwiseSubOne x (GetLength x)) (\<lambda>xVal.
        bindE (BitwiseSubOne y (GetLength y)) (\<lambda>yVal.
        bindE (BitwiseOp OpOR xVal yVal) (\<lambda>temp.
        BitwiseAddOne temp)))
      else if bi_sign x \<noteq> bi_sign y then
        (if \<not> bi_sign x then OneIsNegativeAND x y else OneIsNegativeAND y x)
      else BitwiseOp OpAND x y)"

definition OneIsNegativeXOR :: "BigInt \<Rightarrow> BigInt \<Rightarrow> BigInt result" where
  "OneIsNegativeXOR x y =
     bindE (BitwiseSubOne y (GetLength y)) (\<lambda>yVal.
     bindE (BitwiseOp OpXOR x yVal) (\<lambda>temp.
     BitwiseAddOne temp))"

definition BitwiseXOR :: "BigInt \<Rightarrow> BigInt \<Rightarrow> BigInt result" where
  "BitwiseXOR x y =
     (if bi_sign x \<and> bi_sign y then
        bindE (BitwiseSubOne x (GetLength x)) (\<lambda>xVal.
        bindE (BitwiseSubOne y (GetLength y)) (\<lambda>yVal.
        BitwiseOp OpXOR xVal yVal))
      else if bi_sign x \<noteq> bi_sign y then
        (if \<not> bi_sign x then OneIsNegativeXOR x y else OneIsNegativeXOR y x)
      else BitwiseOp OpXOR x y)"

definition OneIsNegativeOR :: "BigInt \<Rightarrow> BigInt \<Rightarrow> BigInt result" where
  "OneIsNegativeOR x y =
     (let xLength = GetLength x;
          maxLen = (if xLength < GetLength y then GetLength y else xLength)
      in bindE (BitwiseSubOne y maxLen) (\<lambda>yVal.
        let yLength = GetLength yVal;
            minLen = (if xLength > yLength then yLength else xLength)
        in bindE (CreateBigint yLength) (\<lambda>newBigint.
          let newBigint = for_up 0 minLen
                (\<lambda>i newBigint. SetDigit newBigint i (NOT (GetDigit x i) AND GetDigit yVal i)) newBigint;
              newBigint = for_up minLen yLength
                (\<lambda>i newBigint. SetDigit newBigint i (GetDigit yVal i)) newBigint
          in bindE (RightTruncate newBigint) (\<lambda>temp.
             bindE (BitwiseAddOne temp) (\<lambda>res. Inr (SetSign res True))))))"

definition BitwiseOR :: "BigInt \<Rightarrow> BigInt \<Rightarrow> BigInt result" where
  "BitwiseOR x y =
     (if bi_sign x \<and> bi_sign y then
        let yLen = GetLength y;
            maxLen = (if GetLength x < yLen then yLen else GetLength x)
        in bindE (BitwiseSubOne x maxLen) (\<lambda>xVal.
           bindE (BitwiseSubOne y yLen) (\<lambda>yVal.
           bindE (BitwiseOp OpAND xVal yVal) (\<lambda>temp.
           bindE (BitwiseAddOne temp) (\<lambda>res.
           Inr (SetSign res True)))))
      else if bi_sign x \<noteq> bi_sign y then
        (if \<not> bi_sign x then OneIsNegativeOR x y else OneIsNegativeOR y x)
      else BitwiseOp OpOR x y)"

section \<open>Bits of a digit list\<close>

definition dig :: "u32 list \<Rightarrow> nat \<Rightarrow> u32" where
  "dig xs i = (if i < length xs then xs ! i else 0)"

lemma bval_Cons_bits: "bval (d # ds) = unat d OR push_bit 32 (bval ds)"
proof -
  have "unat d AND push_bit 32 (bval ds) = 0"
    by (rule bit_eqI) (auto simp: bit_and_iff bit_push_bit_iff bit_unsigned_iff
        dest: bit_imp_le_length)
  then have "unat d + push_bit 32 (bval ds) = unat d OR push_bit 32 (bval ds)"
    by (rule disjunctive_add_eq_or)
  then show ?thesis by (simp add: push_bit_eq_mult mult.commute)
qed

lemma bit_bval: "bit (bval xs) n \<longleftrightarrow> bit (dig xs (n div 32)) (n mod 32)"
proof (induction xs arbitrary: n)
  case Nil
  then show ?case by (simp add: dig_def)
next
  case (Cons d ds)
  show ?case
  proof (cases "n < 32")
    case True
    then show ?thesis
      unfolding bval_Cons_bits by (simp add: bit_or_iff bit_push_bit_iff bit_unsigned_iff dig_def)
  next
    case False
    then have n: "n div 32 = Suc ((n - 32) div 32)" "n mod 32 = (n - 32) mod 32"
      by (simp_all add: le_div_geq le_mod_geq)
    have "\<not> bit d n" using False bit_imp_le_length [of d n] by auto
    then have "bit (bval (d # ds)) n \<longleftrightarrow> bit (bval ds) (n - 32)"
      unfolding bval_Cons_bits using False by (simp add: bit_or_iff bit_push_bit_iff bit_unsigned_iff)
    with Cons.IH [of "n - 32"] n show ?thesis by (simp add: dig_def)
  qed
qed

lemma SetDigit_loop:
  fixes f :: "nat \<Rightarrow> u32"
  assumes "a \<le> b" "b \<le> length (bi_digits r0)"
  defines "r \<equiv> for_up a b (\<lambda>i r. SetDigit r i (f i)) r0"
  shows "length (bi_digits r) = length (bi_digits r0)" "bi_sign r = bi_sign r0"
    "dig (bi_digits r) i = (if a \<le> i \<and> i < b then f i else dig (bi_digits r0) i)"
proof -
  let ?I = "\<lambda>k (r :: BigInt). length (bi_digits r) = length (bi_digits r0) \<and> bi_sign r = bi_sign r0 \<and>
    (\<forall>i. dig (bi_digits r) i = (if a \<le> i \<and> i < k then f i else dig (bi_digits r0) i))"
  have "?I b r" unfolding r_def
  proof (rule for_up_inv [where I = ?I, OF assms(1)])
    fix k r
    assume k: "a \<le> k" "k < b" and I: "?I k r"
    then have "dig (bi_digits (SetDigit r k (f k))) i =
        (if i = k then f k else dig (bi_digits r) i)" for i
      using assms(2) by (simp add: dig_def nth_list_update)
    with k I show "?I (Suc k) (SetDigit r k (f k))" by (auto simp: less_Suc_eq)
  qed auto
  then show "length (bi_digits r) = length (bi_digits r0)" "bi_sign r = bi_sign r0"
    "dig (bi_digits r) i = (if a \<le> i \<and> i < b then f i else dig (bi_digits r0) i)"
    by auto
qed

lemma dig_replicate [simp]: "dig (replicate n 0) i = 0"
  by (simp add: dig_def)

lemma GetDigit_dig: "i < GetLength x \<Longrightarrow> GetDigit x i = dig (bi_digits x) i"
  by (simp add: GetDigit_def GetLength_def dig_def)

lemma dig_beyond: "GetLength x \<le> i \<Longrightarrow> dig (bi_digits x) i = 0"
  by (simp add: GetLength_def dig_def)

fun opw :: "Operate \<Rightarrow> u32 \<Rightarrow> u32 \<Rightarrow> u32" where
  "opw OpAND a b = a AND b"
| "opw OpOR a b = a OR b"
| "opw OpXOR a b = a XOR b"

fun opn :: "Operate \<Rightarrow> nat \<Rightarrow> nat \<Rightarrow> nat" where
  "opn OpAND a b = a AND b"
| "opn OpOR a b = a OR b"
| "opn OpXOR a b = a XOR b"

lemma bval_opw:
  assumes "\<And>i. dig rs i = opw op (dig xs i) (dig ys i)"
  shows "bval rs = opn op (bval xs) (bval ys)"
  by (cases op; rule bit_eqI) (simp_all add: bit_and_iff bit_or_iff bit_xor_iff bit_bval assms)

lemma bval_and_not:
  assumes "\<And>i. dig rs i = dig xs i AND NOT (dig ys i)"
  shows "int (bval rs) = int (bval xs) AND NOT (int (bval ys))"
  by (rule bit_eqI)
    (auto simp: bit_and_iff bit_not_iff bit_of_nat_iff bit_bval assms dest: bit_imp_le_length)

lemma opw_step_eq:
  "(\<lambda>i bigint. if op = OpOR then SetDigit bigint i (GetDigit x i OR GetDigit y i)
     else if op = OpAND then SetDigit bigint i (GetDigit x i AND GetDigit y i)
     else SetDigit bigint i (GetDigit x i XOR GetDigit y i)) =
   (\<lambda>i bigint. SetDigit bigint i (opw op (GetDigit x i) (GetDigit y i)))"
  by (cases op) (auto simp: fun_eq_iff)

section \<open>Magnitude operations\<close>

lemma truncate_digits:
  assumes "length (bi_digits b) = n" "0 < n" "n \<le> MAXSIZE" "\<not> bi_sign b"
  obtains r where "RightTruncate b = Inr r" "wf_bigint r" "bmag r = bmag b" "\<not> bi_sign r"
    "GetLength r \<le> n"
proof -
  obtain r where r: "RightTruncate b = Inr r" "wf_bigint r" "bmag r = bmag b"
      "bmag b \<noteq> 0 \<Longrightarrow> bi_sign r = bi_sign b" "GetLength r \<le> n"
    by (rule RightTruncate_correct [of b]) (use assms in \<open>auto simp: GetLength_def\<close>)
  moreover have "\<not> bi_sign r" using r assms(4) by (auto simp: wf_bigint_def)
  ultimately show thesis using that by blast
qed

lemma BitwiseOp_correct:
  assumes wf: "wf_bigint x" "wf_bigint y"
  obtains r where "BitwiseOp op x y = Inr r" "wf_bigint r" "\<not> bi_sign r"
    "bmag r = opn op (bmag x) (bmag y)" "GetLength r \<le> max (GetLength x) (GetLength y)"
proof -
  let ?max = "max (GetLength x) (GetLength y)" and ?min = "min (GetLength x) (GetLength y)"
  define b1 where "b1 = for_up 0 ?min (\<lambda>i b. SetDigit b i (opw op (GetDigit x i) (GetDigit y i))) (NewBigInt ?max)"
  define b2 where "b2 =
    (if op = OpOR \<or> op = OpXOR then
       (if GetLength x > GetLength y then
          for_up (GetLength y) (GetLength x) (\<lambda>i b. SetDigit b i (GetDigit x i)) b1
        else if GetLength y > GetLength x then
          for_up (GetLength x) (GetLength y) (\<lambda>i b. SetDigit b i (GetDigit y i)) b1
        else b1)
     else b1)"
  note L1 = SetDigit_loop [of 0 ?min "NewBigInt ?max" "\<lambda>i. opw op (GetDigit x i) (GetDigit y i)", folded b1_def]
  have len1: "length (bi_digits b1) = ?max" "\<not> bi_sign b1" using L1(1,2) by auto
  have dig1: "dig (bi_digits b1) i = (if i < ?min then opw op (GetDigit x i) (GetDigit y i) else 0)" for i
    using L1(3) by auto
  have copy: "length (bi_digits (for_up ?min ?max (\<lambda>i b. SetDigit b i (GetDigit z i)) b1)) = ?max"
    "\<not> bi_sign (for_up ?min ?max (\<lambda>i b. SetDigit b i (GetDigit z i)) b1)"
    "dig (bi_digits (for_up ?min ?max (\<lambda>i b. SetDigit b i (GetDigit z i)) b1)) i =
      (if ?min \<le> i \<and> i < ?max then GetDigit z i else dig (bi_digits b1) i)" for z i
    using SetDigit_loop [of ?min ?max b1 "GetDigit z"] len1 by auto
  have len2: "length (bi_digits b2) = ?max" "\<not> bi_sign b2"
    using copy [of x] copy [of y] len1 by (auto simp: b2_def max_def min_def split: if_splits)
  have "dig (bi_digits b2) i = opw op (dig (bi_digits x) i) (dig (bi_digits y) i)" for i
    using copy(3) [of x i] copy(3) [of y i] dig1 [of i]
    by (cases op) (auto simp: b2_def max_def min_def GetDigit_dig dig_beyond not_less split: if_splits)
  then have "bmag b2 = opn op (bmag x) (bmag y)" unfolding bmag_def by (rule bval_opw)
  moreover obtain r where "RightTruncate b2 = Inr r" "wf_bigint r" "bmag r = bmag b2" "\<not> bi_sign r"
    "GetLength r \<le> ?max"
    by (rule truncate_digits [OF len2(1) _ _ len2(2)]) (use wf_bigintD [OF wf(1)] wf_bigintD [OF wf(2)] in auto)
  moreover have "BitwiseOp op x y = RightTruncate b2"
    using wf_bigintD(4) [OF wf(1)] wf_bigintD(4) [OF wf(2)]
    unfolding BitwiseOp_def opw_step_eq b2_def b1_def
    by (cases "GetLength x > GetLength y") (simp_all add: CreateBigint_Inr Let_def max_def min_def)
  ultimately show thesis using that [of r] by simp
qed

text \<open>The two loops of \<open>OneIsNegativeAND\<close> and \<open>OneIsNegativeOR\<close>: \<open>a & ~b\<close> digit by digit.\<close>

lemma and_not_loops:
  assumes wf: "wf_bigint x" "wf_bigint y"
  defines "m \<equiv> (if GetLength x > GetLength y then GetLength y else GetLength x)"
  defines "b \<equiv> for_up m (GetLength x) (\<lambda>i b. SetDigit b i (GetDigit x i))
    (for_up 0 m (\<lambda>i b. SetDigit b i (GetDigit x i AND NOT (GetDigit y i))) (NewBigInt (GetLength x)))"
  obtains r where "RightTruncate b = Inr r" "wf_bigint r" "\<not> bi_sign r" "GetLength r \<le> GetLength x"
    "int (bmag r) = int (bmag x) AND NOT (int (bmag y))"
proof -
  define b1 where "b1 = for_up 0 m (\<lambda>i b. SetDigit b i (GetDigit x i AND NOT (GetDigit y i))) (NewBigInt (GetLength x))"
  have m: "m \<le> GetLength x" "m \<le> GetLength y" by (auto simp: m_def)
  note L1 = SetDigit_loop [of 0 m "NewBigInt (GetLength x)" "\<lambda>i. GetDigit x i AND NOT (GetDigit y i)", folded b1_def]
  have len1: "length (bi_digits b1) = GetLength x" "\<not> bi_sign b1" using L1(1,2) m by auto
  note L2 = SetDigit_loop [of m "GetLength x" b1 "GetDigit x", unfolded b1_def, folded b_def]
  have len: "length (bi_digits b) = GetLength x" "\<not> bi_sign b"
    using L2(1,2) m len1 by (auto simp: b1_def)
  have "dig (bi_digits b) i = dig (bi_digits x) i AND NOT (dig (bi_digits y) i)" for i
    using L2(3) [of i] L1(3) [of i] m len1
    by (cases "i < m"; cases "i < GetLength x")
      (auto simp: b1_def GetDigit_dig dig_beyond m_def not_less split: if_splits)
  then have "int (bmag b) = int (bmag x) AND NOT (int (bmag y))"
    unfolding bmag_def by (rule bval_and_not)
  moreover obtain r where "RightTruncate b = Inr r" "wf_bigint r" "bmag r = bmag b" "\<not> bi_sign r"
    "GetLength r \<le> GetLength x"
    by (rule truncate_digits [OF len(1) _ _ len(2)]) (use wf_bigintD [OF wf(1)] in auto)
  ultimately show thesis using that [of r] by simp
qed

section \<open>Two's complement\<close>

lemma bint_neg_not:
  "bi_sign y \<Longrightarrow> bmag y \<noteq> 0 \<Longrightarrow> bint y = NOT (int (bmag y - 1))"
  by (simp add: bint_def not_eq_complement of_nat_diff)

lemma SubOne_neg:
  assumes "wf_bigint y" "bi_sign y" "GetLength y \<le> n" "n \<le> MAXSIZE"
  obtains v where "BitwiseSubOne y n = Inr v" "wf_bigint v" "\<not> bi_sign v" "GetLength v \<le> n"
    "bint y = NOT (int (bmag v))"
proof -
  have nz: "bmag y \<noteq> 0" using assms by (auto simp: wf_bigint_def)
  obtain v where "BitwiseSubOne y n = Inr v" "wf_bigint v" "bmag v = bmag y - 1" "\<not> bi_sign v"
      "GetLength v \<le> n"
    by (rule BitwiseSubOne_correct [OF _ nz assms(3,4)]) (use wf_bigintD [OF assms(1)] in auto)
  then show thesis using that bint_neg_not [OF assms(2) nz] by simp
qed

lemma AddOne_not:
  assumes "wf_bigint t" "GetLength t < MAXSIZE"
  obtains r where "BitwiseAddOne t = Inr r" "wf_bigint r" "bi_sign r" "bint r = NOT (int (bmag t))"
proof -
  obtain r where "BitwiseAddOne t = Inr r" "wf_bigint r" "bmag r = bmag t + 1" "bi_sign r"
    by (rule BitwiseAddOne_correct [of t]) (use wf_bigintD [OF assms(1)] assms(2) in auto)
  then show thesis using that [of r] by (simp add: bint_def not_eq_complement)
qed

lemma bint_nonneg [simp]: "\<not> bi_sign x \<Longrightarrow> bint x = int (bmag x)"
  by (simp add: bint_def)

lemma SetSign_id: "bi_sign x = s \<Longrightarrow> SetSign x s = x"
  by (cases x) (simp add: SetSign_def)

lemma int_opn [simp]:
  "int (a AND b) = int a AND int b" "int (a OR b) = int a OR int b" "int (a XOR b) = int a XOR int b"
  by (simp_all add: of_nat_and_eq of_nat_or_eq of_nat_xor_eq)

lemma OneIsNegativeAND_correct:
  assumes wf: "wf_bigint x" "wf_bigint y" and sign: "\<not> bi_sign x" "bi_sign y"
  obtains r where "OneIsNegativeAND x y = Inr r" "wf_bigint r" "bint r = bint x AND bint y"
proof -
  obtain v where v: "BitwiseSubOne y (GetLength y) = Inr v" "wf_bigint v" "bint y = NOT (int (bmag v))"
    by (rule SubOne_neg [OF wf(2) sign(2), of "GetLength y"]) (use wf_bigintD [OF wf(2)] in auto)
  let ?m = "if GetLength x > GetLength v then GetLength v else GetLength x"
  obtain r where r: "RightTruncate (for_up ?m (GetLength x) (\<lambda>i b. SetDigit b i (GetDigit x i))
    (for_up 0 ?m (\<lambda>i b. SetDigit b i (GetDigit x i AND NOT (GetDigit v i))) (NewBigInt (GetLength x)))) = Inr r"
    "wf_bigint r" "\<not> bi_sign r" "int (bmag r) = int (bmag x) AND NOT (int (bmag v))"
    by (rule and_not_loops [OF wf(1) v(2)])
  have "OneIsNegativeAND x y = Inr r"
    using v(1) r(1) wf_bigintD(4) [OF wf(1)] by (simp add: OneIsNegativeAND_def CreateBigint_Inr Let_def)
  then show thesis using that [of r] r v(3) sign by simp
qed

lemma BitwiseAND_correct:
  assumes wf: "wf_bigint x" "wf_bigint y"
    and fits: "bi_sign x \<Longrightarrow> bi_sign y \<Longrightarrow> max (GetLength x) (GetLength y) < MAXSIZE"
  obtains r where "BitwiseAND x y = Inr r" "wf_bigint r" "bint r = bint x AND bint y"
proof -
  consider (both) "bi_sign x" "bi_sign y" | (right) "\<not> bi_sign x" "bi_sign y"
    | (left) "bi_sign x" "\<not> bi_sign y" | (none) "\<not> bi_sign x" "\<not> bi_sign y" by blast
  then show thesis
  proof cases
    case both
    obtain u where u: "BitwiseSubOne x (GetLength x) = Inr u" "wf_bigint u" "GetLength u \<le> GetLength x"
      "bint x = NOT (int (bmag u))"
      by (rule SubOne_neg [OF wf(1) both(1), of "GetLength x"]) (use wf_bigintD [OF wf(1)] in auto)
    obtain v where v: "BitwiseSubOne y (GetLength y) = Inr v" "wf_bigint v" "GetLength v \<le> GetLength y"
      "bint y = NOT (int (bmag v))"
      by (rule SubOne_neg [OF wf(2) both(2), of "GetLength y"]) (use wf_bigintD [OF wf(2)] in auto)
    obtain t where t: "BitwiseOp OpOR u v = Inr t" "wf_bigint t" "bmag t = opn OpOR (bmag u) (bmag v)"
      "GetLength t \<le> max (GetLength u) (GetLength v)"
      by (rule BitwiseOp_correct [OF u(2) v(2)])
    obtain r where "BitwiseAddOne t = Inr r" "wf_bigint r" "bint r = NOT (int (bmag t))"
      by (rule AddOne_not [OF t(2)]) (use t(4) u(3) v(3) fits [OF both] in auto)
    then show thesis using that [of r] both u v t by (simp add: BitwiseAND_def)
  next
    case right
    then show thesis
      using OneIsNegativeAND_correct [OF wf right] that by (auto simp: BitwiseAND_def)
  next
    case left
    obtain r where "OneIsNegativeAND y x = Inr r" "wf_bigint r" "bint r = bint y AND bint x"
      by (rule OneIsNegativeAND_correct [OF wf(2,1) left(2,1)])
    then show thesis using that [of r] left by (simp add: BitwiseAND_def and.commute)
  next
    case none
    obtain r where "BitwiseOp OpAND x y = Inr r" "wf_bigint r" "\<not> bi_sign r"
      "bmag r = opn OpAND (bmag x) (bmag y)"
      by (rule BitwiseOp_correct [OF wf])
    then show thesis using that [of r] none by (simp add: BitwiseAND_def)
  qed
qed

lemma OneIsNegativeXOR_correct:
  assumes wf: "wf_bigint x" "wf_bigint y" and sign: "\<not> bi_sign x" "bi_sign y"
    and fits: "max (GetLength x) (GetLength y) < MAXSIZE"
  obtains r where "OneIsNegativeXOR x y = Inr r" "wf_bigint r" "bint r = bint x XOR bint y"
proof -
  obtain v where v: "BitwiseSubOne y (GetLength y) = Inr v" "wf_bigint v" "GetLength v \<le> GetLength y"
    "bint y = NOT (int (bmag v))"
    by (rule SubOne_neg [OF wf(2) sign(2), of "GetLength y"]) (use wf_bigintD [OF wf(2)] in auto)
  obtain t where t: "BitwiseOp OpXOR x v = Inr t" "wf_bigint t" "bmag t = opn OpXOR (bmag x) (bmag v)"
    "GetLength t \<le> max (GetLength x) (GetLength v)"
    by (rule BitwiseOp_correct [OF wf(1) v(2)])
  obtain r where "BitwiseAddOne t = Inr r" "wf_bigint r" "bint r = NOT (int (bmag t))"
    by (rule AddOne_not [OF t(2)]) (use t(4) v(3) fits in auto)
  then show thesis using that [of r] v t sign by (simp add: OneIsNegativeXOR_def)
qed

lemma BitwiseXOR_correct:
  assumes wf: "wf_bigint x" "wf_bigint y"
    and fits: "bi_sign x \<noteq> bi_sign y \<Longrightarrow> max (GetLength x) (GetLength y) < MAXSIZE"
  obtains r where "BitwiseXOR x y = Inr r" "wf_bigint r" "bint r = bint x XOR bint y"
proof -
  consider (both) "bi_sign x" "bi_sign y" | (right) "\<not> bi_sign x" "bi_sign y"
    | (left) "bi_sign x" "\<not> bi_sign y" | (none) "\<not> bi_sign x" "\<not> bi_sign y" by blast
  then show thesis
  proof cases
    case both
    obtain u where u: "BitwiseSubOne x (GetLength x) = Inr u" "wf_bigint u" "bint x = NOT (int (bmag u))"
      by (rule SubOne_neg [OF wf(1) both(1), of "GetLength x"]) (use wf_bigintD [OF wf(1)] in auto)
    obtain v where v: "BitwiseSubOne y (GetLength y) = Inr v" "wf_bigint v" "bint y = NOT (int (bmag v))"
      by (rule SubOne_neg [OF wf(2) both(2), of "GetLength y"]) (use wf_bigintD [OF wf(2)] in auto)
    obtain r where "BitwiseOp OpXOR u v = Inr r" "wf_bigint r" "\<not> bi_sign r"
      "bmag r = opn OpXOR (bmag u) (bmag v)"
      by (rule BitwiseOp_correct [OF u(2) v(2)])
    then show thesis using that [of r] both u v by (simp add: BitwiseXOR_def)
  next
    case right
    obtain r where "OneIsNegativeXOR x y = Inr r" "wf_bigint r" "bint r = bint x XOR bint y"
      by (rule OneIsNegativeXOR_correct [OF wf right]) (use fits right in auto)
    then show thesis using that [of r] right by (simp add: BitwiseXOR_def)
  next
    case left
    obtain r where "OneIsNegativeXOR y x = Inr r" "wf_bigint r" "bint r = bint y XOR bint x"
      by (rule OneIsNegativeXOR_correct [OF wf(2,1) left(2,1)]) (use fits left in auto)
    then show thesis using that [of r] left by (simp add: BitwiseXOR_def xor.commute)
  next
    case none
    obtain r where "BitwiseOp OpXOR x y = Inr r" "wf_bigint r" "\<not> bi_sign r"
      "bmag r = opn OpXOR (bmag x) (bmag y)"
      by (rule BitwiseOp_correct [OF wf])
    then show thesis using that [of r] none by (simp add: BitwiseXOR_def)
  qed
qed

lemma OneIsNegativeOR_correct:
  assumes wf: "wf_bigint x" "wf_bigint y" and sign: "\<not> bi_sign x" "bi_sign y"
    and fits: "max (GetLength x) (GetLength y) < MAXSIZE"
  obtains r where "OneIsNegativeOR x y = Inr r" "wf_bigint r" "bint r = bint x OR bint y"
proof -
  let ?n = "if GetLength x < GetLength y then GetLength y else GetLength x"
  obtain v where v: "BitwiseSubOne y ?n = Inr v" "wf_bigint v" "GetLength v \<le> ?n" "bint y = NOT (int (bmag v))"
    by (rule SubOne_neg [OF wf(2) sign(2), of ?n]) (use fits in auto)
  let ?m = "if GetLength v > GetLength x then GetLength x else GetLength v"
  have m: "(if GetLength x > GetLength v then GetLength v else GetLength x) = ?m" by simp
  obtain t where t: "RightTruncate (for_up ?m (GetLength v) (\<lambda>i b. SetDigit b i (GetDigit v i))
    (for_up 0 ?m (\<lambda>i b. SetDigit b i (GetDigit v i AND NOT (GetDigit x i))) (NewBigInt (GetLength v)))) = Inr t"
    "wf_bigint t" "GetLength t \<le> GetLength v" "int (bmag t) = int (bmag v) AND NOT (int (bmag x))"
    by (rule and_not_loops [OF v(2) wf(1)])
  obtain r where r: "BitwiseAddOne t = Inr r" "wf_bigint r" "bi_sign r" "bint r = NOT (int (bmag t))"
    by (rule AddOne_not [OF t(2)]) (use t(3) v(3) fits in \<open>auto split: if_splits\<close>)
  have "OneIsNegativeOR x y = Inr r"
    using v(1) t(1) r(1,3) wf_bigintD(4) [OF v(2)] unfolding OneIsNegativeOR_def Let_def
    by (simp add: CreateBigint_Inr m and.commute [of "NOT _"] SetSign_id)
  moreover have "bint r = bint x OR bint y"
    using r(4) t(4) v(4) sign by (simp add: or.commute)
  ultimately show thesis using that [of r] r by simp
qed

lemma BitwiseOR_correct:
  assumes wf: "wf_bigint x" "wf_bigint y"
    and fits: "bi_sign x \<or> bi_sign y \<Longrightarrow> max (GetLength x) (GetLength y) < MAXSIZE"
  obtains r where "BitwiseOR x y = Inr r" "wf_bigint r" "bint r = bint x OR bint y"
proof -
  consider (both) "bi_sign x" "bi_sign y" | (right) "\<not> bi_sign x" "bi_sign y"
    | (left) "bi_sign x" "\<not> bi_sign y" | (none) "\<not> bi_sign x" "\<not> bi_sign y" by blast
  then show thesis
  proof cases
    case both
    let ?n = "if GetLength x < GetLength y then GetLength y else GetLength x"
    have fits': "?n < MAXSIZE" using fits both by auto
    obtain u where u: "BitwiseSubOne x ?n = Inr u" "wf_bigint u" "GetLength u \<le> ?n" "bint x = NOT (int (bmag u))"
      by (rule SubOne_neg [OF wf(1) both(1), of ?n]) (use fits' in auto)
    obtain v where v: "BitwiseSubOne y (GetLength y) = Inr v" "wf_bigint v" "GetLength v \<le> GetLength y"
      "bint y = NOT (int (bmag v))"
      by (rule SubOne_neg [OF wf(2) both(2), of "GetLength y"]) (use wf_bigintD [OF wf(2)] in auto)
    obtain t where t: "BitwiseOp OpAND u v = Inr t" "wf_bigint t" "bmag t = opn OpAND (bmag u) (bmag v)"
      "GetLength t \<le> max (GetLength u) (GetLength v)"
      by (rule BitwiseOp_correct [OF u(2) v(2)])
    obtain r where r: "BitwiseAddOne t = Inr r" "wf_bigint r" "bi_sign r" "bint r = NOT (int (bmag t))"
      by (rule AddOne_not [OF t(2)]) (use t(4) u(3) v(3) fits' in \<open>auto split: if_splits\<close>)
    have "BitwiseOR x y = Inr r"
      using both u(1) v(1) t(1) r(1,3) by (simp add: BitwiseOR_def Let_def SetSign_id)
    then show thesis using that [of r] u v t r by simp
  next
    case right
    obtain r where "OneIsNegativeOR x y = Inr r" "wf_bigint r" "bint r = bint x OR bint y"
      by (rule OneIsNegativeOR_correct [OF wf right]) (use fits right in auto)
    then show thesis using that [of r] right by (simp add: BitwiseOR_def)
  next
    case left
    obtain r where "OneIsNegativeOR y x = Inr r" "wf_bigint r" "bint r = bint y OR bint x"
      by (rule OneIsNegativeOR_correct [OF wf(2,1) left(2,1)]) (use fits left in auto)
    then show thesis using that [of r] left by (simp add: BitwiseOR_def or.commute)
  next
    case none
    obtain r where "BitwiseOp OpOR x y = Inr r" "wf_bigint r" "\<not> bi_sign r"
      "bmag r = opn OpOR (bmag x) (bmag y)"
      by (rule BitwiseOp_correct [OF wf])
    then show thesis using that [of r] none by (simp add: BitwiseOR_def)
  qed
qed

end
