(* ===== verification/BigInt_Mul.thy ===== *)
theory BigInt_Mul
  imports BigInt_Shift
begin

text \<open>
  Multiplication and exponentiation of \<open>BigInt\<close> (js_bigint.cpp): the 32 by 32 bit
  product \<open>Mul\<close>, the schoolbook loop of \<open>Multiply\<close> and the square-and-multiply loop of
  \<open>Exponentiate\<close>. The loop of \<open>Exponentiate\<close> only relies on its multiplication being
  exact or failing with a large product; this contract is the locale
  \<open>checked_product\<close>, which \<open>Multiply\<close> satisfies.
\<close>

section \<open>Operations\<close>

definition Mul :: "u32 \<Rightarrow> u32 \<Rightarrow> u32 \<times> u32" where
  "Mul x y =
     (let lowBitX = x AND HALF_DATA_MASK; highBitX = drop_bit HALF_DATA_BITS x;
          lowBitY = y AND HALF_DATA_MASK; highBitY = drop_bit HALF_DATA_BITS y;
          lowRes = lowBitX * lowBitY; highRes = highBitX * highBitY;
          midRes1 = lowBitX * highBitY; midRes2 = highBitX * lowBitY;
          carry = 0;
          (low, carry) = AddHelper lowRes (push_bit HALF_DATA_BITS midRes1) carry;
          (low, carry) = AddHelper low (push_bit HALF_DATA_BITS midRes2) carry;
          high = drop_bit HALF_DATA_BITS midRes1 + drop_bit HALF_DATA_BITS midRes2 + highRes + carry
      in (high, low))"

text \<open>One round of the inner loop; the state is the accumulator, \<open>carry\<close>, \<open>high\<close> and \<open>index\<close>.\<close>

definition mul_step :: "u32 \<Rightarrow> BigInt \<Rightarrow> nat \<Rightarrow> BigInt \<times> u32 \<times> u32 \<times> nat \<Rightarrow> BigInt \<times> u32 \<times> u32 \<times> nat" where
  "mul_step xVal y j s =
     (let (bigint, carry, high, index) = s;
          value = GetDigit bigint index;
          (value, currentCarry) = AddHelper value high 0;
          (value, currentCarry) = AddHelper value carry currentCarry;
          (high, low) = Mul xVal (GetDigit y j);
          (value, currentCarry) = AddHelper value low currentCarry
      in (SetDigit bigint index value, currentCarry, high, index + 1))"

text \<open>
  The loop that propagates the carry. The source asserts \<open>index < GetLength bigint\<close>
  in its body; the model leaves the loop there, and \<open>mul_carry_spec\<close> shows that it
  never does so with a carry left.
\<close>

function mul_carry :: "BigInt \<Rightarrow> u32 \<Rightarrow> u32 \<Rightarrow> nat \<Rightarrow> BigInt \<times> u32 \<times> u32 \<times> nat" where
  "mul_carry bigint carry high index =
     (if (carry \<noteq> 0 \<or> high \<noteq> 0) \<and> index < GetLength bigint then
        let value = GetDigit bigint index;
            (value, currentCarry) = AddHelper value high 0;
            (value, currentCarry) = AddHelper value carry currentCarry
        in mul_carry (SetDigit bigint index value) currentCarry 0 (index + 1)
      else (bigint, carry, high, index))"
  by pat_completeness auto

termination
  by (relation "measure (\<lambda>(b, c, h, i). GetLength b - i)")
    (auto simp: GetLength_def SetDigit_def)

declare mul_carry.simps [simp del]

definition mul_row :: "BigInt \<Rightarrow> BigInt \<Rightarrow> nat \<Rightarrow> BigInt \<Rightarrow> BigInt" where
  "mul_row x y i bigint =
     (let xVal = GetDigit x i
      in if xVal = 0 then bigint
         else let (bigint, carry, high, index) = for_up 0 (GetLength y) (mul_step xVal y) (bigint, 0, 0, i)
              in fst (mul_carry bigint carry high index))"

definition Multiply :: "BigInt \<Rightarrow> BigInt \<Rightarrow> BigInt result" where
  "Multiply x y =
     (if IsZero x then Inr x
      else if IsZero y then Inr y
      else bindE (CreateBigint (GetLength x + GetLength y)) (\<lambda>bigint.
        let bigint = for_up 0 (GetLength x) (mul_row x y) bigint
        in RightTruncate (SetSign bigint (bi_sign x \<noteq> bi_sign y))))"

lemma drop_bit_1_less: "(w :: u32) \<noteq> 0 \<Longrightarrow> unat (drop_bit (Suc 0) w) < unat w"
  by (simp add: unat_u32_drop_bit unat_gt_0)

text \<open>
  The loop of \<open>Exponentiate\<close>, over the multiplication it calls; \<open>None\<close> is the
  handle \<open>result\<close> that is still \<open>Null\<close>.
\<close>

function exp_loop :: "('a \<Rightarrow> 'a \<Rightarrow> 'a result) \<Rightarrow> u32 \<Rightarrow> 'a \<Rightarrow> 'a option \<Rightarrow> 'a option result" where
  "exp_loop mul expValue temp res =
     (if expValue = 0 then Inr res
      else bindE (mul temp temp) (\<lambda>temp.
        if expValue AND 1 \<noteq> 0 then
          (case res of
             None \<Rightarrow> exp_loop mul (drop_bit 1 expValue) temp (Some temp)
           | Some r \<Rightarrow> bindE (mul r temp) (\<lambda>r. exp_loop mul (drop_bit 1 expValue) temp (Some r)))
        else exp_loop mul (drop_bit 1 expValue) temp res))"
  by pat_completeness auto

termination
  by (relation "measure (\<lambda>(m, e, t, r). unat e)") (auto simp: drop_bit_1_less)

declare exp_loop.simps [simp del]

definition Exponentiate :: "BigInt \<Rightarrow> BigInt \<Rightarrow> BigInt result" where
  "Exponentiate base exponent =
     (if bi_sign exponent then Inl (RangeError ''Exponent must be positive'')
      else if IsZero exponent then Int32ToBigInt 1
      else if IsZero base then Inr base
      else
        let expValue = GetDigit exponent 0 in
        if GetLength base = 1 \<and> GetDigit base 0 = 1 then
          (if bi_sign base \<and> expValue AND 1 = 0 then UnaryMinus base else Inr base)
        else if GetLength exponent > 1 then Inl max_size_error
        else if GetLength base = 1 \<and> GetDigit base 0 = 2 then
          let needLength = unat expValue div DATA_BITS + 1
          in bindE (CreateBigint needLength) (\<lambda>bigint.
            let bigint = SetDigit bigint (needLength - 1) (push_bit (unat expValue mod DATA_BITS) 1)
            in Inr (if bi_sign base then SetSign bigint (expValue AND 1 \<noteq> 0) else bigint))
        else
          bindE (exp_loop Multiply (drop_bit 1 expValue) base
                   (if expValue AND 1 \<noteq> 0 then Some base else None))
            (\<lambda>res. Inr (the res)))"

section \<open>The 32 by 32 bit product\<close>

lemma HALF_simps: "HALF_DATA_BITS = 16" "HALF_DATA_MASK = mask 16"
  by (simp_all add: HALF_DATA_MASK_def HALF_UINT32_VALUE_def HALF_DATA_BITS_def DATA_BITS_def mask_eq_exp_minus_1)

lemma unat_half: "unat (w AND HALF_DATA_MASK) = unat (w :: u32) mod 65536"
proof -
  have "unat (w AND HALF_DATA_MASK) = take_bit 16 (unat w)"
    unfolding HALF_simps take_bit_eq_mask [symmetric] by (simp add: unsigned_take_bit_eq)
  then show ?thesis by (simp add: take_bit_eq_mod)
qed

lemma half_mult:
  "a < 65536 \<Longrightarrow> b < 65536 \<Longrightarrow> unat x = a \<Longrightarrow> unat y = b \<Longrightarrow> unat (x * y :: u32) = a * b"
proof -
  assume *: "a < 65536" "b < 65536" "unat x = a" "unat y = b"
  have "a * b \<le> 65535 * 65535" using *(1,2) by (intro mult_le_mono) auto
  then show ?thesis using *(3,4) by (simp add: unat_u32_mult)
qed

lemma HALF_bits: "(2 :: nat) ^ HALF_DATA_BITS = 65536"
  by (simp add: HALF_simps)

lemma shl16: "(m * 65536) mod B = 65536 * (m mod 65536)"
  using mult_mod_left [of m 65536 65536] by simp

lemma split16: "65536 * m = B * (m div 65536) + 65536 * (m mod 65536)"
proof -
  have "65536 * m = 65536 * (65536 * (m div 65536) + m mod 65536)" by (simp only: mult_div_mod_eq)
  then show ?thesis unfolding distrib_left mult.assoc [symmetric] by simp
qed

lemma Mul_spec:
  assumes "Mul x y = (high, low)"
  shows "unat low + B * unat high = unat x * unat y"
proof -
  define xl xh yl yh where v: "xl = unat x mod 65536" "xh = unat x div 65536"
    "yl = unat y mod 65536" "yh = unat y div 65536"
  have lt: "xl < 65536" "xh < 65536" "yl < 65536" "yh < 65536"
    using unat_u32_lt [of x] unat_u32_lt [of y] by (auto simp: v)
  let ?xl = "x AND HALF_DATA_MASK" and ?xh = "drop_bit HALF_DATA_BITS x"
  let ?yl = "y AND HALF_DATA_MASK" and ?yh = "drop_bit HALF_DATA_BITS y"
  have u: "unat ?xl = xl" "unat ?xh = xh" "unat ?yl = yl" "unat ?yh = yh"
    by (simp_all add: unat_half unat_u32_drop_bit HALF_bits v)
  note p = half_mult [OF lt(1,3) u(1,3)] half_mult [OF lt(2,4) u(2,4)]
    half_mult [OF lt(1,4) u(1,4)] half_mult [OF lt(2,3) u(2,3)]
  define m1 m2 where "m1 = xl * yh" and "m2 = xh * yl"
  obtain l1 c1 where a1: "AddHelper (?xl * ?yl) (push_bit HALF_DATA_BITS (?xl * ?yh)) 0 = (l1, c1)" by fastforce
  obtain l2 c2 where a2: "AddHelper l1 (push_bit HALF_DATA_BITS (?xh * ?yl)) c1 = (l2, c2)" by fastforce
  have low: "low = l2" and high: "high = drop_bit HALF_DATA_BITS (?xl * ?yh) + drop_bit HALF_DATA_BITS (?xh * ?yl) + ?xh * ?yh + c2"
    using assms by (simp_all add: Mul_def Let_def a1 a2)
  have sh: "unat (push_bit HALF_DATA_BITS (?xl * ?yh)) = 65536 * (m1 mod 65536)"
    "unat (push_bit HALF_DATA_BITS (?xh * ?yl)) = 65536 * (m2 mod 65536)"
    "unat (drop_bit HALF_DATA_BITS (?xl * ?yh)) = m1 div 65536"
    "unat (drop_bit HALF_DATA_BITS (?xh * ?yl)) = m2 div 65536"
    by (simp_all add: unat_u32_push_bit unat_u32_drop_bit p HALF_bits shl16 m1_def m2_def)
  have e: "unat l1 + B * unat c1 = xl * yl + 65536 * (m1 mod 65536)" "unat c1 \<le> 1"
    using AddHelper_spec [OF a1] by (simp_all add: p sh)
  then have "unat l2 + B * unat c2 = xl * yl + 65536 * (m1 mod 65536) + 65536 * (m2 mod 65536)"
    using AddHelper_spec(1) [OF a2] by (simp add: sh)
  then have tot: "unat l2 + B * (unat c2 + m1 div 65536 + m2 div 65536 + xh * yh)
      = xl * yl + 65536 * m1 + 65536 * m2 + B * (xh * yh)"
    unfolding split16 [of m1] split16 [of m2] by (simp add: algebra_simps)
  have xy: "unat x = xl + 65536 * xh" "unat y = yl + 65536 * yh" by (simp_all add: v)
  have prod: "xl * yl + 65536 * m1 + 65536 * m2 + B * (xh * yh) = unat x * unat y"
    unfolding xy m1_def m2_def by (simp add: algebra_simps)
  have "unat x * unat y \<le> (B - 1) * (B - 1)"
    using unat_u32_lt [of x] unat_u32_lt [of y] by (intro mult_le_mono) auto
  then have "unat c2 + m1 div 65536 + m2 div 65536 + xh * yh < B"
    using tot prod by simp
  then have "unat high = m1 div 65536 + m2 div 65536 + xh * yh + unat c2"
    unfolding high by (simp add: unat_u32_add sh p)
  then show ?thesis using tot prod by (simp add: low)
qed

section \<open>Multiplication\<close>

lemma bval_update:
  "i < length ds \<Longrightarrow> bval (ds[i := d]) + B ^ i * unat (ds ! i) = bval ds + B ^ i * unat d"
proof (induction ds arbitrary: i)
  case (Cons a ds)
  show ?case
  proof (cases i)
    case (Suc k)
    then have "bval (ds[k := d]) + B ^ k * unat (ds ! k) = bval ds + B ^ k * unat d"
      using Cons by simp
    then have "B * (bval (ds[k := d]) + B ^ k * unat (ds ! k)) = B * (bval ds + B ^ k * unat d)" by simp
    then show ?thesis using Suc by (simp add: algebra_simps)
  qed simp
qed simp

text \<open>Adding at a digit position and passing the carry on keeps the total.\<close>

lemma add_at_digit:
  assumes "k < length ds" and "unat d + B * c' = unat (ds ! k) + a"
  shows "bval (ds[k := d]) + B ^ Suc k * c' = bval ds + B ^ k * a"
proof -
  have "B ^ k * (unat d + B * c') = B ^ k * (unat (ds ! k) + a)" using assms(2) by simp
  then show ?thesis using bval_update [OF assms(1), of d] by (simp add: algebra_simps)
qed

lemma mul_step_spec:
  assumes "k < length (bi_digits b)" "unat c \<le> 3" "j < GetLength y"
  obtains b' c' h' where "mul_step xVal y j (b, c, h, k) = (b', c', h', Suc k)" "unat c' \<le> 3"
    "bi_sign b' = bi_sign b" "length (bi_digits b') = length (bi_digits b)"
    "bmag b' + B ^ Suc k * (unat c' + unat h') = bmag b + B ^ k * (unat c + unat h + unat xVal * unat (bi_digits y ! j))"
proof -
  obtain v1 c1 where h1: "AddHelper (GetDigit b k) h 0 = (v1, c1)" by fastforce
  obtain v2 c2 where h2: "AddHelper v1 c c1 = (v2, c2)" by fastforce
  obtain h' l where m: "Mul xVal (GetDigit y j) = (h', l)" by fastforce
  obtain v3 c3 where h3: "AddHelper v2 l c2 = (v3, c3)" by fastforce
  have c: "unat c1 \<le> 1" "unat c2 \<le> 2"
    using AddHelper_spec(2) [OF h1] AddHelper_spec(2) [OF h2] by auto
  then have c3: "unat c3 \<le> 3" using AddHelper_spec(2) [OF h3] by auto
  have "unat v3 + B * unat c3 = unat (GetDigit b k) + (unat h + unat c + unat l)"
    using AddHelper_spec(1) [OF h1] AddHelper_spec(1) [OF h2] AddHelper_spec(1) [OF h3] c by simp
  from add_at_digit [OF assms(1) this [unfolded GetDigit_def]]
  have "bmag (SetDigit b k v3) + B ^ Suc k * unat c3 = bmag b + B ^ k * (unat h + unat c + unat l)"
    by (simp add: bmag_def)
  moreover have "B ^ Suc k * unat h' + B ^ k * unat l = B ^ k * (unat xVal * unat (bi_digits y ! j))"
    using arg_cong [OF Mul_spec [OF m], of "\<lambda>v. B ^ k * v"] by (simp add: algebra_simps GetDigit_def)
  ultimately have "bmag (SetDigit b k v3) + B ^ Suc k * (unat c3 + unat h')
      = bmag b + B ^ k * (unat c + unat h + unat xVal * unat (bi_digits y ! j))"
    by (simp add: algebra_simps)
  moreover have "mul_step xVal y j (b, c, h, k) = (SetDigit b k v3, c3, h', Suc k)"
    by (simp add: mul_step_def h1 h2 h3 m)
  ultimately show thesis using that c3 by simp
qed

lemma mul_carry_spec:
  assumes "k \<le> length (bi_digits b)" "unat c \<le> 3"
    and "bmag b + B ^ k * (unat c + unat h) < B ^ length (bi_digits b)"
  obtains b' k' where "mul_carry b c h k = (b', 0, 0, k')"
    "bi_sign b' = bi_sign b" "length (bi_digits b') = length (bi_digits b)"
    "bmag b' = bmag b + B ^ k * (unat c + unat h)"
  using assms
proof (induction b c h k arbitrary: thesis rule: mul_carry.induct)
  case (1 b c h k)
  show ?case
  proof (cases "c = 0 \<and> h = 0")
    case True
    then show ?thesis using 1(2) [of b k] by (simp add: mul_carry.simps)
  next
    case False
    have "k \<noteq> length (bi_digits b)"
    proof
      assume k: "k = length (bi_digits b)"
      have "unat c + unat h \<ge> 1" using False by (auto simp: Suc_le_eq unat_gt_0)
      then have "B ^ k * 1 \<le> B ^ k * (unat c + unat h)" by (rule mult_le_mono2)
      then show False using 1(5) unfolding k by linarith
    qed
    then have k: "k < length (bi_digits b)" "k < GetLength b" using 1(3) by (auto simp: GetLength_def)
    obtain v1 c1 where h1: "AddHelper (GetDigit b k) h 0 = (v1, c1)" by fastforce
    obtain v2 c2 where h2: "AddHelper v1 c c1 = (v2, c2)" by fastforce
    have c: "unat c1 \<le> 1" "unat c2 \<le> 3"
      using AddHelper_spec(2) [OF h1] AddHelper_spec(2) [OF h2] by auto
    have "unat v2 + B * unat c2 = unat (GetDigit b k) + (unat c + unat h)"
      using AddHelper_spec(1) [OF h1] AddHelper_spec(1) [OF h2] c by simp
    from add_at_digit [OF k(1) this [unfolded GetDigit_def]]
    have step: "bmag (SetDigit b k v2) + B ^ Suc k * (unat c2 + unat (0 :: u32)) = bmag b + B ^ k * (unat c + unat h)"
      by (simp add: bmag_def)
    have unf: "mul_carry b c h k = mul_carry (SetDigit b k v2) c2 0 (Suc k)"
      using False k by (simp add: mul_carry.simps [of b c h k] h1 h2)
    show ?thesis
    proof (rule 1(1) [of "GetDigit b k" "(v1, c1)" v1 c1 "(v2, c2)" v2 c2])
      fix b' k'
      assume "mul_carry (SetDigit b k v2) c2 0 (k + 1) = (b', 0, 0, k')"
        "bi_sign b' = bi_sign (SetDigit b k v2)" "length (bi_digits b') = length (bi_digits (SetDigit b k v2))"
        "bmag b' = bmag (SetDigit b k v2) + B ^ (k + 1) * (unat c2 + unat (0 :: u32))"
      then show ?thesis using 1(2) [of b' k'] unf step by simp
    qed (use False k c h1 h2 step 1(5) in \<open>auto simp del: unat_0\<close>)
  qed
qed

lemma mul_row_spec:
  assumes "i < GetLength x" "length (bi_digits b) = GetLength x + GetLength y"
    and "bmag b = bval (take i (bi_digits x)) * bmag y"
  shows "length (bi_digits (mul_row x y i b)) = length (bi_digits b)"
    and "bmag (mul_row x y i b) = bval (take (Suc i) (bi_digits x)) * bmag y"
proof -
  let ?x = "GetDigit x i" and ?n = "length (bi_digits b)"
  have tk: "bval (take (Suc i) (bi_digits x)) = bval (take i (bi_digits x)) + B ^ i * unat ?x"
    using assms(1) by (simp add: bval_take_Suc GetDigit_def GetLength_def)
  have res: "length (bi_digits (mul_row x y i b)) = ?n \<and>
      bmag (mul_row x y i b) = bval (take (Suc i) (bi_digits x)) * bmag y"
  proof (cases "?x = 0")
    case True
    then show ?thesis using tk assms(3) by (simp add: mul_row_def)
  next
    case False
    let ?I = "\<lambda>j (b' :: BigInt, c :: u32, h :: u32, k). k = i + j \<and> unat c \<le> 3 \<and> length (bi_digits b') = ?n \<and>
      bmag b' + B ^ k * (unat c + unat h) = bmag b + B ^ i * (unat ?x * bval (take j (bi_digits y)))"
    have loop: "?I (GetLength y) (for_up 0 (GetLength y) (mul_step ?x y) (b, 0, 0, i))"
    proof (rule for_up_inv [where I = ?I])
      fix j and s :: "BigInt \<times> u32 \<times> u32 \<times> nat"
      assume j: "j < GetLength y" and inv: "?I j s"
      obtain b1 c h k where s: "s = (b1, c, h, k)" by (cases s) auto
      have inv: "k = i + j" "unat c \<le> 3" "length (bi_digits b1) = ?n"
        "bmag b1 + B ^ k * (unat c + unat h) = bmag b + B ^ i * (unat ?x * bval (take j (bi_digits y)))"
        using inv by (auto simp: s)
      have k: "k < length (bi_digits b1)" using inv assms(1,2) j by simp
      obtain b' c' h' where st: "mul_step ?x y j (b1, c, h, k) = (b', c', h', Suc k)" "unat c' \<le> 3"
        "length (bi_digits b') = length (bi_digits b1)"
        "bmag b' + B ^ Suc k * (unat c' + unat h') = bmag b1 + B ^ k * (unat c + unat h + unat ?x * unat (bi_digits y ! j))"
        by (rule mul_step_spec [OF k inv(2) j])
      have "bval (take (Suc j) (bi_digits y)) = bval (take j (bi_digits y)) + B ^ j * unat (bi_digits y ! j)"
        using j by (simp add: bval_take_Suc GetLength_def)
      then have "bmag b' + B ^ Suc k * (unat c' + unat h') =
          bmag b + B ^ i * (unat ?x * bval (take (Suc j) (bi_digits y)))"
        using st(4) inv(4) unfolding inv(1) by (simp add: algebra_simps power_add)
      then show "?I (Suc j) (mul_step ?x y j s)"
        using inv st by (simp add: s)
    qed auto
    obtain b1 c h k where lp: "for_up 0 (GetLength y) (mul_step ?x y) (b, 0, 0, i) = (b1, c, h, k)"
      by (metis prod_cases4)
    have tot: "k = i + GetLength y" "unat c \<le> 3" "length (bi_digits b1) = ?n"
      "bmag b1 + B ^ k * (unat c + unat h) = bval (take (Suc i) (bi_digits x)) * bmag y"
      using loop assms(3) tk unfolding lp by (auto simp: GetLength_def bmag_def algebra_simps)
    have "bval (take (Suc i) (bi_digits x)) * bmag y < B ^ Suc i * B ^ GetLength y"
      using bval_lt [of "take (Suc i) (bi_digits x)"] bval_lt [of "bi_digits y"] assms(1)
      by (intro mult_strict_mono) (auto simp: GetLength_def bmag_def)
    also have "\<dots> \<le> B ^ ?n"
      unfolding power_add [symmetric] using assms(1,2) by (intro power_increasing) auto
    finally have fits: "bmag b1 + B ^ k * (unat c + unat h) < B ^ length (bi_digits b1)"
      using tot(3,4) by simp
    obtain b' k' where "mul_carry b1 c h k = (b', 0, 0, k')" "length (bi_digits b') = length (bi_digits b1)"
      "bmag b' = bmag b1 + B ^ k * (unat c + unat h)"
      by (rule mul_carry_spec [OF _ tot(2) fits]) (use tot assms(1,2) in auto)
    then show ?thesis using False tot by (simp add: mul_row_def lp)
  qed
  show "length (bi_digits (mul_row x y i b)) = ?n" using res by blast
  show "bmag (mul_row x y i b) = bval (take (Suc i) (bi_digits x)) * bmag y" using res by blast
qed

lemma bmag_NewBigInt: "bmag (NewBigInt n) = 0"
  by (simp add: bmag_def)

lemma Multiply_overflow:
  assumes "\<not> IsZero x" "\<not> IsZero y" "GetLength x + GetLength y > MAXSIZE"
  shows "Multiply x y = Inl max_size_error"
  using assms by (simp add: Multiply_def CreateBigint_Inl)

lemma Multiply_correct:
  assumes wf: "wf_bigint x" "wf_bigint y"
    and fits: "IsZero x \<or> IsZero y \<or> GetLength x + GetLength y \<le> MAXSIZE"
  obtains r where "Multiply x y = Inr r" "wf_bigint r" "bint r = bint x * bint y"
proof (cases "IsZero x \<or> IsZero y")
  case True
  then show thesis
    using that [of x] that [of y] wf IsZero_iff [of x] IsZero_iff [of y]
    by (cases "IsZero x") (auto simp: Multiply_def)
next
  case False
  let ?n = "GetLength x + GetLength y"
  let ?I = "\<lambda>i (b :: BigInt). length (bi_digits b) = ?n \<and> bmag b = bval (take i (bi_digits x)) * bmag y"
  define b where "b = for_up 0 (GetLength x) (mul_row x y) (NewBigInt ?n)"
  have "?I (GetLength x) b"
    unfolding b_def
    by (rule for_up_inv [where I = ?I]) (auto simp: mul_row_spec bmag_NewBigInt)
  then have b: "length (bi_digits b) = ?n" "bmag b = bmag x * bmag y"
    by (simp_all add: GetLength_def bmag_def)
  obtain r where r: "RightTruncate (SetSign b (bi_sign x \<noteq> bi_sign y)) = Inr r" "wf_bigint r"
    "bint r = bint (SetSign b (bi_sign x \<noteq> bi_sign y))"
    by (rule RightTruncate_correct [of "SetSign b (bi_sign x \<noteq> bi_sign y)"])
      (use b False fits wf_bigintD [OF wf(1)] in \<open>auto simp: GetLength_def simp flip: length_greater_0_conv\<close>)
  have "Multiply x y = Inr r"
    using False fits r(1) by (simp add: Multiply_def CreateBigint_Inr b_def)
  moreover have "bint r = bint x * bint y"
    using r(3) b(2) by (auto simp: bint_def bmag_def)
  ultimately show thesis using that r(2) by blast
qed

section \<open>Exponentiation\<close>

lemma u32_odd_iff: "(e :: u32) AND 1 \<noteq> 0 \<longleftrightarrow> odd (unat e)"
proof -
  have "e AND 1 \<noteq> 0 \<longleftrightarrow> bit e 0" by (simp add: and_one_eq bit_0 mod_2_eq_odd)
  also have "\<dots> \<longleftrightarrow> bit (unat e) 0" by (simp add: bit_unsigned_iff)
  finally show ?thesis by (simp add: bit_0)
qed

lemma u32_halve:
  "unat (e :: u32) = 2 * unat (drop_bit (Suc 0) e) + (if e AND 1 \<noteq> 0 then 1 else 0)"
  unfolding u32_odd_iff by (auto simp: unat_u32_drop_bit elim: evenE oddE)

text \<open>
  What \<open>Exponentiate\<close> relies on: the multiplication is exact on admissible values, and
  where it fails the product reaches \<open>limit\<close>.
\<close>

locale checked_product =
  fixes mul :: "'a \<Rightarrow> 'a \<Rightarrow> 'a result" and ok :: "'a \<Rightarrow> bool" and val :: "'a \<Rightarrow> int"
    and limit :: int and err :: js_error
  assumes mul_exact: "ok x \<Longrightarrow> ok y \<Longrightarrow> mul x y = Inr r \<Longrightarrow> ok r \<and> val r = val x * val y"
    and mul_fails: "ok x \<Longrightarrow> ok y \<Longrightarrow> mul x y = Inl e \<Longrightarrow> e = err \<and> limit \<le> \<bar>val x * val y\<bar>"
begin

definition acc :: "'a option \<Rightarrow> int" where
  "acc res = (case res of None \<Rightarrow> 1 | Some r \<Rightarrow> val r)"

lemma acc_simps [simp]: "acc None = 1" "acc (Some r) = val r"
  by (simp_all add: acc_def)

definition exp_post :: "int \<Rightarrow> 'a option result \<Rightarrow> bool" where
  "exp_post pow out =
     (case out of Inl x \<Rightarrow> x = err \<and> limit \<le> \<bar>pow\<bar>
      | Inr None \<Rightarrow> False | Inr (Some s) \<Rightarrow> ok s \<and> val s = pow)"

lemma exp_post_fail:
  assumes "ok x" "ok y" "mul x y = Inl e" "pow = val x * val y * c" "c \<noteq> 0"
  shows "exp_post pow (Inl e)"
proof -
  have "e = err" "limit \<le> \<bar>val x * val y\<bar>" using mul_fails [OF assms(1-3)] by auto
  moreover have "\<bar>val x * val y\<bar> * 1 \<le> \<bar>val x * val y\<bar> * \<bar>c\<bar>"
    using assms(5) by (intro mult_left_mono) auto
  ultimately show ?thesis by (simp add: exp_post_def assms(4) abs_mult)
qed

lemma exp_loop_post:
  assumes "ok temp" "val temp \<noteq> 0" "\<And>r. res = Some r \<Longrightarrow> ok r" "acc res \<noteq> 0" "e \<noteq> 0 \<or> res \<noteq> None"
  shows "exp_post (acc res * val temp ^ (2 * unat e)) (exp_loop mul e temp res)"
  using assms
proof (induction e arbitrary: temp res rule: measure_induct_rule [of unat])
  case (less e)
  show ?case
  proof (cases "e = 0")
    case True
    then show ?thesis using less.prems by (auto simp: exp_loop.simps exp_post_def)
  next
    case False
    let ?e = "drop_bit (Suc 0) e"
    note IH = less.IH [OF drop_bit_1_less [OF False]]
    have pos: "unat e \<noteq> 0" using False by (simp add: unat_eq_0)
    show ?thesis
    proof (cases "mul temp temp")
      case (Inl x)
      have "val temp ^ (2 * unat e) = val temp * val temp * val temp ^ (2 * unat e - 2)"
        using pos by (cases "unat e") (simp_all)
      then have "exp_post (acc res * val temp ^ (2 * unat e)) (Inl x)"
        using less.prems by (intro exp_post_fail [OF _ _ Inl, of _ "acc res * val temp ^ (2 * unat e - 2)"]) auto
      then show ?thesis using False by (simp add: exp_loop.simps [of mul e] Inl)
    next
      case (Inr t)
      have t: "ok t" "val t = val temp ^ 2" "val t \<noteq> 0"
        using mul_exact [OF less.prems(1,1) Inr] less.prems(2) by (auto simp: power2_eq_square)
      show ?thesis
      proof (cases "e AND 1 \<noteq> 0")
        case odd: True
        have e: "unat e = 2 * unat ?e + 1" using u32_halve [of e] odd by simp
        have tot: "val temp ^ (2 * unat e) = val t * val t ^ (2 * unat ?e)"
          by (simp only: t e Suc_eq_plus1 [symmetric] power_mult [of _ 2 "Suc (2 * unat ?e)"] power_Suc)
        show ?thesis
        proof (cases res)
          case None
          then show ?thesis
            using IH [of t "Some t"] t False odd Inr tot by (simp add: exp_loop.simps [of mul e])
        next
          case (Some r)
          have r: "ok r" "val r \<noteq> 0" using less.prems Some by auto
          show ?thesis
          proof (cases "mul r t")
            case (Inl x)
            have "exp_post (acc res * val temp ^ (2 * unat e)) (Inl x)"
              using t r Some tot by (intro exp_post_fail [OF _ _ Inl, of _ "val t ^ (2 * unat ?e)"]) auto
            then show ?thesis using False odd Inr Some Inl by (simp add: exp_loop.simps [of mul e])
          next
            case rt: (Inr r')
            have "ok r'" "val r' = val r * val t" using mul_exact [OF r(1) t(1) rt] by auto
            then show ?thesis
              using IH [of t "Some r'"] t r False odd Inr Some rt tot
              by (simp add: exp_loop.simps [of mul e] mult.assoc)
          qed
        qed
      next
        case even: False
        have e: "unat e = 2 * unat ?e" using u32_halve [of e] even by simp
        have "val temp ^ (2 * unat e) = val t ^ (2 * unat ?e)"
          unfolding t e by (simp add: power_mult [symmetric] mult.assoc)
        moreover have "?e \<noteq> 0 \<or> res \<noteq> None" using e pos by auto
        ultimately show ?thesis
          using IH [of t res] t less.prems False even Inr by (simp add: exp_loop.simps [of mul e])
      qed
    qed
  qed
qed

end

lemma bmag_lower: "wf_bigint x \<Longrightarrow> bmag x \<noteq> 0 \<Longrightarrow> B ^ (GetLength x - 1) \<le> bmag x"
  using bval_ge_last [of "bi_digits x"]
  by (cases "GetLength x = 1") (auto simp: wf_bigint_def wf_digits_def GetLength_def bmag_def)

lemma product_limit:
  assumes "wf_bigint x" "wf_bigint y" "\<not> IsZero x" "\<not> IsZero y" "GetLength x + GetLength y > MAXSIZE"
  shows "int (B ^ (MAXSIZE - 1)) \<le> \<bar>bint x * bint y\<bar>"
proof -
  have "B ^ (MAXSIZE - 1) \<le> B ^ ((GetLength x - 1) + (GetLength y - 1))"
    using assms(5) by (intro power_increasing) auto
  also have "\<dots> \<le> bmag x * bmag y"
    unfolding power_add using assms by (intro mult_le_mono bmag_lower) (auto simp: IsZero_iff)
  finally have "int (B ^ (MAXSIZE - 1)) \<le> int (bmag x * bmag y)" by (simp only: of_nat_le_iff)
  moreover have "\<bar>bint x * bint y\<bar> = int (bmag x * bmag y)" by (simp add: bint_def abs_mult)
  ultimately show ?thesis by simp
qed

interpretation bigint_product: checked_product Multiply wf_bigint bint "int (B ^ (MAXSIZE - 1))" max_size_error
proof unfold_locales
  fix x y r
  assume *: "wf_bigint x" "wf_bigint y" "Multiply x y = Inr r"
  then have "IsZero x \<or> IsZero y \<or> GetLength x + GetLength y \<le> MAXSIZE"
    using Multiply_overflow [of x y] by fastforce
  then show "wf_bigint r \<and> bint r = bint x * bint y"
    using Multiply_correct [OF *(1,2)] *(3) by fastforce
next
  fix x y e
  assume *: "wf_bigint x" "wf_bigint y" "Multiply x y = Inl e"
  then have "\<not> (IsZero x \<or> IsZero y \<or> GetLength x + GetLength y \<le> MAXSIZE)"
    using Multiply_correct [OF *(1,2)] by fastforce
  then show "e = max_size_error \<and> int (B ^ (MAXSIZE - 1)) \<le> \<bar>bint x * bint y\<bar>"
    using product_limit [OF *(1,2)] Multiply_overflow [of x y] *(3) by auto
qed

lemma bmag_digit0:
  assumes "wf_bigint x"
  shows "bmag x = unat (GetDigit x 0) + B * bval (drop 1 (bi_digits x))"
  using wf_bigintD(2) [OF assms] by (cases "bi_digits x") (auto simp: bmag_def GetDigit_def)

lemma even_bmag: "wf_bigint x \<Longrightarrow> GetDigit x 0 AND 1 = 0 \<longleftrightarrow> even (bmag x)"
  using bmag_digit0 [of x] u32_odd_iff [of "GetDigit x 0"] by auto

lemma bmag_single: "GetLength x = 1 \<Longrightarrow> bmag x = unat (GetDigit x 0)"
  by (auto simp: GetLength_def bmag_def GetDigit_def length_Suc_conv)

lemma B_pow_limit: "B ^ (MAXSIZE - 1) \<le> 2 ^ n" if "32 * (MAXSIZE - 1) \<le> n"
proof -
  have "B ^ (MAXSIZE - 1) = (2 ^ 32) ^ (MAXSIZE - 1)" by simp
  also have "\<dots> = 2 ^ (32 * (MAXSIZE - 1))" by (rule power_mult [symmetric])
  also have "\<dots> \<le> (2 :: nat) ^ n" using that by (intro power_increasing) auto
  finally show ?thesis .
qed

lemma big_power_limit:
  assumes "2 \<le> \<bar>b\<bar>" "32 * (MAXSIZE - 1) \<le> n"
  shows "int (B ^ (MAXSIZE - 1)) \<le> \<bar>b ^ n\<bar>"
proof -
  have "int (B ^ (MAXSIZE - 1)) \<le> int (2 ^ n)"
    using B_pow_limit [OF assms(2)] by (simp only: of_nat_le_iff)
  also have "\<dots> = 2 ^ n" by simp
  also have "\<dots> \<le> \<bar>b\<bar> ^ n" using assms(1) by (intro power_mono) auto
  finally show ?thesis by (simp add: power_abs)
qed

lemma Exponentiate_two:
  assumes "e < B" "e div 32 + 1 \<le> MAXSIZE"
  defines "r \<equiv> SetDigit (NewBigInt (e div 32 + 1)) (e div 32) (push_bit (e mod 32) 1)"
  shows "bmag r = 2 ^ e" "wf_bigint r" "\<not> bi_sign r"
proof -
  have lt: "(2 :: nat) ^ (e mod 32) < 2 ^ 32" by (rule power_strict_increasing) auto
  then have d: "unat (push_bit (e mod 32) 1 :: u32) = 2 ^ (e mod 32)"
    by (simp only: unat_u32_push_bit) simp
  have ds: "bi_digits r = replicate (e div 32) 0 @ [push_bit (e mod 32) 1]"
    by (simp add: r_def list_update_append replicate_app_Cons_same [symmetric] flip: replicate_append_same)
  show s: "\<not> bi_sign r" by (simp add: r_def)
  have "bmag r = B ^ (e div 32) * 2 ^ (e mod 32)"
    using d by (simp add: bmag_def ds bval_append)
  also have "\<dots> = 2 ^ (32 * (e div 32) + e mod 32)"
    unfolding power_add power_mult by simp
  finally show "bmag r = 2 ^ e" by simp
  have "push_bit (e mod 32) 1 \<noteq> (0 :: u32)" using d by (metis unat_0 power_not_zero zero_neq_numeral)
  then show "wf_bigint r" using s assms(2) by (simp add: wf_bigint_def wf_digits_def ds)
qed

lemma Exponentiate_base_two:
  assumes wf: "wf_bigint base" "wf_bigint exponent" and pos: "\<not> bi_sign exponent"
    and nz: "\<not> IsZero exponent" "\<not> IsZero base" and len: "GetLength exponent = 1"
    and two: "GetLength base = 1" "GetDigit base 0 = 2"
  shows "case Exponentiate base exponent of
      Inr r \<Rightarrow> wf_bigint r \<and> bint r = bint base ^ bmag exponent
    | Inl e \<Rightarrow> e = max_size_error \<and> int (B ^ (MAXSIZE - 1)) \<le> \<bar>bint base ^ bmag exponent\<bar>"
proof -
  let ?e = "GetDigit exponent 0"
  have e: "bmag exponent = unat ?e" using bmag_single [OF len] .
  have m: "bmag base = 2" using bmag_single [OF two(1)] two(2) by simp
  show ?thesis
  proof (cases "unat ?e div 32 + 1 \<le> MAXSIZE")
    case True
    define r where "r = SetDigit (NewBigInt (unat ?e div 32 + 1)) (unat ?e div 32) (push_bit (unat ?e mod 32) 1)"
    have r: "bmag r = 2 ^ unat ?e" "wf_bigint r" "\<not> bi_sign r"
      using Exponentiate_two [OF unat_u32_lt True] by (simp_all add: r_def)
    have "Exponentiate base exponent = Inr (if bi_sign base then SetSign r (?e AND 1 \<noteq> 0) else r)"
      using True nz pos len two
      by (simp add: Exponentiate_def Let_def DATA_BITS_def CreateBigint_Inr r_def)
    moreover have "bint base ^ unat ?e = (if bi_sign base \<and> odd (unat ?e) then - (2 ^ unat ?e) else 2 ^ unat ?e)"
      using m by (simp add: bint_def)
    ultimately show ?thesis
      using r unfolding e u32_odd_iff by (auto simp: bint_def wf_bigint_def bmag_def)
  next
    case False
    then have "Exponentiate base exponent = Inl max_size_error"
      using nz pos len two
      by (simp add: Exponentiate_def Let_def DATA_BITS_def CreateBigint_Inl)
    moreover have "32 * (MAXSIZE - 1) \<le> unat ?e" using False by simp
    moreover have "2 \<le> \<bar>bint base\<bar>" using m by (simp add: bint_def)
    ultimately show ?thesis using big_power_limit [of "bint base"] by (simp add: e)
  qed
qed

lemma Exponentiate_correct:
  assumes wf: "wf_bigint base" "wf_bigint exponent" and pos: "\<not> bi_sign exponent"
  shows "case Exponentiate base exponent of
      Inr r \<Rightarrow> wf_bigint r \<and> bint r = bint base ^ bmag exponent
    | Inl e \<Rightarrow> e = max_size_error \<and> int (B ^ (MAXSIZE - 1)) \<le> \<bar>bint base ^ bmag exponent\<bar>"
    (is "?post (Exponentiate base exponent)")
proof -
  let ?e = "GetDigit exponent 0"
  consider (e0) "IsZero exponent" | (b0) "\<not> IsZero exponent" "IsZero base"
    | (b1) "\<not> IsZero exponent" "\<not> IsZero base" "GetLength base = 1" "GetDigit base 0 = 1"
    | (big) "\<not> IsZero exponent" "\<not> IsZero base" "\<not> (GetLength base = 1 \<and> GetDigit base 0 = 1)" by blast
  then show ?thesis
  proof cases
    case e0
    then show ?thesis
      using pos wf IsZero_iff [OF wf(2)]
      by (simp add: Exponentiate_def Int32ToBigInt_1 wf_bigint_one bint_one)
  next
    case b0
    then have "bint base = 0" "bmag exponent \<noteq> 0"
      using IsZero_iff [OF wf(2)] IsZero_iff [OF wf(1)] by simp_all
    then show ?thesis using b0 pos wf by (simp add: Exponentiate_def del: bint_eq_0_iff)
  next
    case b1
    have m: "bmag base = 1" using bmag_single [OF b1(3)] b1(4) by simp
    obtain n where n: "UnaryMinus base = Inr n" "wf_bigint n" "bint n = - bint base"
      by (rule UnaryMinus_correct [OF wf(1)])
    show ?thesis
      using b1 pos wf(1) n even_bmag [OF wf(2)] m
      by (cases "bi_sign base") (auto simp: Exponentiate_def Let_def bint_def)
  next
    case big
    have two: "2 \<le> \<bar>bint base\<bar>"
    proof -
      have nz: "bmag base \<noteq> 0" using big IsZero_iff [OF wf(1)] by simp
      have "bmag base \<noteq> 1"
      proof (cases "GetLength base = 1")
        case True
        then show ?thesis
          using big bmag_single [OF True] word_unat_eq_iff [of "GetDigit base 0" 1] by auto
      next
        case False
        then have "B ^ 1 \<le> B ^ (GetLength base - 1)"
          using wf_bigintD(3) [OF wf(1)] by (intro power_increasing) auto
        then show ?thesis using bmag_lower [OF wf(1) nz] by simp
      qed
      then show ?thesis using nz by (simp add: bint_def)
    qed
    show ?thesis
    proof (cases "GetLength exponent > 1")
      case True
      have "B ^ 1 \<le> B ^ (GetLength exponent - 1)" using True by (intro power_increasing) auto
      also have "\<dots> \<le> bmag exponent" using bmag_lower [OF wf(2)] big IsZero_iff [OF wf(2)] by simp
      finally have "32 * (MAXSIZE - 1) \<le> bmag exponent" by (simp add: MAXSIZE_eq)
      moreover have "Exponentiate base exponent = Inl max_size_error"
        using True big pos unfolding Exponentiate_def Let_def by auto
      ultimately show ?thesis using big_power_limit [OF two] by simp
    next
      case False
      then have len: "GetLength exponent = 1" using wf_bigintD(3) [OF wf(2)] by simp
      have e: "bmag exponent = unat ?e" using bmag_single [OF len] .
      show ?thesis
      proof (cases "GetLength base = 1 \<and> GetDigit base 0 = 2")
        case True
        then show ?thesis using Exponentiate_base_two [OF wf pos big(1,2) len] by blast
      next
        case False
        let ?r = "if ?e AND 1 \<noteq> 0 then Some base else None"
        have eq: "Exponentiate base exponent =
            bindE (exp_loop Multiply (drop_bit 1 ?e) base ?r) (\<lambda>res. Inr (the res))"
          using big pos False len unfolding Exponentiate_def Let_def by auto
        have nz: "bmag base \<noteq> 0" using big IsZero_iff [OF wf(1)] by simp
        have ne: "unat ?e \<noteq> 0" using e big IsZero_iff [OF wf(2)] by simp
        have "bigint_product.exp_post (bigint_product.acc ?r * bint base ^ (2 * unat (drop_bit 1 ?e)))
            (exp_loop Multiply (drop_bit 1 ?e) base ?r)"
          by (rule bigint_product.exp_loop_post)
            (use wf nz u32_halve [of ?e] ne in \<open>auto split: if_splits\<close>)
        moreover have "bigint_product.acc ?r * bint base ^ (2 * unat (drop_bit 1 ?e)) = bint base ^ bmag exponent"
          unfolding e by (subst (2) u32_halve) simp
        ultimately show ?thesis
          unfolding eq bigint_product.exp_post_def by (auto split: sum.splits option.splits)
      qed
    qed
  qed
qed

end
