(* ===== verification/BigInt_Div.thy ===== *)
theory BigInt_Div
  imports BigInt_Mul
begin

text \<open>
  Division of \<open>BigInt\<close> (js_bigint.cpp): the 64 by 32 bit division by half digits
  (\<open>DivideAndRemainder\<close>), Knuth's algorithm D on digit arrays
  (\<open>DivideAndRemainderWithBigintDivisor\<close>), the one-digit loop and the entry points
  \<open>Divide\<close>, \<open>Remainder\<close> and \<open>FloorMod\<close>.
\<close>

section \<open>Operations\<close>

definition CountLeadingZeros :: "'w::len word \<Rightarrow> nat" where
  "CountLeadingZeros w = length (takeWhile (\<lambda>i. \<not> bit w i) (rev [0..<LENGTH('w)]))"

lemma HALF_UINT32_VALUE_eq: "HALF_UINT32_VALUE = 65536"
  by (simp add: HALF_UINT32_VALUE_def HALF_DATA_BITS_def DATA_BITS_def)

lemma unat_pred_less: "(q :: u32) \<noteq> 0 \<Longrightarrow> unat (q - 1) < unat q"
  by (simp add: unat_minus_one unat_gt_0)

text \<open>
  The two correction loops of \<open>DivideAndRemainder\<close>. The condition of the loop is false
  for the quotient 0, so that it ends.
\<close>

function dr_adjust :: "u32 \<Rightarrow> u32 \<Rightarrow> u32 \<Rightarrow> u32 \<Rightarrow> u32 \<Rightarrow> u32" where
  "dr_adjust highDivisor lowDivisor lowDividend quot tempRemainder =
     (if quot \<ge> HALF_UINT32_VALUE
         \<or> quot * lowDivisor > tempRemainder * HALF_UINT32_VALUE + lowDividend then
        let quot' = quot - 1;
            tempRemainder' = tempRemainder + highDivisor
        in if tempRemainder' \<ge> HALF_UINT32_VALUE then quot'
           else dr_adjust highDivisor lowDivisor lowDividend quot' tempRemainder'
      else quot)"
  by pat_completeness auto

termination
proof (relation "measure (\<lambda>(hd, ld, l, q, r). unat q)")
  fix hd ld l q r q' r' :: u32
  assume *: "q \<ge> HALF_UINT32_VALUE \<or> q * ld > r * HALF_UINT32_VALUE + l" "q' = q - 1"
  have "q \<noteq> 0" using *(1) by (auto simp: HALF_UINT32_VALUE_eq)
  then show "((hd, ld, l, q', r'), hd, ld, l, q, r) \<in> measure (\<lambda>(hd, ld, l, q, r). unat q)"
    using unat_pred_less [of q] *(2) by simp
qed simp

declare dr_adjust.simps [simp del]

definition DivideAndRemainder :: "u32 \<Rightarrow> u32 \<Rightarrow> u32 \<Rightarrow> u32 \<times> u32" where
  "DivideAndRemainder highBit lowBit divisor =
     (let leadingZeros = CountLeadingZeros divisor;
          divisor = push_bit leadingZeros divisor;
          lowDividend = push_bit leadingZeros lowBit;
          highDividend =
            (if leadingZeros \<noteq> 0
             then push_bit leadingZeros highBit OR drop_bit (DATA_BITS - leadingZeros) lowBit
             else highBit);
          highDivisor = drop_bit HALF_DATA_BITS divisor;
          lowDivisor = divisor AND HALF_DATA_MASK;
          lowDividend1 = drop_bit HALF_DATA_BITS lowDividend;
          lowDividend2 = lowDividend AND HALF_DATA_MASK;
          highQuotient = highDividend div highDivisor;
          tempRemainder = highDividend - highQuotient * highDivisor;
          highQuotient = dr_adjust highDivisor lowDivisor lowDividend1 highQuotient tempRemainder;
          tempLowDividend = highDividend * HALF_UINT32_VALUE + lowDividend1 - highQuotient * divisor;
          lowQuotient = tempLowDividend div highDivisor;
          tempRemainder = tempLowDividend - lowQuotient * highDivisor;
          lowQuotient = dr_adjust highDivisor lowDivisor lowDividend2 lowQuotient tempRemainder;
          remainder = drop_bit leadingZeros
            (tempLowDividend * HALF_UINT32_VALUE + lowDividend2 - lowQuotient * divisor)
      in (highQuotient * HALF_UINT32_VALUE + lowQuotient, remainder))"

definition format_shift_step :: "nat \<Rightarrow> BigInt \<Rightarrow> nat \<Rightarrow> BigInt \<times> u32 \<Rightarrow> BigInt \<times> u32" where
  "format_shift_step shift bigint index s =
     (let (res, carry) = s;
          value = GetDigit bigint index
      in (SetDigit res index (push_bit shift value OR carry), drop_bit (DATA_BITS - shift) value))"

definition FormatLeftShift :: "nat \<Rightarrow> BigInt \<Rightarrow> bool \<Rightarrow> BigInt result" where
  "FormatLeftShift shift bigint needAddOne =
     (if \<not> needAddOne \<and> shift = 0 then Inr bigint
      else
        let len = GetLength bigint;
            needLen = (if needAddOne then len + 1 else len)
        in bindE (CreateBigint needLen) (\<lambda>res.
          if shift = 0 then Inr (for_up 0 len (\<lambda>i res. SetDigit res i (GetDigit bigint i)) res)
          else
            let (res, carry) = for_up 0 len (format_shift_step shift bigint) (res, 0)
            in Inr (if carry \<noteq> 0 then SetDigit res len carry else res)))"

text \<open>
  \<open>RightShift(bigint, bigint, 0, shift)\<close>: source and target are the same object, so
  that every round reads the digits as the earlier rounds left them.
\<close>

definition UnformattedRightShift :: "BigInt \<Rightarrow> nat \<Rightarrow> BigInt" where
  "UnformattedRightShift bigint shift =
     (let size = GetLength bigint in
      if shift = 0 then
        for_up 0 size (\<lambda>i bigint. SetDigit bigint (i - 0) (GetDigit bigint i)) bigint
      else
        let carry = drop_bit shift (GetDigit bigint 0);
            last = size - 0 - 1;
            (bigint, carry) =
              for_up 0 last (\<lambda>i s. right_shift_step (fst s) 0 shift i s) (bigint, carry)
        in SetDigit bigint last carry)"

text \<open>The product \<open>qv = v * q\<close>; the state is \<open>qv\<close>, \<open>lastCarry\<close> and \<open>lastHigh\<close>.\<close>

definition special_mul_step :: "BigInt \<Rightarrow> u32 \<Rightarrow> nat \<Rightarrow> BigInt \<times> u32 \<times> u32 \<Rightarrow> BigInt \<times> u32 \<times> u32" where
  "special_mul_step v q i s =
     (let (qv, lastCarry, lastHigh) = s;
          (high, value) = Mul (GetDigit v i) q;
          (value, carry) = AddHelper value lastHigh 0;
          (value, carry) = AddHelper value lastCarry carry
      in (SetDigit qv i value, carry, high))"

definition special_sub_step :: "BigInt \<Rightarrow> nat \<Rightarrow> nat \<Rightarrow> BigInt \<times> u32 \<Rightarrow> BigInt \<times> u32" where
  "special_sub_step qv pos i s =
     (let (u, lastBorrow) = s;
          (value, borrow) = SubHelper (GetDigit u (pos + i)) (GetDigit qv i) 0;
          (value, borrow) = SubHelper value lastBorrow borrow
      in (SetDigit u (pos + i) value, borrow))"

text \<open>The updated \<open>u\<close> and \<open>qv\<close>, and the result.\<close>

definition SpecialMultiplyAndSub :: "BigInt \<Rightarrow> BigInt \<Rightarrow> u32 \<Rightarrow> BigInt \<Rightarrow> nat \<Rightarrow> BigInt \<times> BigInt \<times> bool" where
  "SpecialMultiplyAndSub u v q qv pos =
     (let len = GetLength v;
          (qv, lastCarry, lastHigh) = for_up 0 len (special_mul_step v q) (qv, 0, 0);
          qv = SetDigit qv len (lastHigh + lastCarry);
          (u, lastBorrow) = for_up 0 (GetLength qv) (special_sub_step qv pos) (u, 0)
      in (u, qv, lastBorrow > 0))"

definition special_add_step :: "BigInt \<Rightarrow> nat \<Rightarrow> nat \<Rightarrow> BigInt \<times> u32 \<Rightarrow> BigInt \<times> u32" where
  "special_add_step v pos i s =
     (let (u, lastCarry) = s;
          (value, carry) = AddHelper (GetDigit u (pos + i)) (GetDigit v i) 0;
          (value, carry) = AddHelper value lastCarry carry
      in (SetDigit u (pos + i) value, carry))"

definition SpecialAdd :: "BigInt \<Rightarrow> BigInt \<Rightarrow> nat \<Rightarrow> BigInt \<times> u32" where
  "SpecialAdd u v pos = for_up 0 (GetLength v) (special_add_step v pos) (u, 0)"

lemma Mul_zero: "Mul 0 y = (h, l) \<Longrightarrow> h = 0 \<and> l = 0"
  using Mul_spec [of 0 y h l] by (simp add: unat_eq_0)

text \<open>The product of the loop test is at most 0 for \<open>q = 0\<close>, so that the loop ends.\<close>

function ImproveAccuracy :: "u32 \<Rightarrow> u32 \<Rightarrow> u32 \<Rightarrow> u32 \<Rightarrow> u32 \<Rightarrow> u32" where
  "ImproveAccuracy vHighest vHighestNext UHighest UHighestNext q =
     (let (high, low) = Mul q vHighestNext
      in if high > UHighest \<or> (high = UHighest \<and> low > UHighestNext) then
           let q' = q - 1; UHighest' = UHighest + vHighest
           in if UHighest' < vHighest then q'
              else ImproveAccuracy vHighest vHighestNext UHighest' UHighestNext q'
         else q)"
  by pat_completeness auto

termination
proof (relation "measure (\<lambda>(vh, vn, uh, un, q). unat q)")
  fix vh vn uh un q q' uh' :: u32 and p high low
  assume *: "p = Mul q vn" "(high, low) = p" "high > uh \<or> (high = uh \<and> low > un)" "q' = q - 1"
  have "q \<noteq> 0" using * Mul_zero [of vn high low] by (auto simp: not_less)
  then show "((vh, vn, uh', un, q'), vh, vn, uh, un, q) \<in> measure (\<lambda>(vh, vn, uh, un, q). unat q)"
    using unat_pred_less [of q] *(4) by simp
qed simp

declare ImproveAccuracy.simps [simp del]

text \<open>
  One round of algorithm D; the state is \<open>u\<close>, \<open>qv\<close> and the quotient, which only
  exists when the caller passed no remainder handle.
\<close>

definition knuth_step ::
  "BigInt \<Rightarrow> nat \<Rightarrow> u32 \<Rightarrow> nat \<Rightarrow> BigInt \<times> BigInt \<times> BigInt option \<Rightarrow> BigInt \<times> BigInt \<times> BigInt option" where
  "knuth_step v divisorLen vHighest i s =
     (let (u, qv, quotient) = s;
          currentUHighest = GetDigit u (i + divisorLen);
          (q, r) = DivideAndRemainder currentUHighest (GetDigit u (i + divisorLen - 1)) vHighest;
          q = (if vHighest = currentUHighest then - 1
               else ImproveAccuracy vHighest (GetDigit v (divisorLen - 2)) r
                      (GetDigit u (i + divisorLen - 2)) q);
          (u, qv, borrow) = SpecialMultiplyAndSub u v q qv i;
          (q, u) =
            (if borrow then
               let q = q - 1;
                   (u, carry) = SpecialAdd u v i
               in (q, SetDigit u (i + divisorLen) (GetDigit u (i + divisorLen) + carry))
             else (q, u))
      in (u, qv, case quotient of None \<Rightarrow> None | Some quot \<Rightarrow> Some (SetDigit quot i q)))"

text \<open>
  \<open>needRemainder\<close> is the test \<open>!remainder.GetTaggedValue().IsNull()\<close>. The results are
  the quotient handle (\<open>None\<close> while it is \<open>Null\<close>) and the remainder handle.
\<close>

definition DivideAndRemainderWithBigintDivisor ::
  "BigInt \<Rightarrow> BigInt \<Rightarrow> bool \<Rightarrow> (BigInt option \<times> BigInt option) result" where
  "DivideAndRemainderWithBigintDivisor dividend divisor needRemainder =
     (let divisorLen = GetLength divisor;
          quotientLen = GetLength dividend - divisorLen
      in bindE (if needRemainder then Inr None
                else bindE (CreateBigint (quotientLen + 1)) (\<lambda>quot. Inr (Some quot))) (\<lambda>quotient.
        let leadingZeros = CountLeadingZeros (GetDigit divisor (divisorLen - 1))
        in bindE (FormatLeftShift leadingZeros divisor False) (\<lambda>v.
           bindE (FormatLeftShift leadingZeros dividend True) (\<lambda>u.
           bindE (CreateBigint (divisorLen + 1)) (\<lambda>qv.
             let vHighest = GetDigit v (divisorLen - 1);
                 (u, qv, quotient) =
                   for_down (quotientLen + 1) (knuth_step v divisorLen vHighest) (u, qv, quotient)
             in Inr (quotient, if needRemainder then Some (UnformattedRightShift u leadingZeros) else None))))))"

definition DivideAndRemainderWithUint32Divisor ::
  "BigInt \<Rightarrow> u32 \<Rightarrow> bool \<Rightarrow> (BigInt option \<times> BigInt option) result" where
  "DivideAndRemainderWithUint32Divisor dividend divisor needRemainder =
     (if needRemainder then
        bindE (for_down (GetLength dividend)
            (\<lambda>i s. bindE s (\<lambda>(r, rem).
               let (q, r) = DivideAndRemainder r (GetDigit dividend i) divisor
               in bindE (Uint32ToBigInt r) (\<lambda>b. Inr (r, Some b))))
            (Inr (0, None)))
          (\<lambda>(r, rem). Inr (None, rem))
      else
        bindE (CreateBigint (GetLength dividend)) (\<lambda>quotient.
          let (quotient, r) =
            for_down (GetLength dividend)
              (\<lambda>i (quotient, r).
                 let (q, r) = DivideAndRemainder r (GetDigit dividend i) divisor
                 in (SetDigit quotient i q, r))
              (quotient, 0)
          in Inr (Some quotient, None)))"

definition div_by_zero_error :: js_error where
  "div_by_zero_error = RangeError ''Division by zero''"

definition Divide :: "BigInt \<Rightarrow> BigInt \<Rightarrow> BigInt result" where
  "Divide x y =
     (if IsZero y then Inl div_by_zero_error
      else
        let sign = (bi_sign x \<noteq> bi_sign y);
            compare = AbsolutelyCompare x y
        in if compare = LESS then Int32ToBigInt 0
           else if compare = EQUAL then bindE (Int32ToBigInt 1) (\<lambda>quotient. Inr (SetSign quotient sign))
           else if IsUint32 y \<and> GetDigit y 0 = 1 then
             (if sign = bi_sign x then Inr x else UnaryMinus x)
           else
             bindE (if IsUint32 y then DivideAndRemainderWithUint32Divisor x (GetDigit y 0) False
                    else DivideAndRemainderWithBigintDivisor x y False)
               (\<lambda>(quotient, remainder). RightTruncate (SetSign (the quotient) sign)))"

definition Remainder :: "BigInt \<Rightarrow> BigInt \<Rightarrow> BigInt result" where
  "Remainder n d =
     (if IsZero d then Inl div_by_zero_error
      else
        let compare = AbsolutelyCompare n d
        in if IsZero n \<or> compare = LESS then Inr n
           else if compare = EQUAL \<or> (IsUint32 d \<and> GetDigit d 0 = 1) then Int32ToBigInt 0
           else
             bindE (if IsUint32 d then DivideAndRemainderWithUint32Divisor n (GetDigit d 0) True
                    else DivideAndRemainderWithBigintDivisor n d True)
               (\<lambda>(quotient, remainder). RightTruncate (SetSign (the remainder) (bi_sign n))))"

definition FloorMod :: "BigInt \<Rightarrow> BigInt \<Rightarrow> BigInt result" where
  "FloorMod leftVal rightVal =
     bindE (Remainder leftVal rightVal) (\<lambda>remainder.
       if bi_sign leftVal \<and> \<not> IsZero remainder then Add remainder rightVal
       else Inr remainder)"

section \<open>Leading zeros\<close>

lemma CountLeadingZeros_less: "w \<noteq> 0 \<Longrightarrow> CountLeadingZeros (w :: 'w::len word) < LENGTH('w)"
proof -
  assume "w \<noteq> 0"
  then obtain n where n: "bit w n" by (auto simp: bit_eq_iff)
  then have "n \<in> set (rev [0..<LENGTH('w)])" using bit_imp_le_length [OF n] by simp
  then have "takeWhile (\<lambda>i. \<not> bit w i) (rev [0..<LENGTH('w)]) \<noteq> rev [0..<LENGTH('w)]"
    using n by (metis takeWhile_eq_all_conv)
  then have "length (takeWhile (\<lambda>i. \<not> bit w i) (rev [0..<LENGTH('w)])) \<noteq> LENGTH('w)"
    by (metis length_rev length_upt diff_zero takeWhile_eq_take take_all order_refl)
  moreover have "length (takeWhile (\<lambda>i. \<not> bit w i) (rev [0..<LENGTH('w)])) \<le> LENGTH('w)"
    using length_takeWhile_le [of _ "rev [0..<LENGTH('w)]"] by simp
  ultimately show ?thesis by (simp add: CountLeadingZeros_def)
qed

lemma CountLeadingZeros_bits:
  fixes w :: "'w::len word"
  defines "z \<equiv> CountLeadingZeros w"
  assumes "w \<noteq> 0"
  shows "bit w (LENGTH('w) - 1 - z)" and "LENGTH('w) - z \<le> i \<Longrightarrow> \<not> bit w i"
proof -
  have z: "z < LENGTH('w)" using CountLeadingZeros_less [OF assms(2)] by (simp add: z_def)
  have "\<not> \<not> bit w (rev [0..<LENGTH('w)] ! z)"
    using nth_length_takeWhile [of "\<lambda>i. \<not> bit w i" "rev [0..<LENGTH('w)]"] z
    unfolding z_def CountLeadingZeros_def by simp
  then show "bit w (LENGTH('w) - 1 - z)" using z by (simp add: rev_nth)
  assume i: "LENGTH('w) - z \<le> i"
  show "\<not> bit w i"
  proof (cases "i < LENGTH('w)")
    case True
    let ?j = "LENGTH('w) - 1 - i"
    have j: "?j < z" using i True z by linarith
    then have "takeWhile (\<lambda>i. \<not> bit w i) (rev [0..<LENGTH('w)]) ! ?j = rev [0..<LENGTH('w)] ! ?j"
      unfolding z_def CountLeadingZeros_def by (rule takeWhile_nth)
    moreover have "rev [0..<LENGTH('w)] ! ?j = i" using True by (simp add: rev_nth)
    ultimately have "i \<in> set (takeWhile (\<lambda>i. \<not> bit w i) (rev [0..<LENGTH('w)]))"
      using j unfolding z_def CountLeadingZeros_def by (metis nth_mem)
    then show ?thesis by (auto dest: set_takeWhileD)
  next
    case False
    then show ?thesis by (metis bit_imp_le_length)
  qed
qed

lemma CountLeadingZeros_bounds:
  fixes w :: "'w::len word"
  assumes "w \<noteq> 0"
  shows "2 ^ (LENGTH('w) - 1 - CountLeadingZeros w) \<le> unat w" "unat w < 2 ^ (LENGTH('w) - CountLeadingZeros w)"
proof -
  let ?z = "CountLeadingZeros w"
  have "bit (unat w) (LENGTH('w) - 1 - ?z)"
    using CountLeadingZeros_bits(1) [OF assms] by (simp add: bit_unsigned_iff)
  then show "2 ^ (LENGTH('w) - 1 - ?z) \<le> unat w"
    by (metis bit_nat_def dvd_0_right div_eq_0_iff not_le)
  have "bit w n \<Longrightarrow> n < LENGTH('w) - ?z" for n
    using CountLeadingZeros_bits(2) [OF assms] not_le by blast
  then have "take_bit (LENGTH('w) - ?z) (unat w) = unat w"
    by (intro bit_eqI) (auto simp: bit_take_bit_iff bit_unsigned_iff)
  then show "unat w < 2 ^ (LENGTH('w) - ?z)" by (simp add: take_bit_nat_eq_self_iff)
qed

lemma normalised_digit:
  assumes "(w :: u32) \<noteq> 0"
  shows "unat (push_bit (CountLeadingZeros w) w) = unat w * 2 ^ CountLeadingZeros w"
    and "2147483648 \<le> unat w * 2 ^ CountLeadingZeros w" and "unat w * 2 ^ CountLeadingZeros w < B"
proof -
  let ?z = "CountLeadingZeros w"
  have z: "?z < 32" using CountLeadingZeros_less [OF assms] by simp
  have "2 ^ (31 - ?z) * 2 ^ ?z \<le> unat w * 2 ^ ?z"
    using CountLeadingZeros_bounds(1) [OF assms] by (intro mult_le_mono1) simp
  then show "2147483648 \<le> unat w * 2 ^ ?z" using z by (simp flip: power_add)
  have "unat w * 2 ^ ?z < 2 ^ (32 - ?z) * 2 ^ ?z"
    using CountLeadingZeros_bounds(2) [OF assms] by (intro mult_strict_right_mono) auto
  then show lt: "unat w * 2 ^ ?z < B" using z by (simp flip: power_add)
  show "unat (push_bit ?z w) = unat w * 2 ^ ?z" using lt by (simp add: unat_u32_push_bit)
qed

section \<open>Dividing two digits by one\<close>

text \<open>
  One quotient digit in base \<open>b\<close> from the estimate by the high half of the divisor:
  the estimate never falls below the quotient, and is above it while the loop runs.
\<close>

lemma estimate_too_big:
  fixes q r b :: nat
  assumes "q * vh + r = uh" "r * b + ul < q * vl"
  shows "(uh * b + ul) div (vh * b + vl) < q"
proof -
  have "uh * b + ul < q * (vh * b + vl)"
    using assms(2) unfolding assms(1) [symmetric] by (simp add: algebra_simps)
  then show ?thesis by (simp add: div_less_iff_less_mult mult.commute less_mult_imp_div_less)
qed

lemma estimate_exact:
  fixes q r b :: nat
  assumes "q * vh + r = uh" "q * vl \<le> r * b + ul" "(uh * b + ul) div (vh * b + vl) \<le> q" "0 < vh * b + vl"
  shows "(uh * b + ul) div (vh * b + vl) = q"
proof -
  have "q * (vh * b + vl) \<le> uh * b + ul"
    using assms(2) unfolding assms(1) [symmetric] by (simp add: algebra_simps)
  then have "q \<le> (uh * b + ul) div (vh * b + vl)"
    using assms(4) by (simp add: less_eq_div_iff_mult_less_eq)
  with assms(3) show ?thesis by simp
qed

lemma quotient_digit_less:
  fixes b :: nat
  assumes "uh < v" "ul < b"
  shows "(uh * b + ul) div v < b"
proof -
  have "uh * b + ul < (uh + 1) * b" using assms(2) by simp
  also have "\<dots> \<le> v * b" using assms(1) by (intro mult_le_mono1) simp
  finally show ?thesis by (simp add: less_mult_imp_div_less mult.commute)
qed

lemma dr_adjust_spec:
  fixes hd ld l q r :: u32 and uh :: nat
  assumes v: "32768 \<le> unat hd" "unat hd < 65536" "unat ld < 65536" and l: "unat l < 65536"
    and uh: "uh < unat hd * 65536 + unat ld"
    and inv: "unat q * unat hd + unat r = uh" "unat r < 65536" "unat q \<le> 65537"
    and le: "(uh * 65536 + unat l) div (unat hd * 65536 + unat ld) \<le> unat q"
  shows "unat (dr_adjust hd ld l q r) = (uh * 65536 + unat l) div (unat hd * 65536 + unat ld)"
  using assms
proof (induction hd ld l q r rule: dr_adjust.induct)
  case (1 hd ld l q r)
  let ?v = "unat hd * 65536 + unat ld"
  let ?Q = "(uh * 65536 + unat l) div ?v"
  let ?c = "q \<ge> HALF_UINT32_VALUE \<or> q * ld > r * HALF_UINT32_VALUE + l"
  have pos: "0 < ?v" using 1(2) by simp
  have Q: "?Q < 65536" by (rule quotient_digit_less [OF 1(6,5)])
  have half: "unat HALF_UINT32_VALUE = 65536" by (simp add: HALF_UINT32_VALUE_eq)
  have rl: "unat (r * HALF_UINT32_VALUE + l) = unat r * 65536 + unat l"
    using 1(5,8) by (simp add: unat_u32_add unat_u32_mult half)
  have ql: "unat (q * ld) = unat q * unat ld" if "\<not> q \<ge> HALF_UINT32_VALUE"
  proof -
    have "unat q < 65536" using that by (simp add: word_le_nat_alt half)
    then show ?thesis using 1(4) by (intro half_mult) auto
  qed
  have cond: "?c \<longleftrightarrow> 65536 \<le> unat q \<or> unat r * 65536 + unat l < unat q * unat ld"
  proof (cases "q \<ge> HALF_UINT32_VALUE")
    case True
    then show ?thesis by (simp add: word_le_nat_alt half)
  next
    case False
    then show ?thesis using ql [OF False] rl by (simp add: word_le_nat_alt word_less_nat_alt half)
  qed
  show ?case
  proof (cases ?c)
    case False
    then have "unat q * unat ld \<le> unat r * 65536 + unat l" using cond by simp
    from estimate_exact [OF 1(7) this 1(10) pos] show ?thesis
      using False by (simp add: dr_adjust.simps [of hd ld l q r])
  next
    case True
    have less: "?Q < unat q"
      using cond True Q estimate_too_big [OF 1(7)] by auto
    then have "q \<noteq> 0" by auto
    then have q1: "unat (q - 1) = unat q - 1" by (simp add: unat_minus_one)
    have r1: "unat (r + hd) = unat r + unat hd" using 1(3,8) by (simp add: unat_u32_add)
    have inv: "unat (q - 1) * unat hd + unat (r + hd) = uh"
      using 1(7) less by (cases "unat q") (simp_all add: q1 r1)
    show ?thesis
    proof (cases "r + hd \<ge> HALF_UINT32_VALUE")
      case big: True
      have "(unat q - 1) * unat ld \<le> 65536 * 65536"
        using 1(4,9) by (intro mult_le_mono) auto
      also have "\<dots> \<le> unat (r + hd) * 65536 + unat l"
        using big by (simp add: word_le_nat_alt half)
      finally have "unat (q - 1) * unat ld \<le> unat (r + hd) * 65536 + unat l" by (simp add: q1)
      moreover have "?Q \<le> unat (q - 1)" using less q1 by simp
      ultimately have "?Q = unat (q - 1)"
        using estimate_exact [OF inv _ _ pos] by blast
      then show ?thesis using True big by (simp add: dr_adjust.simps [of hd ld l q r])
    next
      case small: False
      have "unat (dr_adjust hd ld l (q - 1) (r + hd)) = ?Q"
        by (rule 1(1) [OF True refl refl small 1(2-6) inv])
          (use small less q1 1(9) in \<open>auto simp: word_le_nat_alt half\<close>)
      then show ?thesis using True small by (simp add: dr_adjust.simps [of hd ld l q r])
    qed
  qed
qed

text \<open>The estimate the loop starts from.\<close>

lemma half_quotient:
  fixes hd ld l u :: u32
  assumes v: "32768 \<le> unat hd" "unat hd < 65536" "unat ld < 65536" and l: "unat l < 65536"
    and u: "unat u < unat hd * 65536 + unat ld"
  shows "unat (dr_adjust hd ld l (u div hd) (u - (u div hd) * hd))
    = (unat u * 65536 + unat l) div (unat hd * 65536 + unat ld)"
proof -
  have d: "unat (u div hd) = unat u div unat hd" by (simp add: unat_div)
  have le: "unat u div unat hd * unat hd \<le> unat u" by simp
  then have m: "unat (u div hd * hd) = unat u div unat hd * unat hd"
    using le_less_trans [OF le unat_u32_lt] by (simp add: unat_u32_mult d)
  have "u div hd * hd \<le> u" using le by (simp add: word_le_nat_alt m)
  then have r: "unat (u - u div hd * hd) = unat u mod unat hd"
    by (simp add: unat_u32_sub m minus_div_mult_eq_mod unat_mod)
  have "unat u < 65538 * unat hd" using u v by linarith
  then have "unat u div unat hd < 65538" by (simp add: less_mult_imp_div_less)
  then have q: "unat u div unat hd \<le> 65537" by simp
  have "(unat u * 65536 + unat l) div (unat hd * 65536 + unat ld) \<le> (unat u * 65536 + unat l) div (unat hd * 65536)"
    using v(1) by (intro div_le_mono2) auto
  also have "\<dots> = (unat u * 65536 + unat l) div 65536 div unat hd"
    by (simp only: mult.commute [of "unat hd" 65536] div_mult2_eq)
  also have "\<dots> = unat u div unat hd" using l by simp
  finally show ?thesis
    using v l u q by (intro dr_adjust_spec) (auto simp: d r intro: order_trans [OF less_imp_le [OF mod_less_divisor]] less_trans [OF mod_less_divisor])
qed

text \<open>The remainder after a quotient digit, computed modulo the word size.\<close>

lemma wrap_remainder:
  fixes u l q v :: u32
  assumes q: "unat q = (unat u * 65536 + unat l) div unat v" and v: "v \<noteq> 0"
  shows "unat (u * HALF_UINT32_VALUE + l - q * v) = (unat u * 65536 + unat l) mod unat v"
proof -
  let ?X = "unat u * 65536 + unat l" and ?Y = "unat q * unat v"
  have "?X - ?Y = ?X mod unat v" unfolding q by (simp add: minus_div_mult_eq_mod)
  moreover have "?Y \<le> ?X" unfolding q by simp
  then have "(of_nat (?X - ?Y) :: u32) = of_nat ?X - of_nat ?Y" by (rule of_nat_diff)
  then have "(of_nat (?X - ?Y) :: u32) = u * HALF_UINT32_VALUE + l - q * v"
    by (simp add: HALF_UINT32_VALUE_eq)
  moreover have "?X mod unat v < B"
    using unat_u32_lt [of v] v by (intro less_trans [OF mod_less_divisor]) (auto simp: unat_gt_0)
  moreover have "unat (of_nat (?X mod unat v) :: u32) = (?X mod unat v) mod 2 ^ 32"
    by (simp only: unat_of_nat) simp
  ultimately show ?thesis by simp
qed

lemma two_digit_division:
  fixes x b v :: nat
  shows "(x * b + l) div v = x div v * b + (x mod v * b + l) div v"
    and "(x * b + l) mod v = (x mod v * b + l) mod v"
proof -
  have "x * b = (x div v * v + x mod v) * b" by (simp only: div_mult_mod_eq)
  then have x: "x * b + l = (x div v * b) * v + (x mod v * b + l)"
    by (simp only: distrib_right mult.assoc mult.commute [of b] add.assoc)
  show "(x * b + l) div v = x div v * b + (x mod v * b + l) div v"
  proof (cases "v = 0")
    case False
    then show ?thesis unfolding x by (rule div_mult_self3)
  qed simp
  show "(x * b + l) mod v = (x mod v * b + l) mod v"
    unfolding x by (rule mod_mult_self3)
qed

lemma DivideAndRemainder_spec:
  assumes dr: "DivideAndRemainder h l d = (q, r)" and lt: "unat h < unat d"
  shows "unat q = (unat h * B + unat l) div unat d" "unat r = (unat h * B + unat l) mod unat d"
proof -
  define s where "s = CountLeadingZeros d"
  have d0: "d \<noteq> 0" using lt by auto
  then have s: "s < 32" using CountLeadingZeros_less [of d] by (simp add: s_def)
  define v where "v = push_bit s d"
  have v: "unat v = unat d * 2 ^ s" "2147483648 \<le> unat v"
    using normalised_digit [OF d0] by (simp_all add: v_def s_def)
  define U where "U = (if s \<noteq> 0 then push_bit s h OR drop_bit (32 - s) l else h)"
  define L where "L = push_bit s l"
  have c: "unat (drop_bit (32 - s) l) < 2 ^ s" using s by (intro drop_bit_u32_lt) simp
  have h: "(unat h + 1) * 2 ^ s \<le> unat v" unfolding v using lt by (intro mult_le_mono1) simp
  have hB: "unat h * 2 ^ s < B" using h unat_u32_lt [of v] by simp
  have L: "unat L + B * unat (drop_bit (32 - s) l) = unat l * 2 ^ s"
    using shl_digit [of s 0 l] s by (simp add: L_def)
  have U: "unat U = unat h * 2 ^ s + unat (drop_bit (32 - s) l)"
  proof (cases "s = 0")
    case True
    then show ?thesis using c by (simp add: U_def)
  next
    case False
    then show ?thesis using unat_shl_or [OF _ c, of h] s hB by (simp add: U_def)
  qed
  have N: "unat U * B + unat L = (unat h * B + unat l) * 2 ^ s"
    using L unfolding U by (simp add: algebra_simps)
  have Uv: "unat U < unat v" using U c h by simp
  define vh vl l1 l2 where w: "vh = drop_bit HALF_DATA_BITS v" "vl = v AND HALF_DATA_MASK"
    "l1 = drop_bit HALF_DATA_BITS L" "l2 = L AND HALF_DATA_MASK"
  have n: "unat vh = unat v div 65536" "unat vl = unat v mod 65536"
    "unat l1 = unat L div 65536" "unat l2 = unat L mod 65536"
    by (simp_all add: w unat_half unat_u32_drop_bit HALF_bits)
  have v2: "unat vh * 65536 + unat vl = unat v" and Ll: "unat L = unat l1 * 65536 + unat l2"
    by (simp_all add: n)
  have b: "32768 \<le> unat vh" "unat vh < 65536" "unat vl < 65536" "unat l1 < 65536" "unat l2 < 65536"
    using v(2) unat_u32_lt [of v] unat_u32_lt [of L] by (simp_all add: n)
  define q1 where "q1 = dr_adjust vh vl l1 (U div vh) (U - (U div vh) * vh)"
  define t where "t = U * HALF_UINT32_VALUE + l1 - q1 * v"
  define q2 where "q2 = dr_adjust vh vl l2 (t div vh) (t - (t div vh) * vh)"
  have v0: "v \<noteq> 0" using v(2) by auto
  have q1: "unat q1 = (unat U * 65536 + unat l1) div unat v"
    using half_quotient [OF b(1-4), of U] Uv by (simp add: q1_def v2)
  have t: "unat t = (unat U * 65536 + unat l1) mod unat v"
    using wrap_remainder [OF q1 v0] by (simp add: t_def)
  have tv: "unat t < unat v" unfolding t using v(2) by (intro mod_less_divisor) simp
  have q2: "unat q2 = (unat t * 65536 + unat l2) div unat v"
    using half_quotient [OF b(1-3) b(5), of t] tv by (simp add: q2_def v2)
  have digits: "unat q1 < 65536" "unat q2 < 65536"
    unfolding q1 q2 by (intro quotient_digit_less Uv tv b)+
  have dv: "(unat U * B + unat L) = (unat U * 65536 + unat l1) * 65536 + unat l2"
    unfolding Ll by simp
  have res: "(q1 * HALF_UINT32_VALUE + q2, drop_bit s (t * HALF_UINT32_VALUE + l2 - q2 * v)) = (q, r)"
    using dr unfolding DivideAndRemainder_def Let_def DATA_BITS_def q2_def t_def q1_def w U_def L_def v_def s_def
    by assumption
  have "unat q = unat q1 * 65536 + unat q2"
    using res digits by (auto simp: unat_u32_add unat_u32_mult HALF_UINT32_VALUE_eq)
  also have "\<dots> = (unat U * B + unat L) div unat v"
    unfolding dv q1 q2 t by (rule two_digit_division(1) [symmetric])
  also have "\<dots> = (unat h * B + unat l) div unat d" unfolding N v by simp
  finally show "unat q = (unat h * B + unat l) div unat d" .
  have "unat r = (unat t * 65536 + unat l2) mod unat v div 2 ^ s"
    using res wrap_remainder [OF q2 v0] by (auto simp: unat_u32_drop_bit)
  also have "(unat t * 65536 + unat l2) mod unat v = (unat U * B + unat L) mod unat v"
    unfolding dv t by (rule two_digit_division(2) [symmetric])
  also have "\<dots> = (unat h * B + unat l) mod unat d * 2 ^ s" unfolding N v by (rule mult_mod_left [symmetric])
  finally show "unat r = (unat h * B + unat l) mod unat d" by simp
qed

section \<open>Segments of a digit array\<close>

text \<open>The value of the \<open>n\<close> digits from \<open>pos\<close> on, and a loop that only changes digits from \<open>pos\<close> to \<open>pos + i\<close>.\<close>

definition seg :: "u32 list \<Rightarrow> nat \<Rightarrow> nat \<Rightarrow> nat" where
  "seg ds pos n = bval (take n (drop pos ds))"

definition same_outside :: "nat \<Rightarrow> nat \<Rightarrow> u32 list \<Rightarrow> u32 list \<Rightarrow> bool" where
  "same_outside pos i ds0 ds \<longleftrightarrow>
     length ds = length ds0 \<and> take pos ds = take pos ds0 \<and> drop (pos + i) ds = drop (pos + i) ds0"

lemma seg_0 [simp]: "seg ds pos 0 = 0"
  by (simp add: seg_def)

lemma seg_Suc: "pos + i < length ds \<Longrightarrow> seg ds pos (Suc i) = seg ds pos i + B ^ i * unat (ds ! (pos + i))"
  by (simp add: seg_def bval_take_Suc)

lemma seg_update:
  "pos + i < length ds \<Longrightarrow> seg (ds[pos + i := d]) pos (Suc i) = seg ds pos i + B ^ i * unat d"
  by (simp add: seg_def drop_update_swap bval_append)

lemma seg_split:
  "pos + n \<le> length ds \<Longrightarrow> bval ds = bval (take pos ds) + B ^ pos * (seg ds pos n + B ^ n * bval (drop (pos + n) ds))"
  using bval_take_drop [of ds pos] bval_take_drop [of "drop pos ds" n]
  by (simp add: seg_def add.commute)

lemma same_outside_refl [simp]: "same_outside pos i ds ds"
  by (simp add: same_outside_def)

lemma same_outside_nth: "same_outside pos i ds0 ds \<Longrightarrow> pos + i < length ds \<Longrightarrow> ds ! (pos + i) = ds0 ! (pos + i)"
  unfolding same_outside_def by (metis hd_drop_conv_nth)

lemma same_outside_step:
  "same_outside pos i ds0 ds \<Longrightarrow> same_outside pos (Suc i) ds0 (ds[pos + i := d])"
  unfolding same_outside_def using drop_eq_Suc [of "pos + i" ds ds0] by simp

lemma same_outside_trans:
  "same_outside pos i ds0 ds1 \<Longrightarrow> same_outside pos i ds1 ds2 \<Longrightarrow> same_outside pos i ds0 ds2"
  by (simp add: same_outside_def)

lemma same_outside_mono:
  assumes "same_outside pos i ds0 ds" "i \<le> j"
  shows "same_outside pos j ds0 ds"
proof -
  have "drop (j - i) (drop (pos + i) ds) = drop (j - i) (drop (pos + i) ds0)"
    using assms(1) by (simp add: same_outside_def)
  then show ?thesis using assms by (simp add: same_outside_def add.commute)
qed

lemma same_outside_value:
  assumes "same_outside pos n ds0 ds" "pos + n \<le> length ds0"
  shows "bval ds + B ^ pos * seg ds0 pos n = bval ds0 + B ^ pos * seg ds pos n"
  using seg_split [of pos n ds] seg_split [of pos n ds0] assms
  by (simp add: same_outside_def algebra_simps)

lemma special_mul_loop:
  fixes qv :: BigInt
  assumes "n \<le> GetLength v" "n \<le> length (bi_digits qv)"
  shows "case for_up 0 n (special_mul_step v q) (qv, 0, 0) of (qv', c, h) \<Rightarrow>
    length (bi_digits qv') = length (bi_digits qv) \<and> unat c \<le> 2 \<and>
    bval (take n (bi_digits qv')) + B ^ n * (unat c + unat h) = unat q * bval (take n (bi_digits v))"
proof -
  let ?I = "\<lambda>i (qv' :: BigInt, c :: u32, h :: u32). length (bi_digits qv') = length (bi_digits qv) \<and> unat c \<le> 2 \<and>
    bval (take i (bi_digits qv')) + B ^ i * (unat c + unat h) = unat q * bval (take i (bi_digits v))"
  have "?I n (for_up 0 n (special_mul_step v q) (qv, 0, 0))"
  proof (rule for_up_inv [where I = ?I])
    fix i and s :: "BigInt \<times> u32 \<times> u32"
    assume i: "i < n" and inv: "?I i s"
    obtain b c h where s: "s = (b, c, h)" by (cases s) auto
    obtain h' l where m: "Mul (GetDigit v i) q = (h', l)" by fastforce
    obtain v1 c1 where h1: "AddHelper l h 0 = (v1, c1)" by fastforce
    obtain v2 c2 where h2: "AddHelper v1 c c1 = (v2, c2)" by fastforce
    have c: "unat c1 \<le> 1" "unat c2 \<le> 2"
      using AddHelper_spec(2) [OF h1] AddHelper_spec(2) [OF h2] by auto
    have I: "length (bi_digits b) = length (bi_digits qv)"
      "bval (take i (bi_digits b)) + B ^ i * (unat c + unat h) = unat q * bval (take i (bi_digits v))"
      using inv by (auto simp: s)
    have "unat v2 + B * unat c2 = unat l + unat h + unat c"
      using AddHelper_spec(1) [OF h1] AddHelper_spec(1) [OF h2] c by simp
    then have "unat v2 + B * (unat c2 + unat h') = unat (GetDigit v i) * unat q + (unat c + unat h)"
      using Mul_spec [OF m] by (simp add: algebra_simps)
    from bval_carry_step [OF _ this I(2)] I(1) i assms
    have "bval (take (Suc i) ((bi_digits b)[i := v2])) + B ^ Suc i * (unat c2 + unat h')
        = unat q * bval (take (Suc i) (bi_digits v))"
      by (simp add: bval_take_Suc GetLength_def GetDigit_def algebra_simps)
    moreover have "special_mul_step v q i s = (SetDigit b i v2, c2, h')"
      by (simp add: special_mul_step_def s m h1 h2)
    ultimately show "?I (Suc i) (special_mul_step v q i s)" using I c by simp
  qed auto
  then show ?thesis by (auto split: prod.splits)
qed

lemma special_sub_loop:
  fixes u :: BigInt
  assumes "n \<le> GetLength qv" "pos + n \<le> length (bi_digits u)"
  shows "case for_up 0 n (special_sub_step qv pos) (u, 0) of (u', c) \<Rightarrow>
    same_outside pos n (bi_digits u) (bi_digits u') \<and> unat c \<le> 1 \<and>
    seg (bi_digits u') pos n + bval (take n (bi_digits qv)) = seg (bi_digits u) pos n + B ^ n * unat c"
proof -
  let ?I = "\<lambda>i (u' :: BigInt, c :: u32). same_outside pos i (bi_digits u) (bi_digits u') \<and> unat c \<le> 1 \<and>
    seg (bi_digits u') pos i + bval (take i (bi_digits qv)) = seg (bi_digits u) pos i + B ^ i * unat c"
  have "?I n (for_up 0 n (special_sub_step qv pos) (u, 0))"
  proof (rule for_up_inv [where I = ?I])
    fix i and s :: "BigInt \<times> u32"
    assume i: "i < n" and inv: "?I i s"
    obtain b c where s: "s = (b, c)" by (cases s) auto
    obtain v1 c1 where h1: "SubHelper (GetDigit b (pos + i)) (GetDigit qv i) 0 = (v1, c1)" by fastforce
    obtain v2 c2 where h2: "SubHelper v1 c c1 = (v2, c2)" by fastforce
    have I: "same_outside pos i (bi_digits u) (bi_digits b)" "unat c \<le> 1"
      "seg (bi_digits b) pos i + bval (take i (bi_digits qv)) = seg (bi_digits u) pos i + B ^ i * unat c"
      using inv by (auto simp: s)
    have len: "pos + i < length (bi_digits b)" "pos + i < length (bi_digits u)"
      using I(1) i assms(2) by (auto simp: same_outside_def)
    have c1: "unat c1 \<le> 1" using SubHelper_spec(2) [OF h1] by auto
    have eq: "unat v2 + unat (GetDigit qv i) + unat c = unat (bi_digits u ! (pos + i)) + B * unat c2"
      using SubHelper_spec(1) [OF h1] SubHelper_spec(1) [OF h2] c1 same_outside_nth [OF I(1) len(1)]
      by (simp add: GetDigit_def)
    have c2: "unat c2 \<le> 1"
      using eq I(2) unat_u32_lt [of v2] unat_u32_lt [of "GetDigit qv i"] by linarith
    have "B ^ i * (unat v2 + unat (GetDigit qv i) + unat c) = B ^ i * (unat (bi_digits u ! (pos + i)) + B * unat c2)"
      using eq by simp
    then have "seg ((bi_digits b)[pos + i := v2]) pos (Suc i) + bval (take (Suc i) (bi_digits qv))
        = seg (bi_digits u) pos (Suc i) + B ^ Suc i * unat c2"
      using I(3) i assms(1) unfolding seg_update [OF len(1)] seg_Suc [OF len(2)]
      by (simp add: bval_take_Suc GetLength_def GetDigit_def algebra_simps)
    moreover have "special_sub_step qv pos i s = (SetDigit b (pos + i) v2, c2)"
      by (simp add: special_sub_step_def s h1 h2)
    ultimately show "?I (Suc i) (special_sub_step qv pos i s)"
      using same_outside_step [OF I(1)] c2 by simp
  qed auto
  then show ?thesis by (auto split: prod.splits)
qed

lemma special_add_loop:
  fixes u :: BigInt
  assumes "n \<le> GetLength v" "pos + n \<le> length (bi_digits u)"
  shows "case for_up 0 n (special_add_step v pos) (u, 0) of (u', c) \<Rightarrow>
    same_outside pos n (bi_digits u) (bi_digits u') \<and> unat c \<le> 1 \<and>
    seg (bi_digits u') pos n + B ^ n * unat c = seg (bi_digits u) pos n + bval (take n (bi_digits v))"
proof -
  let ?I = "\<lambda>i (u' :: BigInt, c :: u32). same_outside pos i (bi_digits u) (bi_digits u') \<and> unat c \<le> 1 \<and>
    seg (bi_digits u') pos i + B ^ i * unat c = seg (bi_digits u) pos i + bval (take i (bi_digits v))"
  have "?I n (for_up 0 n (special_add_step v pos) (u, 0))"
  proof (rule for_up_inv [where I = ?I])
    fix i and s :: "BigInt \<times> u32"
    assume i: "i < n" and inv: "?I i s"
    obtain b c where s: "s = (b, c)" by (cases s) auto
    obtain v1 c1 where h1: "AddHelper (GetDigit b (pos + i)) (GetDigit v i) 0 = (v1, c1)" by fastforce
    obtain v2 c2 where h2: "AddHelper v1 c c1 = (v2, c2)" by fastforce
    have I: "same_outside pos i (bi_digits u) (bi_digits b)" "unat c \<le> 1"
      "seg (bi_digits b) pos i + B ^ i * unat c = seg (bi_digits u) pos i + bval (take i (bi_digits v))"
      using inv by (auto simp: s)
    have len: "pos + i < length (bi_digits b)" "pos + i < length (bi_digits u)"
      using I(1) i assms(2) by (auto simp: same_outside_def)
    have c1: "unat c1 \<le> 1" using AddHelper_spec(2) [OF h1] by auto
    have eq: "unat v2 + B * unat c2 = unat (bi_digits u ! (pos + i)) + unat (GetDigit v i) + unat c"
      using AddHelper_spec(1) [OF h1] AddHelper_spec(1) [OF h2] c1 same_outside_nth [OF I(1) len(1)]
      by (simp add: GetDigit_def)
    have c2: "unat c2 \<le> 1"
      using eq I(2) unat_u32_lt [of "bi_digits u ! (pos + i)"] unat_u32_lt [of "GetDigit v i"] by linarith
    have "B ^ i * (unat v2 + B * unat c2) = B ^ i * (unat (bi_digits u ! (pos + i)) + unat (GetDigit v i) + unat c)"
      using eq by simp
    then have "seg ((bi_digits b)[pos + i := v2]) pos (Suc i) + B ^ Suc i * unat c2
        = seg (bi_digits u) pos (Suc i) + bval (take (Suc i) (bi_digits v))"
      using I(3) i assms(1) unfolding seg_update [OF len(1)] seg_Suc [OF len(2)]
      by (simp add: bval_take_Suc GetLength_def GetDigit_def algebra_simps)
    moreover have "special_add_step v pos i s = (SetDigit b (pos + i) v2, c2)"
      by (simp add: special_add_step_def s h1 h2)
    ultimately show "?I (Suc i) (special_add_step v pos i s)"
      using same_outside_step [OF I(1)] c2 by simp
  qed auto
  then show ?thesis by (auto split: prod.splits)
qed

lemma seg_lt: "seg ds pos n < B ^ n"
  unfolding seg_def by (rule less_le_trans [OF bval_lt power_increasing]) auto

lemma SpecialMultiplyAndSub_spec:
  fixes u v qv :: BigInt
  defines "n \<equiv> GetLength v"
  assumes "length (bi_digits qv) = n + 1" "pos + n + 1 \<le> length (bi_digits u)"
  obtains u' qv' borrow where "SpecialMultiplyAndSub u v q qv pos = (u', qv', borrow)"
    "length (bi_digits qv') = n + 1" "same_outside pos (n + 1) (bi_digits u) (bi_digits u')"
    "seg (bi_digits u') pos (n + 1) + unat q * bmag v =
       seg (bi_digits u) pos (n + 1) + (if borrow then B ^ (n + 1) else 0)"
proof -
  obtain b c h where ml: "for_up 0 n (special_mul_step v q) (qv, 0, 0) = (b, c, h)" by (metis prod_cases3)
  have M: "length (bi_digits b) = n + 1" "unat c \<le> 2"
    "bval (take n (bi_digits b)) + B ^ n * (unat c + unat h) = unat q * bmag v"
    using special_mul_loop [of n v qv q] assms(2) unfolding ml by (auto simp: n_def bmag_def GetLength_def)
  have "unat q * bmag v < B * B ^ n"
    using unat_u32_lt [of q] bval_lt [of "bi_digits v"]
    by (intro mult_strict_mono) (auto simp: bmag_def n_def GetLength_def)
  then have "B ^ n * (unat c + unat h) < B ^ n * B" using M(3) unfolding mult.commute [of B] by linarith
  then have "unat c + unat h < B" by simp
  then have hc: "unat (h + c) = unat c + unat h" by (simp add: unat_u32_add add.commute)
  define qv' where "qv' = SetDigit b n (h + c)"
  have len: "length (bi_digits qv') = n + 1" using M(1) by (simp add: qv'_def)
  have qv': "bmag qv' = unat q * bmag v"
  proof -
    have "bi_digits qv' = take n (bi_digits b) @ [h + c]"
      using take_Suc_update [of n "bi_digits b" "h + c"] M(1) by (simp add: qv'_def del: take_Suc_update)
    then show ?thesis using M by (simp add: bmag_def bval_append hc)
  qed
  obtain u' c' where sl: "for_up 0 (n + 1) (special_sub_step qv' pos) (u, 0) = (u', c')" by fastforce
  have S: "same_outside pos (n + 1) (bi_digits u) (bi_digits u')" "unat c' \<le> 1"
    "seg (bi_digits u') pos (n + 1) + bmag qv' = seg (bi_digits u) pos (n + 1) + B ^ (n + 1) * unat c'"
    using special_sub_loop [of "n + 1" qv' pos u] assms(3) len unfolding sl
    by (auto simp: bmag_def GetLength_def)
  have "SpecialMultiplyAndSub u v q qv pos = (u', qv', c' > 0)"
    using ml sl len by (simp add: SpecialMultiplyAndSub_def n_def qv'_def GetLength_def)
  moreover have "unat c' = (if c' > 0 then 1 else 0)"
    using S(2) by (auto simp: word_less_nat_alt)
  ultimately show thesis using that [OF _ len S(1)] S(3) by (simp add: qv')
qed

section \<open>The quotient digit of algorithm D\<close>

text \<open>
  \<open>U3\<close> are the three leading digits of the dividend segment, \<open>V2\<close> the two leading
  digits of the divisor; \<open>P\<close> is the weight of the digits below them.
\<close>

lemma knuth_lower:
  fixes q V2 U3 P :: nat
  assumes "W < (U3 + 1) * P" "V2 * P \<le> v" "U3 < q * V2"
  shows "W < q * v"
proof -
  have "(U3 + 1) * P \<le> q * V2 * P" using assms(3) by (intro mult_le_mono1) simp
  also have "\<dots> = q * (V2 * P)" by (simp add: mult.assoc)
  also have "\<dots> \<le> q * v" using assms(2) by (rule mult_le_mono2)
  finally show ?thesis using assms(1) by linarith
qed

lemma knuth_upper:
  fixes q V2 U3 P b :: nat
  assumes "U3 * P \<le> W" "v < (V2 + 1) * P" "q * V2 \<le> U3" "q \<le> V2 + 1"
  shows "(q - 1) * v \<le> W"
proof (cases q)
  case (Suc k)
  have "k * v \<le> k * ((V2 + 1) * P)" using assms(2) by (intro mult_le_mono2) simp
  also have "\<dots> = k * (V2 + 1) * P" by (simp only: mult.assoc)
  also have "k * (V2 + 1) \<le> U3" using assms(3,4) Suc by (simp add: algebra_simps)
  then have "k * (V2 + 1) * P \<le> U3 * P" by (rule mult_le_mono1)
  finally show ?thesis using assms(1) Suc by simp
qed simp

lemma lex_digits: "l < B \<Longrightarrow> un < B \<Longrightarrow> uh < h \<or> (h = uh \<and> un < l) \<longleftrightarrow> uh * B + un < h * B + l"
  by auto

lemma u32_overflow: "(x :: u32) + y < y \<longleftrightarrow> B \<le> unat x + unat y"
  using unat_u32_lt [of x] unat_u32_lt [of y] by (auto simp: word_less_nat_alt unat_u32_add_if)

lemma ImproveAccuracy_spec:
  fixes vh vn uh un q :: u32 and U Q :: nat
  assumes "unat q * unat vh + unat uh = U" "Q \<le> unat q"
    and "\<And>k. U * B + unat un < k * (unat vh * B + unat vn) \<Longrightarrow> Q < k"
  shows "Q \<le> unat (ImproveAccuracy vh vn uh un q) \<and>
    unat (ImproveAccuracy vh vn uh un q) * (unat vh * B + unat vn) \<le> U * B + unat un"
  using assms
proof (induction vh vn uh un q rule: ImproveAccuracy.induct)
  case (1 vh vn uh un q)
  obtain h l where m: "Mul q vn = (h, l)" by fastforce
  let ?c = "h > uh \<or> (h = uh \<and> l > un)"
  have ml: "unat h * B + unat l = unat q * unat vn" using Mul_spec [OF m] by simp
  have cond: "?c \<longleftrightarrow> unat uh * B + unat un < unat q * unat vn"
    using lex_digits [of "unat l" "unat un" "unat uh" "unat h", OF unat_u32_lt unat_u32_lt] unfolding ml
    by (simp add: word_less_nat_alt word_unat_eq_iff)
  show ?case
  proof (cases ?c)
    case False
    then have le: "unat q * unat vn \<le> unat uh * B + unat un" using cond by simp
    have "unat q * (unat vh * B + unat vn) \<le> U * B + unat un"
      unfolding 1(2) [symmetric] using le by (simp add: algebra_simps)
    moreover have "ImproveAccuracy vh vn uh un q = q"
      by (simp only: ImproveAccuracy.simps [of vh vn uh un q] m Let_def case_prod_conv False if_False)
    ultimately show ?thesis using 1(3) by simp
  next
    case True
    then have "unat uh * B + unat un < unat q * unat vn" using cond by simp
    then have "U * B + unat un < unat q * (unat vh * B + unat vn)"
      unfolding 1(2) [symmetric] by (simp add: algebra_simps)
    then have less: "Q < unat q" by (rule 1(4))
    then have "q \<noteq> 0" by auto
    then have q1: "unat (q - 1) = unat q - 1" by (simp add: unat_minus_one)
    have inv: "unat (q - 1) * unat vh + (unat uh + unat vh) = U"
      using 1(2) less by (cases "unat q") (simp_all add: q1)
    show ?thesis
    proof (cases "uh + vh < vh")
      case over: True
      then have "B * B \<le> (unat uh + unat vh) * B" by (intro mult_le_mono1) (simp add: u32_overflow)
      moreover have "unat (q - 1) * unat vn \<le> B * B"
        using unat_u32_lt [of "q - 1"] unat_u32_lt [of vn] by (intro mult_le_mono) auto
      ultimately have "unat (q - 1) * unat vn \<le> (unat uh + unat vh) * B + unat un" by linarith
      then have "unat (q - 1) * (unat vh * B + unat vn) \<le> U * B + unat un"
        unfolding inv [symmetric] by (simp add: algebra_simps)
      then show ?thesis using True over less q1 by (simp add: ImproveAccuracy.simps [of vh vn uh un q] m)
    next
      case fits: False
      then have "unat (uh + vh) = unat uh + unat vh" by (simp add: u32_overflow unat_u32_add)
      then have "Q \<le> unat (ImproveAccuracy vh vn (uh + vh) un (q - 1)) \<and>
          unat (ImproveAccuracy vh vn (uh + vh) un (q - 1)) * (unat vh * B + unat vn) \<le> U * B + unat un"
        using less q1 inv by (intro 1(1) [OF m [symmetric] refl True refl refl fits _ _ 1(4)]) auto
      then show ?thesis using True fits by (simp add: ImproveAccuracy.simps [of vh vn uh un q] m)
    qed
  qed
qed

text \<open>The digit that a round of the main loop tries first.\<close>

definition knuth_guess :: "BigInt \<Rightarrow> BigInt \<Rightarrow> nat \<Rightarrow> u32" where
  "knuth_guess u v i =
     (let n = GetLength v; vH = GetDigit v (n - 1);
          (q, r) = DivideAndRemainder (GetDigit u (i + n)) (GetDigit u (i + n - 1)) vH
      in if vH = GetDigit u (i + n) then - 1
         else ImproveAccuracy vH (GetDigit v (n - 2)) r (GetDigit u (i + n - 2)) q)"

lemma less_times_imp: "(W :: nat) < k * v \<Longrightarrow> W div v < k"
  by (simp add: less_mult_imp_div_less mult.commute)

lemma knuth_guess_spec:
  fixes u v :: BigInt and i :: nat
  defines "n \<equiv> GetLength v"
  defines "W \<equiv> seg (bi_digits u) i (n + 1)"
  assumes n: "2 \<le> n" and norm: "2147483648 \<le> unat (GetDigit v (n - 1))"
    and len: "i + n + 1 \<le> length (bi_digits u)" and W: "W < B * bmag v"
  shows "W div bmag v \<le> unat (knuth_guess u v i)" "unat (knuth_guess u v i) \<le> W div bmag v + 1"
proof -
  obtain k where k: "n = k + 2" using n by (metis add.commute le_Suc_ex)
  define uH u1 u2 vH vN where d: "uH = GetDigit u (i + n)" "u1 = GetDigit u (i + n - 1)" "u2 = GetDigit u (i + n - 2)"
    "vH = GetDigit v (n - 1)" "vN = GetDigit v (n - 2)"
  define P where "P = B ^ k"
  define U where "U = unat uH * B + unat u1"
  define V where "V = unat vH * B + unat vN"
  have P: "0 < P" by (simp add: P_def)
  have Weq: "W = seg (bi_digits u) i k + P * (U * B + unat u2)"
    using len k by (simp add: W_def seg_Suc d P_def U_def GetDigit_def algebra_simps)
  have veq: "bmag v = bval (take k (bi_digits v)) + P * V"
  proof -
    have l: "Suc k < length (bi_digits v)" "k < length (bi_digits v)" using k by (simp_all add: n_def GetLength_def)
    have "bmag v = bval (take (Suc (Suc k)) (bi_digits v))" using k by (simp add: bmag_def n_def GetLength_def)
    also have "\<dots> = bval (take k (bi_digits v)) + P * V"
      unfolding bval_take_Suc [OF l(1)] bval_take_Suc [OF l(2)]
      by (simp add: k d P_def V_def GetDigit_def algebra_simps)
    finally show ?thesis .
  qed
  have lo: "seg (bi_digits u) i k < P" "bval (take k (bi_digits v)) < P"
    unfolding P_def by (rule seg_lt) (rule less_le_trans [OF bval_lt power_increasing], auto)
  have WU: "(U * B + unat u2) * P \<le> W" "W < (U * B + unat u2 + 1) * P"
    using lo Weq by (simp_all add: algebra_simps)
  have vV: "V * P \<le> bmag v" "bmag v < (V + 1) * P"
    using lo veq by (simp_all add: algebra_simps)
  have vH: "2147483648 \<le> unat vH" using norm by (simp add: d)
  have v0: "0 < bmag v" using W by (cases "bmag v") auto
  let ?Q = "W div bmag v"
  have "?Q < B" using W by (rule less_times_imp)
  define g where "g = knuth_guess u v i"
  obtain q r where dr: "DivideAndRemainder uH u1 vH = (q, r)" by fastforce
  have g: "g = (if vH = uH then - 1 else ImproveAccuracy vH vN r u2 q)"
    using dr by (simp add: g_def knuth_guess_def n_def [symmetric] d)
  have vle: "bmag v \<le> (unat vH + 1) * (B * P)"
  proof -
    have "(V + 1) * P \<le> (unat vH + 1) * B * P"
      using unat_u32_lt [of vN] by (intro mult_le_mono1) (simp add: V_def)
    then show ?thesis using vV(2) unfolding mult.assoc by linarith
  qed
  have Wge: "unat uH * B * (B * P) \<le> W"
  proof -
    have "unat uH * B * B * P \<le> (U * B + unat u2) * P" by (intro mult_le_mono1) (simp add: U_def)
    then show ?thesis using WU(1) unfolding mult.assoc [symmetric] by linarith
  qed
  have "?Q \<le> unat g \<and> unat g \<le> ?Q + 1"
  proof (cases "vH = uH")
    case True
    have "(B - 2) * bmag v \<le> (B - 2) * ((unat vH + 1) * (B * P))" using vle by (rule mult_le_mono2)
    also have "\<dots> = (B - 2) * (unat vH + 1) * (B * P)" by (simp only: mult.assoc)
    also have "\<dots> \<le> unat vH * B * (B * P)" using vH by (intro mult_le_mono1) simp
    finally have "(B - 2) * bmag v \<le> W" using Wge unfolding True [symmetric] by linarith
    then have "B - 2 \<le> ?Q" using v0 by (simp only: less_eq_div_iff_mult_less_eq)
    then show ?thesis using \<open>?Q < B\<close> g True by simp
  next
    case False
    have "unat uH < unat vH"
    proof (rule ccontr)
      assume "\<not> unat uH < unat vH"
      moreover have "unat uH \<noteq> unat vH" using False by (simp add: word_unat_eq_iff)
      ultimately have "(unat vH + 1) * B * (B * P) \<le> unat uH * B * (B * P)" by (intro mult_le_mono1) simp
      moreover have "B * bmag v \<le> B * ((unat vH + 1) * (B * P))" using vle by (rule mult_le_mono2)
      moreover have "(unat vH + 1) * B * (B * P) = B * ((unat vH + 1) * (B * P))"
        by (simp add: distrib_right)
      ultimately show False using Wge W by linarith
    qed
    then have q: "unat q = U div unat vH" "unat r = U mod unat vH"
      using DivideAndRemainder_spec [OF dr] by (simp_all add: U_def)
    have big: "?Q < k" if "U * B + unat u2 < k * V" for k
      using knuth_lower [OF WU(2) vV(1) that] by (rule less_times_imp)
    have "?Q < unat q + 1"
    proof (rule big)
      have "U < (unat q + 1) * unat vH" using vH unfolding q by (simp add: dividend_less_div_times add.commute)
      then have "(U + 1) * B \<le> (unat q + 1) * unat vH * B" by (intro mult_le_mono1) simp
      also have "\<dots> \<le> (unat q + 1) * V" unfolding mult.assoc by (intro mult_le_mono2) (simp add: V_def)
      finally show "U * B + unat u2 < (unat q + 1) * V" using unat_u32_lt [of u2] by simp
    qed
    then have imp: "?Q \<le> unat g \<and> unat g * V \<le> U * B + unat u2"
      using ImproveAccuracy_spec [of q vH r U ?Q u2 vN] big False g q by (simp add: V_def)
    have "(unat g - 1) * bmag v \<le> W"
      using unat_u32_lt [of g] vH imp by (intro knuth_upper [OF WU(1) vV(2)]) (auto simp: V_def)
    then have "unat g - 1 \<le> ?Q" using v0 by (simp only: less_eq_div_iff_mult_less_eq)
    then show ?thesis using imp by simp
  qed
  then show "?Q \<le> unat (knuth_guess u v i)" "unat (knuth_guess u v i) \<le> ?Q + 1"
    by (simp_all add: g_def)
qed

section \<open>Algorithm D\<close>

lemma seg_small_top:
  assumes "a + B ^ n * k = R + B ^ (n + 1)" "a < B ^ n" "R < B ^ n" "k \<le> B"
  shows "k = B" "a = R"
proof -
  have "B ^ (n + 1) = B ^ n * B" by simp
  then have "B ^ n * B < B ^ n * (k + 1)" using assms(1,2) unfolding distrib_left by linarith
  then have "B < k + 1" by simp
  then show "k = B" using assms(4) by simp
  then show "a = R" using assms(1) by simp
qed

lemma knuth_step_spec:
  fixes u v qv :: BigInt and i :: nat
  defines "n \<equiv> GetLength v"
  defines "W \<equiv> seg (bi_digits u) i (n + 1)"
  assumes n: "2 \<le> n" and norm: "2147483648 \<le> unat (GetDigit v (n - 1))"
    and len: "i + n + 1 \<le> length (bi_digits u)" "length (bi_digits qv) = n + 1" and W: "W < B * bmag v"
  obtains u' qv' q where
    "knuth_step v n (GetDigit v (n - 1)) i (u, qv, quot) = (u', qv', map_option (\<lambda>b. SetDigit b i q) quot)"
    "same_outside i (n + 1) (bi_digits u) (bi_digits u')" "length (bi_digits qv') = n + 1"
    "unat q = W div bmag v" "seg (bi_digits u') i (n + 1) = W mod bmag v"
proof -
  let ?Q = "W div bmag v" and ?R = "W mod bmag v"
  define g where "g = knuth_guess u v i"
  have g: "?Q \<le> unat g" "unat g \<le> ?Q + 1"
    using knuth_guess_spec [where v = v and u = u and i = i] n norm len W by (simp_all add: n_def W_def g_def)
  have v0: "0 < bmag v" using W by (cases "bmag v") auto
  have vlt: "bmag v < B ^ n" using bval_lt [of "bi_digits v"] by (simp add: bmag_def n_def GetLength_def)
  have R: "?R < bmag v" using v0 by simp
  have WQ: "W = ?Q * bmag v + ?R" by simp
  obtain u1 qv' borrow where sm: "SpecialMultiplyAndSub u v g qv i = (u1, qv', borrow)"
    "length (bi_digits qv') = n + 1" "same_outside i (n + 1) (bi_digits u) (bi_digits u1)"
    "seg (bi_digits u1) i (n + 1) + unat g * bmag v = W + (if borrow then B ^ (n + 1) else 0)"
    by (rule SpecialMultiplyAndSub_spec [of qv v i u g]) (use len in \<open>auto simp: n_def W_def\<close>)
  have step: "knuth_step v n (GetDigit v (n - 1)) i (u, qv, quot) =
      (let (u, q) = (if borrow then let (u, carry) = SpecialAdd u1 v i
                in (SetDigit u (i + n) (GetDigit u (i + n) + carry), g - 1) else (u1, g))
       in (u, qv', map_option (\<lambda>b. SetDigit b i q) quot))"
    using sm(1) unfolding g_def knuth_guess_def n_def knuth_step_def Let_def
    by (auto split: prod.splits option.splits)
  show thesis
  proof (cases borrow)
    case False
    then have eq: "seg (bi_digits u1) i (n + 1) + unat g * bmag v = W" using sm(4) by simp
    have "unat g * bmag v \<le> W" using eq by linarith
    then have "unat g \<le> ?Q" using v0 by (simp only: less_eq_div_iff_mult_less_eq)
    then have gQ: "unat g = ?Q" using g by simp
    have "seg (bi_digits u1) i (n + 1) = ?R" using eq WQ unfolding gQ by linarith
    then show thesis using that [of u1 qv' g] step sm gQ False by simp
  next
    case True
    have eq: "seg (bi_digits u1) i (n + 1) + unat g * bmag v = W + B ^ (n + 1)" using sm(4) True by simp
    have "unat g \<noteq> ?Q"
    proof
      assume gQ: "unat g = ?Q"
      have "seg (bi_digits u1) i (n + 1) = ?R + B ^ (n + 1)" using eq WQ unfolding gQ by linarith
      then show False using seg_lt [of "bi_digits u1" i "n + 1"] by simp
    qed
    then have gQ: "unat g = ?Q + 1" using g by simp
    then have "g \<noteq> 0" by auto
    then have q: "unat (g - 1) = ?Q" using gQ by (simp add: unat_minus_one)
    have W1: "seg (bi_digits u1) i (n + 1) + bmag v = ?R + B ^ (n + 1)"
      using eq WQ unfolding gQ distrib_right by linarith
    obtain u2 c where sa: "SpecialAdd u1 v i = (u2, c)" by fastforce
    have len1: "i + n < length (bi_digits u1)" using sm(3) len(1) by (simp add: same_outside_def)
    have A: "same_outside i n (bi_digits u1) (bi_digits u2)" "unat c \<le> 1"
      "seg (bi_digits u2) i n + B ^ n * unat c = seg (bi_digits u1) i n + bmag v"
      using special_add_loop [of n v i u1] sa len1
      unfolding SpecialAdd_def n_def by (auto simp: bmag_def GetLength_def)
    let ?d = "bi_digits u1 ! (i + n)"
    have len2: "i + n < length (bi_digits u2)" using A(1) len1 by (simp add: same_outside_def)
    have d2: "bi_digits u2 ! (i + n) = ?d" by (rule same_outside_nth [OF A(1) len2])
    have tot: "seg (bi_digits u2) i n + B ^ n * (unat c + unat ?d) = ?R + B ^ (n + 1)"
      using A(3) W1 seg_Suc [OF len1] by (simp add: algebra_simps)
    have top: "unat c + unat ?d = B" "seg (bi_digits u2) i n = ?R"
      using seg_small_top [OF tot seg_lt] R vlt A(2) unat_u32_lt [of ?d] by auto
    then have z: "?d + c = 0" by (simp add: unat_eq_0 [symmetric] unat_u32_add add.commute)
    define u3 where "u3 = SetDigit u2 (i + n) (?d + c)"
    have "seg (bi_digits u3) i (n + 1) = ?R"
      using seg_update [OF len2, of "?d + c"] top(2) z by (simp add: u3_def)
    moreover have "same_outside i (n + 1) (bi_digits u) (bi_digits u3)"
      using same_outside_trans [OF sm(3)] same_outside_step [OF A(1)] by (simp add: u3_def)
    moreover have "knuth_step v n (GetDigit v (n - 1)) i (u, qv, quot) =
        (u3, qv', map_option (\<lambda>b. SetDigit b i (g - 1)) quot)"
      using step True sa d2 by (simp add: u3_def GetDigit_def)
    ultimately show thesis using that sm(2) q by blast
  qed
qed

text \<open>
  The main loop. \<open>Qd\<close> is the value of the quotient digits found so far, from position
  \<open>i\<close> on.
\<close>

definition knuth_inv :: "nat \<Rightarrow> nat \<Rightarrow> nat \<Rightarrow> BigInt \<Rightarrow> bool \<Rightarrow> nat \<Rightarrow> BigInt \<times> BigInt \<times> BigInt option \<Rightarrow> bool" where
  "knuth_inv U0 len m v want i s \<longleftrightarrow>
     (case s of (u, qv, quot) \<Rightarrow>
        length (bi_digits u) = len \<and> length (bi_digits qv) = GetLength v + 1 \<and>
        bmag u < B ^ i * bmag v \<and> (quot \<noteq> None) = want \<and>
        (\<exists>Qd. U0 = bmag u + bmag v * (B ^ i * Qd) \<and>
           (\<forall>b. quot = Some b \<longrightarrow> \<not> bi_sign b \<and> length (bi_digits b) = m \<and> bval (drop i (bi_digits b)) = Qd)))"

lemma bval_drop_update:
  assumes "i < length ds"
  shows "bval (drop i (ds[i := d])) = unat d + B * bval (drop (Suc i) ds)"
proof -
  have "drop i (ds[i := d]) = d # drop (Suc i) ds"
    using assms by (intro nth_equalityI) (auto simp: nth_Cons nth_list_update split: nat.splits)
  then show ?thesis by simp
qed

lemma knuth_step_inv:
  fixes v :: BigInt
  defines "n \<equiv> GetLength v"
  assumes inv: "knuth_inv U0 len m v want (Suc i) s"
    and n: "2 \<le> n" and norm: "2147483648 \<le> unat (GetDigit v (n - 1))"
    and len: "i + n + 1 \<le> len" "i < m"
  shows "knuth_inv U0 len m v want i (knuth_step v n (GetDigit v (n - 1)) i s)"
proof -
  obtain u qv quot where s: "s = (u, qv, quot)" by (cases s) auto
  obtain Qd where I: "length (bi_digits u) = len" "length (bi_digits qv) = n + 1" "bmag u < B ^ Suc i * bmag v"
    "U0 = bmag u + bmag v * (B ^ Suc i * Qd)"
    "\<And>b. quot = Some b \<Longrightarrow> \<not> bi_sign b \<and> length (bi_digits b) = m \<and> bval (drop (Suc i) (bi_digits b)) = Qd"
    "(quot \<noteq> None) = want"
    using inv by (auto simp: knuth_inv_def s n_def)
  let ?W = "seg (bi_digits u) i (n + 1)" and ?lo = "bval (take i (bi_digits u))"
  have split: "bmag u = ?lo + B ^ i * (?W + B ^ (n + 1) * bval (drop (i + (n + 1)) (bi_digits u)))"
    unfolding bmag_def using I(1) len by (intro seg_split) simp
  have Suc: "B ^ Suc i * bmag v = B ^ i * (B * bmag v)" by simp
  have "B ^ i * ?W \<le> bmag u" unfolding split distrib_left by linarith
  then have "B ^ i * ?W < B ^ i * (B * bmag v)" using I(3) unfolding Suc by linarith
  then have W: "?W < B * bmag v" by simp
  have v0: "0 < bmag v" using W by (cases "bmag v") auto
  obtain u' qv' q where st: "knuth_step v n (GetDigit v (n - 1)) i (u, qv, quot) = (u', qv', map_option (\<lambda>b. SetDigit b i q) quot)"
    "same_outside i (n + 1) (bi_digits u) (bi_digits u')" "length (bi_digits qv') = n + 1"
    "unat q = ?W div bmag v" "seg (bi_digits u') i (n + 1) = ?W mod bmag v"
    by (rule knuth_step_spec [of v i u qv quot]) (use n norm len I(1,2) W in \<open>auto simp: n_def\<close>)
  have len': "length (bi_digits u') = len" using st(2) I(1) by (simp add: same_outside_def)
  have val: "bmag u' + B ^ i * ?W = bmag u + B ^ i * (?W mod bmag v)"
    using same_outside_value [OF st(2)] len I(1) st(5) by (simp add: bmag_def)
  have W': "B ^ i * ?W = B ^ i * (?W div bmag v * bmag v) + B ^ i * (?W mod bmag v)"
    by (simp flip: distrib_left)
  have top: "bval (drop (i + (n + 1)) (bi_digits u)) = 0" (is "?X = 0")
  proof (rule ccontr)
    assume "?X \<noteq> 0"
    then have "B ^ (n + 1) * 1 \<le> B ^ (n + 1) * ?X" by (intro mult_le_mono2) simp
    then have "B ^ i * B ^ (n + 1) \<le> B ^ i * (?W + B ^ (n + 1) * ?X)" by (intro mult_le_mono2) linarith
    then have "B ^ i * B ^ (n + 1) < B ^ i * (B * bmag v)" using I(3) split unfolding Suc by linarith
    then have "B ^ n < bmag v" by simp
    then show False using bval_lt [of "bi_digits v"] by (simp add: bmag_def n_def GetLength_def)
  qed
  have small: "bmag u' < B ^ i * bmag v"
  proof -
    have "bmag u' = ?lo + B ^ i * (?W mod bmag v)" using val split top by simp
    also have "\<dots> < B ^ i * (?W mod bmag v + 1)"
      using less_le_trans [OF bval_lt [of "take i (bi_digits u)"] power_increasing [of _ i B]] by simp
    also have "\<dots> \<le> B ^ i * bmag v" using v0 by (intro mult_le_mono2) (simp add: Suc_leI)
    finally show ?thesis .
  qed
  have sum: "U0 = bmag u' + bmag v * (B ^ i * (unat q + B * Qd))"
    using I(4) val W' by (simp add: st(4) algebra_simps)
  have dig: "\<not> bi_sign b' \<and> length (bi_digits b') = m \<and> bval (drop i (bi_digits b')) = unat q + B * Qd"
    if "map_option (\<lambda>b. SetDigit b i q) quot = Some b'" for b'
    using that I(5) len(2) by (auto simp: bval_drop_update)
  have "length (bi_digits qv') = GetLength v + 1" using st(3) by (simp only: n_def)
  moreover have "(map_option (\<lambda>b. SetDigit b i q) quot \<noteq> None) = want" using I(6) by simp
  ultimately show ?thesis
    unfolding knuth_inv_def s st(1) prod.case using len' small sum dig by blast
qed

section \<open>Normalisation of the operands\<close>

lemma format_shift_step_eq: "format_shift_step shift x = left_shift_step x 0 shift"
  by (simp add: format_shift_step_def left_shift_step_def fun_eq_iff)

lemma FormatLeftShift_overflow:
  "GetLength x \<ge> MAXSIZE \<Longrightarrow> FormatLeftShift shift x True = Inl max_size_error"
  by (simp add: FormatLeftShift_def CreateBigint_Inl)

lemma copy_digits:
  fixes r0 x :: BigInt
  assumes "n \<le> GetLength x" "n \<le> length (bi_digits r0)"
  shows "bi_digits (for_up 0 n (\<lambda>i r. SetDigit r i (GetDigit x i)) r0) = take n (bi_digits x) @ drop n (bi_digits r0)"
proof -
  let ?I = "\<lambda>i (r :: BigInt). bi_digits r = take i (bi_digits x) @ drop i (bi_digits r0)"
  show ?thesis
  proof (rule for_up_inv [where I = ?I])
    fix i and r :: BigInt
    assume i: "i < n" and inv: "?I i r"
    have "(take i (bi_digits x) @ drop i (bi_digits r0))[i := bi_digits x ! i]
        = take (Suc i) (bi_digits x) @ drop (Suc i) (bi_digits r0)"
      using i assms
      by (simp add: list_update_append take_Suc_conv_app_nth GetLength_def Cons_nth_drop_Suc [symmetric])
    then show "?I (Suc i) (SetDigit r i (GetDigit x i))" using inv by (simp add: GetDigit_def)
  qed auto
qed

lemma FormatLeftShift_correct:
  assumes b: "shift < 32" and n: "n = (if add then GetLength x + 1 else GetLength x)" "n \<le> MAXSIZE"
    and fits: "bmag x * 2 ^ shift < B ^ n"
  obtains r where "FormatLeftShift shift x add = Inr r" "length (bi_digits r) = n" "bmag r = bmag x * 2 ^ shift"
proof (cases "shift = 0")
  case True
  show thesis
  proof (cases add)
    case False
    then show thesis using that [of x] True n by (simp add: FormatLeftShift_def GetLength_def)
  next
    case add: True
    define r where "r = for_up 0 (GetLength x) (\<lambda>i r. SetDigit r i (GetDigit x i)) (NewBigInt n)"
    have "bi_digits r = bi_digits x @ [0]"
      using copy_digits [of "GetLength x" x "NewBigInt n"] n add
      by (simp add: r_def GetLength_def del: replicate_Suc) simp
    moreover have "FormatLeftShift shift x add = Inr r"
      using True add n by (simp add: FormatLeftShift_def CreateBigint_Inr r_def Let_def)
    ultimately show thesis using that [of r] True add n by (simp add: bmag_def bval_append GetLength_def)
  qed
next
  case False
  obtain r c where lp: "for_up 0 (GetLength x) (left_shift_step x 0 shift) (NewBigInt n, 0) = (r, c)" by fastforce
  have L: "length (bi_digits r) = n" "drop (GetLength x) (bi_digits r) = replicate (n - GetLength x) 0"
    "bval (take (GetLength x) (bi_digits r)) + B ^ GetLength x * unat c = 2 ^ shift * bmag x"
    using left_shift_loop [OF b, of 0 x n] n(1) unfolding lp by auto
  let ?r = "if c \<noteq> 0 then SetDigit r (GetLength x) c else r"
  have eq: "FormatLeftShift shift x add = Inr ?r"
    using False n lp by (simp add: FormatLeftShift_def CreateBigint_Inr format_shift_step_eq Let_def)
  have "bmag ?r = bmag x * 2 ^ shift"
  proof (cases add)
    case True
    have "bi_digits (SetDigit r (GetLength x) c) = take (GetLength x) (bi_digits r) @ [c]"
      using take_Suc_update [of "GetLength x" "bi_digits r" c] L(1) n True by (simp del: take_Suc_update)
    then have "bmag (SetDigit r (GetLength x) c) = bmag x * 2 ^ shift"
      using L n True by (simp add: bmag_def bval_append mult.commute)
    moreover have "bmag r = bval (take (GetLength x) (bi_digits r))"
      using bval_take_drop [of "bi_digits r" "GetLength x"] L(2) by (simp add: bmag_def)
    ultimately show ?thesis using L(3) by (cases "c = 0") (auto simp: mult.commute)
  next
    case False
    then have nn: "n = GetLength x" using n by simp
    have "B ^ n * unat c < B ^ n * 1"
      using L(3) fits unfolding nn mult.commute [of "2 ^ shift"] by linarith
    then have "unat c < 1" by (simp only: mult_less_cancel1)
    then have "c = 0" by (simp add: unat_eq_0)
    then show ?thesis using L nn by (simp add: bmag_def mult.commute)
  qed
  then show thesis using that [OF eq] L(1) by simp
qed

text \<open>Shifting in place reads no digit that it has already written.\<close>

lemma UnformattedRightShift_eq:
  assumes b: "b < 32" and pos: "0 < GetLength x"
  shows "UnformattedRightShift x b = RightShift x x 0 b"
proof (cases "b = 0")
  case True
  have "for_up 0 n (\<lambda>i r. SetDigit r (i - 0) (GetDigit r i)) x = x" for n
    by (rule for_up_inv [where I = "\<lambda>i r. r = x"]) (auto simp: SetDigit_def GetDigit_def)
  moreover have "for_up 0 n (\<lambda>i r. SetDigit r (i - 0) (GetDigit x i)) x = x" for n
    by (rule for_up_inv [where I = "\<lambda>i r. r = x"]) (auto simp: SetDigit_def GetDigit_def)
  ultimately show ?thesis using True by (simp add: UnformattedRightShift_def RightShift_def)
next
  case False
  let ?s0 = "(x, drop_bit b (GetDigit x 0))"
  let ?I = "\<lambda>i s. s = for_up 0 i (right_shift_step x 0 b) ?s0"
  have "?I (GetLength x - 1) (for_up 0 (GetLength x - 1) (\<lambda>i s. right_shift_step (fst s) 0 b i s) ?s0)"
  proof (rule for_up_inv [where I = ?I])
    fix i s
    assume i: "i < GetLength x - 1" and inv: "?I i s"
    obtain r c where s: "s = (r, c)" by (cases s)
    have "length (bi_digits r) = length (bi_digits x)" "drop i (bi_digits r) = drop i (bi_digits x)"
      using right_shift_loop [of b 0 x x i] False b i pos unfolding inv [unfolded s, symmetric]
      by (auto simp: GetLength_def simp flip: length_greater_0_conv)
    then have "GetDigit r (i + 1) = GetDigit x (i + 1)"
      using i nth_drop [of i "bi_digits r" 1] nth_drop [of i "bi_digits x" 1]
      by (simp add: GetDigit_def GetLength_def)
    then have "right_shift_step (fst s) 0 b i s = right_shift_step x 0 b i s"
      by (simp add: right_shift_step_def s)
    then show "?I (Suc i) (right_shift_step (fst s) 0 b i s)" using inv by (simp add: for_up_Suc)
  qed auto
  then show ?thesis using False by (simp add: UnformattedRightShift_def RightShift_def)
qed

lemma UnformattedRightShift_correct:
  assumes "b < 32" "0 < GetLength x"
  shows "length (bi_digits (UnformattedRightShift x b)) = GetLength x"
    "bmag (UnformattedRightShift x b) = bmag x div 2 ^ b"
  using RightShift_spec [of 0 x b x] assms
  by (simp_all add: UnformattedRightShift_eq GetLength_def bmag_def)

section \<open>Division by several digits\<close>

lemma top_digit:
  assumes "wf_bigint y" "bmag y \<noteq> 0"
  shows "GetDigit y (GetLength y - 1) \<noteq> 0"
proof (cases "GetLength y = 1")
  case True
  then show ?thesis using assms(2) bmag_single [OF True] by auto
next
  case False
  then show ?thesis
    using assms(1) last_conv_nth [of "bi_digits y"]
    by (auto simp: wf_bigint_def wf_digits_def GetDigit_def GetLength_def Suc_lessI)
qed

lemma bmag_top: "0 < GetLength x \<Longrightarrow>
    bmag x = bval (take (GetLength x - 1) (bi_digits x)) + B ^ (GetLength x - 1) * unat (GetDigit x (GetLength x - 1))"
  using bval_take_Suc [of "GetLength x - 1" "bi_digits x"] by (simp add: bmag_def GetLength_def GetDigit_def)

lemma bmag_top_bounds:
  assumes "0 < GetLength x"
  shows "B ^ (GetLength x - 1) * unat (GetDigit x (GetLength x - 1)) \<le> bmag x"
    and "bmag x < B ^ (GetLength x - 1) * (unat (GetDigit x (GetLength x - 1)) + 1)"
proof -
  have "bval (take (GetLength x - 1) (bi_digits x)) < B ^ (GetLength x - 1)"
    by (rule less_le_trans [OF bval_lt power_increasing]) auto
  then show "B ^ (GetLength x - 1) * unat (GetDigit x (GetLength x - 1)) \<le> bmag x"
    "bmag x < B ^ (GetLength x - 1) * (unat (GetDigit x (GetLength x - 1)) + 1)"
    using bmag_top [OF assms] unfolding distrib_left by linarith+
qed

lemma normalise_divisor:
  assumes wf: "wf_bigint y" "bmag y \<noteq> 0"
  defines "s \<equiv> CountLeadingZeros (GetDigit y (GetLength y - 1))"
  obtains v where "FormatLeftShift s y False = Inr v" "GetLength v = GetLength y" "bmag v = bmag y * 2 ^ s"
    "2147483648 \<le> unat (GetDigit v (GetLength y - 1))" "s < 32"
proof -
  let ?n = "GetLength y - 1" and ?d = "GetDigit y (GetLength y - 1)"
  have d: "?d \<noteq> 0" by (rule top_digit [OF wf])
  have s: "s < 32" using CountLeadingZeros_less [OF d] by (simp add: s_def)
  have pos: "0 < GetLength y" and le: "GetLength y \<le> MAXSIZE" using wf_bigintD [OF wf(1)] by auto
  note bnd = bmag_top_bounds [OF pos]
  have "(unat ?d + 1) * 2 ^ s \<le> 2 ^ (32 - s) * 2 ^ s"
    using CountLeadingZeros_bounds(2) [OF d] by (intro mult_le_mono1) (simp add: s_def)
  also have "\<dots> = B" using s by (simp flip: power_add)
  finally have dB: "(unat ?d + 1) * 2 ^ s \<le> B" .
  have "bmag y * 2 ^ s < B ^ ?n * (unat ?d + 1) * 2 ^ s"
    using bnd(2) by (intro mult_strict_right_mono) auto
  also have "\<dots> \<le> B ^ ?n * B" unfolding mult.assoc using dB by (intro mult_le_mono2)
  also have "\<dots> = B ^ GetLength y" using pos by (simp flip: power_Suc2)
  finally obtain v where v: "FormatLeftShift s y False = Inr v" "length (bi_digits v) = GetLength y"
      "bmag v = bmag y * 2 ^ s"
    by (elim FormatLeftShift_correct [of s "GetLength y" False y, rotated -1]) (use s le in auto)
  have vn: "GetLength v = GetLength y" using v(2) by (simp add: GetLength_def)
  have "B ^ ?n * (unat ?d * 2 ^ s) \<le> bmag v"
    using mult_le_mono1 [OF bnd(1), of "2 ^ s"] by (simp add: v(3) mult.assoc)
  also have "\<dots> < B ^ ?n * (unat (GetDigit v ?n) + 1)"
    using bmag_top_bounds(2) [of v] pos by (simp add: vn)
  finally have "unat ?d * 2 ^ s < unat (GetDigit v ?n) + 1" by (simp only: mult_less_cancel1)
  then have "2147483648 \<le> unat (GetDigit v ?n)"
    using normalised_digit(2) [OF d] by (simp add: s_def)
  then show thesis using that v vn s by blast
qed

lemma DivideAndRemainderWithBigintDivisor_overflow:
  assumes "wf_bigint y" "bmag y \<noteq> 0" "GetLength x = MAXSIZE"
  shows "DivideAndRemainderWithBigintDivisor x y needRem = Inl max_size_error"
proof -
  have "0 < GetLength y" "GetLength y \<le> MAXSIZE" using wf_bigintD [OF assms(1)] by auto
  then have "MAXSIZE - GetLength y + 1 \<le> MAXSIZE" by simp
  moreover obtain v where "FormatLeftShift (CountLeadingZeros (GetDigit y (GetLength y - 1))) y False = Inr v"
    by (rule normalise_divisor [OF assms(1,2)])
  ultimately show ?thesis
    using FormatLeftShift_overflow [of x] assms(3)
    by (simp add: DivideAndRemainderWithBigintDivisor_def CreateBigint_Inr)
qed

lemma DivideAndRemainderWithBigintDivisor_correct:
  assumes wf: "wf_bigint x" "wf_bigint y" and len: "2 \<le> GetLength y" "GetLength y \<le> GetLength x" "GetLength x < MAXSIZE"
  obtains q r where "DivideAndRemainderWithBigintDivisor x y needRem = Inr (q, r)"
    "needRem \<Longrightarrow> \<exists>b. r = Some b \<and> length (bi_digits b) = GetLength x + 1 \<and> bmag b = bmag x mod bmag y"
    "\<not> needRem \<Longrightarrow> \<exists>b. q = Some b \<and> length (bi_digits b) = GetLength x - GetLength y + 1 \<and> bmag b = bmag x div bmag y"
proof -
  let ?n = "GetLength y" and ?m = "GetLength x - GetLength y + 1"
  define s where "s = CountLeadingZeros (GetDigit y (?n - 1))"
  have nz: "bmag y \<noteq> 0" using IsZero_iff [OF wf(2)] len by (auto simp: IsZero_def)
  obtain v where v: "FormatLeftShift s y False = Inr v" "GetLength v = ?n" "bmag v = bmag y * 2 ^ s"
    "2147483648 \<le> unat (GetDigit v (?n - 1))" "s < 32"
    by (rule normalise_divisor [OF wf(2) nz, folded s_def])
  have xs: "bmag x * 2 ^ s < B ^ GetLength x * 2 ^ s"
    using bval_lt [of "bi_digits x"] by (intro mult_strict_right_mono) (auto simp: bmag_def GetLength_def)
  have "B ^ GetLength x * 2 ^ s \<le> B ^ GetLength x * 2 ^ 32"
    using v(5) by (intro mult_le_mono2 power_increasing) auto
  moreover have "B ^ (GetLength x + 1) = B ^ GetLength x * 2 ^ 32" by simp
  ultimately have "bmag x * 2 ^ s < B ^ (GetLength x + 1)" using xs by linarith
  then obtain u where u: "FormatLeftShift s x True = Inr u" "length (bi_digits u) = GetLength x + 1"
      "bmag u = bmag x * 2 ^ s"
    by (elim FormatLeftShift_correct [of s "GetLength x + 1" True x, rotated -1]) (use v(5) len in auto)
  define quot where "quot = (if needRem then None else Some (NewBigInt ?m))"
  let ?I = "knuth_inv (bmag u) (GetLength x + 1) ?m v (\<not> needRem)"
  have start: "?I ?m (u, NewBigInt (?n + 1), quot)"
  proof -
    have "B ^ GetLength x * 2 ^ s = B ^ ?m * (B ^ (?n - 1) * 2 ^ s)"
      using len by (simp add: power_add [symmetric] mult.assoc [symmetric] del: power_Suc)
    also have "\<dots> \<le> B ^ ?m * bmag v"
      unfolding v(3) using bmag_lower [OF wf(2) nz] by (intro mult_le_mono2 mult_le_mono1)
    finally have "bmag u < B ^ ?m * bmag v" using xs u(3) by linarith
    then show ?thesis using u(2) v(2) by (auto simp: knuth_inv_def quot_def)
  qed
  have fin: "?I 0 (for_down ?m (knuth_step v ?n (GetDigit v (?n - 1))) (u, NewBigInt (?n + 1), quot))"
    by (rule for_down_inv [where I = ?I, OF start])
      (use knuth_step_inv [of "bmag u" "GetLength x + 1" ?m v] v(2,4) len in auto)
  obtain u' qv' q where lp: "for_down ?m (knuth_step v ?n (GetDigit v (?n - 1))) (u, NewBigInt (?n + 1), quot) = (u', qv', q)"
    by (metis prod_cases3)
  obtain Qd where F: "length (bi_digits u') = GetLength x + 1" "bmag u' < bmag v" "bmag u = bmag u' + bmag v * Qd"
    "(q \<noteq> None) = (\<not> needRem)" "\<And>b. q = Some b \<Longrightarrow> length (bi_digits b) = ?m \<and> bmag b = Qd"
    using fin unfolding lp knuth_inv_def prod.case by (auto simp: bmag_def)
  have Q: "Qd = bmag x div bmag y"
  proof -
    have "Qd = bmag u div bmag v" using F(2,3) by simp
    then show ?thesis by (simp add: u(3) v(3))
  qed
  have R: "bmag u' = (bmag x mod bmag y) * 2 ^ s"
  proof -
    have "bmag u' = bmag u mod bmag v" using F(2,3) by simp
    then show ?thesis by (simp add: u(3) v(3) mult_mod_left)
  qed
  let ?r = "if needRem then Some (UnformattedRightShift u' s) else None"
  have alloc: "(if needRem then Inr None else bindE (CreateBigint ?m) (\<lambda>b. Inr (Some b))) = Inr quot"
    "CreateBigint (?n + 1) = Inr (NewBigInt (?n + 1))"
    using len by (simp_all add: quot_def CreateBigint_Inr)
  have "DivideAndRemainderWithBigintDivisor x y needRem = Inr (q, ?r)"
    unfolding DivideAndRemainderWithBigintDivisor_def Let_def alloc s_def [symmetric] bindE_Inr v(1) u(1) lp prod.case
    by (rule refl)
  moreover have "length (bi_digits (UnformattedRightShift u' s)) = GetLength x + 1"
    "bmag (UnformattedRightShift u' s) = bmag x mod bmag y"
    using UnformattedRightShift_correct [of s u'] v(5) F(1) R by (simp_all add: GetLength_def)
  ultimately show thesis
    using that F(4,5) Q by auto
qed

section \<open>Division by one digit\<close>

lemma DivideAndRemainderWithUint32Divisor_rem:
  assumes d: "d \<noteq> 0" and x: "0 < GetLength x"
  obtains b where "DivideAndRemainderWithUint32Divisor x d True = Inr (None, Some b)"
    "GetLength b = 1" "bmag b = bmag x mod unat d"
proof -
  let ?step = "\<lambda>i s. bindE s (\<lambda>(r, rem :: BigInt option).
     let (q, r) = DivideAndRemainder r (GetDigit x i) d in bindE (Uint32ToBigInt r) (\<lambda>b. Inr (r, Some b)))"
  let ?I = "\<lambda>i (s :: (u32 \<times> BigInt option) result). \<exists>r rem. s = Inr (r, rem) \<and> unat r = bval (drop i (bi_digits x)) mod unat d \<and>
     (i < GetLength x \<longrightarrow> rem = Some \<lparr>bi_sign = False, bi_digits = [r]\<rparr>)"
  have d0: "0 < unat d" using d by (simp add: unat_gt_0)
  have "?I 0 (for_down (GetLength x) ?step (Inr (0, None)))"
  proof (rule for_down_inv [where I = ?I])
    fix i s
    assume i: "i < GetLength x" and inv: "?I (Suc i) s"
    then obtain r rem where s: "s = Inr (r, rem)" and r: "unat r = bval (drop (Suc i) (bi_digits x)) mod unat d" by blast
    obtain q r' where dr: "DivideAndRemainder r (GetDigit x i) d = (q, r')" by fastforce
    have "unat r' = (unat r * B + unat (GetDigit x i)) mod unat d"
      using DivideAndRemainder_spec(2) [OF dr] r d0 by simp
    also have "\<dots> = (bval (drop (Suc i) (bi_digits x)) * B + unat (GetDigit x i)) mod unat d"
      unfolding r by (rule two_digit_division(2) [symmetric])
    also have "bval (drop (Suc i) (bi_digits x)) * B + unat (GetDigit x i) = bval (drop i (bi_digits x))"
      using i Cons_nth_drop_Suc [of i "bi_digits x", symmetric] by (simp add: GetLength_def GetDigit_def)
    finally show "?I i (?step i s)" by (simp add: s dr Uint32ToBigInt_eq)
  qed (simp add: GetLength_def)
  then obtain r where "for_down (GetLength x) ?step (Inr (0, None)) = Inr (r, Some \<lparr>bi_sign = False, bi_digits = [r]\<rparr>)"
    "unat r = bmag x mod unat d"
    using x by (auto simp: bmag_def)
  then show thesis
    using that [of "\<lparr>bi_sign = False, bi_digits = [r]\<rparr>"]
    by (simp add: DivideAndRemainderWithUint32Divisor_def GetLength_def bmag_def)
qed

lemma DivideAndRemainderWithUint32Divisor_quot:
  assumes d: "d \<noteq> 0" and x: "GetLength x \<le> MAXSIZE"
  obtains b where "DivideAndRemainderWithUint32Divisor x d False = Inr (Some b, None)"
    "GetLength b = GetLength x" "bmag b = bmag x div unat d"
proof -
  let ?step = "\<lambda>i (quot, r). let (q, r) = DivideAndRemainder r (GetDigit x i) d in (SetDigit quot i q, r)"
  let ?I = "\<lambda>i (b :: BigInt, r :: u32). length (bi_digits b) = GetLength x \<and>
     bval (drop i (bi_digits b)) = bval (drop i (bi_digits x)) div unat d \<and>
     unat r = bval (drop i (bi_digits x)) mod unat d"
  have d0: "0 < unat d" using d by (simp add: unat_gt_0)
  have fin: "?I 0 (for_down (GetLength x) ?step (NewBigInt (GetLength x), 0))"
  proof (rule for_down_inv [where I = ?I])
    fix i and s :: "BigInt \<times> u32"
    assume i: "i < GetLength x" and inv: "?I (Suc i) s"
    obtain b r where s: "s = (b, r)" by (cases s)
    have I: "length (bi_digits b) = GetLength x"
      "bval (drop (Suc i) (bi_digits b)) = bval (drop (Suc i) (bi_digits x)) div unat d"
      "unat r = bval (drop (Suc i) (bi_digits x)) mod unat d" using inv by (auto simp: s)
    obtain q r' where dr: "DivideAndRemainder r (GetDigit x i) d = (q, r')" by fastforce
    have lt: "unat r < unat d" using I(3) d0 by simp
    have x': "bval (drop i (bi_digits x)) = bval (drop (Suc i) (bi_digits x)) * B + unat (GetDigit x i)"
      using i Cons_nth_drop_Suc [of i "bi_digits x", symmetric] by (simp add: GetLength_def GetDigit_def)
    have "unat r' = bval (drop i (bi_digits x)) mod unat d"
      unfolding DivideAndRemainder_spec(2) [OF dr lt] x' I(3) by (rule two_digit_division(2) [symmetric])
    moreover have "bval (drop i ((bi_digits b)[i := q])) = bval (drop i (bi_digits x)) div unat d"
      using two_digit_division(1) [of "bval (drop (Suc i) (bi_digits x))" B "unat (GetDigit x i)" "unat d"]
        DivideAndRemainder_spec(1) [OF dr lt] i I
      by (simp add: bval_drop_update x')
    ultimately show "?I i (?step i s)" using I(1) by (simp add: s dr)
  qed (simp_all add: GetLength_def)
  obtain b r where lp: "for_down (GetLength x) ?step (NewBigInt (GetLength x), 0) = (b, r)" by fastforce
  have "DivideAndRemainderWithUint32Divisor x d False = Inr (Some b, None)"
    using lp x by (simp add: DivideAndRemainderWithUint32Divisor_def CreateBigint_Inr)
  then show thesis using that fin unfolding lp by (simp add: GetLength_def bmag_def)
qed

end
