(* ===== verification/BigInt_Signed_Div.thy ===== *)
theory BigInt_Signed_Div
  imports BigInt_Div "HOL-Library.Signed_Division"
begin

text \<open>
  Correctness of \<open>Divide\<close>, \<open>Remainder\<close> and \<open>FloorMod\<close> on signed values: the quotient
  truncates towards zero, the remainder takes the sign of the dividend.
\<close>

section \<open>Division and remainder of signed values\<close>

lemma bint_sdiv:
  "bint x sdiv bint y =
     (if bi_sign x \<noteq> bi_sign y then - int (bmag x div bmag y) else int (bmag x div bmag y))"
  by (cases "bmag x = 0"; cases "bmag y = 0") (simp_all add: signed_divide_int_def bint_def zdiv_int)

lemma bint_smod: "bint x smod bint y = (if bi_sign x then - int (bmag x mod bmag y) else int (bmag x mod bmag y))"
  by (cases "bmag x = 0") (simp_all add: signed_modulo_int_def bint_def zmod_int)

lemma RightTruncate_signed:
  assumes "bi_digits b \<noteq> []" "GetLength b \<le> MAXSIZE" "bmag b = m"
  obtains r where "RightTruncate (SetSign b sg) = Inr r" "wf_bigint r" "bint r = (if sg then - int m else int m)"
  by (rule RightTruncate_correct [of "SetSign b sg"]) (use assms in \<open>auto simp: GetLength_def bint_def bmag_def\<close>)

lemma IsUint32_bmag: "IsUint32 y \<Longrightarrow> bmag y = unat (GetDigit y 0)"
  by (simp add: IsUint32_def bmag_single)

lemma Int32ToBigInt_0: "Int32ToBigInt 0 = Inr \<lparr>bi_sign = False, bi_digits = [0]\<rparr>"
  by (simp add: Int32ToBigInt_eq)

lemma wf_bigint_digit: "(d = 0 \<longrightarrow> \<not> sg) \<Longrightarrow> wf_bigint \<lparr>bi_sign = sg, bi_digits = [d]\<rparr>"
  by (auto simp: wf_bigint_def wf_digits_def bmag_def MAXSIZE_eq unat_eq_0)

lemma bint_digit: "bint \<lparr>bi_sign = sg, bi_digits = [d]\<rparr> = (if sg then - int (unat d) else int (unat d))"
  by (simp add: bint_def bmag_def)

lemma Divide_zero: "IsZero y \<Longrightarrow> Divide x y = Inl div_by_zero_error"
  by (simp add: Divide_def)

lemma Divide_correct:
  assumes wf: "wf_bigint x" "wf_bigint y" and nz: "\<not> IsZero y"
    and fits: "GetLength y = 1 \<or> GetLength x < MAXSIZE \<or> bmag x \<le> bmag y"
  obtains r where "Divide x y = Inr r" "wf_bigint r" "bint r = bint x sdiv bint y"
proof -
  have y0: "bmag y \<noteq> 0" using nz IsZero_iff [OF wf(2)] by simp
  let ?sg = "bi_sign x \<noteq> bi_sign y"
  note cmp = AbsolutelyCompare_correct [OF wf]
  consider (less) "bmag x < bmag y" | (equal) "bmag x = bmag y"
    | (one) "bmag y < bmag x" "IsUint32 y" "GetDigit y 0 = 1"
    | (short) "bmag y < bmag x" "IsUint32 y" "GetDigit y 0 \<noteq> 1"
    | (long) "bmag y < bmag x" "\<not> IsUint32 y" by linarith
  then show thesis
  proof cases
    case less
    then show thesis
      using that [of "\<lparr>bi_sign = False, bi_digits = [0]\<rparr>"] nz
      by (simp add: Divide_def cmp Int32ToBigInt_0 wf_bigint_digit bint_digit bint_sdiv)
  next
    case equal
    have "Divide x y = Inr \<lparr>bi_sign = ?sg, bi_digits = [1]\<rparr>"
      using nz equal by (simp add: Divide_def cmp Int32ToBigInt_1 SetSign_def)
    then show thesis
      by (rule that) (use y0 equal in \<open>simp_all add: wf_bigint_digit bint_digit bint_sdiv\<close>)
  next
    case one
    then have m: "bmag y = 1" using IsUint32_bmag by simp
    obtain n where n: "UnaryMinus x = Inr n" "wf_bigint n" "bint n = - bint x" by (rule UnaryMinus_correct [OF wf(1)])
    have eq: "Divide x y = (if ?sg = bi_sign x then Inr x else UnaryMinus x)"
      using one nz by (simp add: Divide_def cmp)
    have v: "bint x sdiv bint y = (if ?sg = bi_sign x then bint x else - bint x)"
      unfolding bint_sdiv m by (auto simp: bint_def)
    show thesis
      using that [of "if ?sg = bi_sign x then x else n"] n wf(1) unfolding eq v by (simp split: if_splits)
  next
    case short
    have d: "GetDigit y 0 \<noteq> 0" using y0 IsUint32_bmag [OF short(2)] by auto
    obtain b where b: "DivideAndRemainderWithUint32Divisor x (GetDigit y 0) False = Inr (Some b, None)"
      "GetLength b = GetLength x" "bmag b = bmag x div unat (GetDigit y 0)"
      by (rule DivideAndRemainderWithUint32Divisor_quot [OF d, of x]) (use wf_bigintD [OF wf(1)] in auto)
    obtain r where "RightTruncate (SetSign b ?sg) = Inr r" "wf_bigint r"
      "bint r = (if ?sg then - int (bmag x div bmag y) else int (bmag x div bmag y))"
      by (rule RightTruncate_signed [of b "bmag x div bmag y" ?sg])
        (use b wf_bigintD [OF wf(1)] IsUint32_bmag [OF short(2)] in \<open>auto simp: GetLength_def\<close>)
    then show thesis using that [of r] short nz b(1) by (simp add: Divide_def cmp bint_sdiv)
  next
    case long
    have n: "2 \<le> GetLength y" "GetLength y \<le> GetLength x"
      using long wf_bigintD(3) [OF wf(2)] wf_length_le [OF wf] by (auto simp: IsUint32_def)
    then have "GetLength x < MAXSIZE" using fits long by simp
    then obtain q b where q: "DivideAndRemainderWithBigintDivisor x y False = Inr (Some b, q)"
      "length (bi_digits b) = GetLength x - GetLength y + 1" "bmag b = bmag x div bmag y"
      using DivideAndRemainderWithBigintDivisor_correct [OF wf n, of False] by metis
    obtain r where "RightTruncate (SetSign b ?sg) = Inr r" "wf_bigint r"
      "bint r = (if ?sg then - int (bmag x div bmag y) else int (bmag x div bmag y))"
      by (rule RightTruncate_signed [of b "bmag x div bmag y" ?sg])
        (use q n wf_bigintD [OF wf(1)] in \<open>auto simp: GetLength_def\<close>)
    then show thesis using that [of r] long nz q(1) by (simp add: Divide_def cmp bint_sdiv)
  qed
qed

lemma Divide_overflow:
  assumes wf: "wf_bigint x" "wf_bigint y" and "2 \<le> GetLength y" "GetLength x = MAXSIZE" "bmag y < bmag x"
  shows "Divide x y = Inl max_size_error"
proof -
  have "\<not> IsZero y" using assms(3) by (auto simp: IsZero_def)
  then show ?thesis
    using assms DivideAndRemainderWithBigintDivisor_overflow [OF wf(2) _ assms(4)]
    by (simp add: Divide_def AbsolutelyCompare_correct IsUint32_def IsZero_iff)
qed

lemma Remainder_zero: "IsZero d \<Longrightarrow> Remainder n d = Inl div_by_zero_error"
  by (simp add: Remainder_def)

lemma Remainder_correct:
  assumes wf: "wf_bigint n" "wf_bigint d" and nz: "\<not> IsZero d"
    and fits: "GetLength d = 1 \<or> GetLength n < MAXSIZE \<or> bmag n \<le> bmag d"
  obtains r where "Remainder n d = Inr r" "wf_bigint r" "bint r = bint n smod bint d"
proof -
  have d0: "bmag d \<noteq> 0" using nz IsZero_iff [OF wf(2)] by simp
  note cmp = AbsolutelyCompare_correct [OF wf]
  consider (less) "bmag n < bmag d" | (equal) "bmag n = bmag d"
    | (one) "bmag d < bmag n" "IsUint32 d" "GetDigit d 0 = 1"
    | (short) "bmag d < bmag n" "IsUint32 d" "GetDigit d 0 \<noteq> 1"
    | (long) "bmag d < bmag n" "\<not> IsUint32 d" by linarith
  then show thesis
  proof cases
    case less
    then have "Remainder n d = Inr n" using nz by (simp add: Remainder_def cmp)
    moreover have "bint n = bint n smod bint d" unfolding bint_smod using less by (simp add: bint_def)
    ultimately show thesis using that wf(1) by blast
  next
    case equal
    then have "\<not> IsZero n" using d0 IsZero_iff [OF wf(1)] by simp
    then show thesis
      using that [of "\<lparr>bi_sign = False, bi_digits = [0]\<rparr>"] nz equal
      by (simp add: Remainder_def cmp Int32ToBigInt_0 wf_bigint_digit bint_digit bint_smod)
  next
    case one
    then have m: "bmag d = 1" using IsUint32_bmag by simp
    moreover have "\<not> IsZero n" using one m IsZero_iff [OF wf(1)] by simp
    ultimately show thesis
      using that [of "\<lparr>bi_sign = False, bi_digits = [0]\<rparr>"] nz one
      by (simp add: Remainder_def cmp Int32ToBigInt_0 wf_bigint_digit bint_digit bint_smod)
  next
    case short
    have d: "GetDigit d 0 \<noteq> 0" using d0 IsUint32_bmag [OF short(2)] by auto
    have z: "\<not> IsZero n" using short IsZero_iff [OF wf(1)] by simp
    obtain b where b: "DivideAndRemainderWithUint32Divisor n (GetDigit d 0) True = Inr (None, Some b)"
      "GetLength b = 1" "bmag b = bmag n mod unat (GetDigit d 0)"
      by (rule DivideAndRemainderWithUint32Divisor_rem [OF d, of n]) (use wf_bigintD [OF wf(1)] in auto)
    obtain r where "RightTruncate (SetSign b (bi_sign n)) = Inr r" "wf_bigint r"
      "bint r = (if bi_sign n then - int (bmag n mod bmag d) else int (bmag n mod bmag d))"
      by (rule RightTruncate_signed [of b "bmag n mod bmag d" "bi_sign n"])
        (use b IsUint32_bmag [OF short(2)] in \<open>auto simp: GetLength_def MAXSIZE_eq\<close>)
    then show thesis using that [of r] short nz z b(1) by (simp add: Remainder_def cmp bint_smod)
  next
    case long
    have z: "\<not> IsZero n" using long IsZero_iff [OF wf(1)] by simp
    have l: "2 \<le> GetLength d" "GetLength d \<le> GetLength n"
      using long wf_bigintD(3) [OF wf(2)] wf_length_le [OF wf] by (auto simp: IsUint32_def)
    then have fit: "GetLength n < MAXSIZE" using fits long by simp
    then obtain q b where q: "DivideAndRemainderWithBigintDivisor n d True = Inr (q, Some b)"
      "length (bi_digits b) = GetLength n + 1" "bmag b = bmag n mod bmag d"
      using DivideAndRemainderWithBigintDivisor_correct [OF wf l, of True] by metis
    obtain r where "RightTruncate (SetSign b (bi_sign n)) = Inr r" "wf_bigint r"
      "bint r = (if bi_sign n then - int (bmag n mod bmag d) else int (bmag n mod bmag d))"
      by (rule RightTruncate_signed [of b "bmag n mod bmag d" "bi_sign n"])
        (use q fit in \<open>auto simp: GetLength_def\<close>)
    then show thesis using that [of r] long nz z q(1) by (simp add: Remainder_def cmp bint_smod)
  qed
qed

lemma smod_to_mod:
  fixes a b :: int
  assumes "0 < b"
  shows "a mod b = (if a < 0 \<and> a smod b \<noteq> 0 then a smod b + b else a smod b)"
proof (cases "0 \<le> a")
  case True
  then show ?thesis using assms by (cases "a = 0") (simp_all add: signed_modulo_int_def)
next
  case False
  then have s: "a smod b = - ((- a) mod b)" using assms by (simp add: signed_modulo_int_def)
  show ?thesis
    using False assms by (simp add: s zmod_zminus1_eq_if [of "- a", simplified])
qed

lemma FloorMod_correct:
  assumes wf: "wf_bigint l" "wf_bigint m" and pos: "0 < bint m"
    and fits: "GetLength m = 1 \<or> GetLength l < MAXSIZE \<or> bmag l \<le> bmag m"
  obtains r where "FloorMod l m = Inr r" "wf_bigint r" "bint r = bint l mod bint m"
proof -
  have nz: "\<not> IsZero m" and sm: "\<not> bi_sign m"
    using pos IsZero_iff [OF wf(2)] by (auto simp: bint_def split: if_splits)
  obtain r where r: "Remainder l m = Inr r" "wf_bigint r" "bint r = bint l smod bint m"
    by (rule Remainder_correct [OF wf nz fits])
  have zero: "IsZero r \<longleftrightarrow> bint l smod bint m = 0" using IsZero_iff [OF r(2)] r(3) bint_eq_0_iff [of r] by simp
  show thesis
  proof (cases "bi_sign l \<and> \<not> IsZero r")
    case False
    then have "bint l mod bint m = bint r"
      using smod_to_mod [OF pos, of "bint l"] zero r(3) by (auto simp: bint_def split: if_splits)
    then show thesis using that [of r] r False by (auto simp: FloorMod_def)
  next
    case True
    then have neg: "bint l < 0" using wf_bigintD(5) [OF wf(1)] by (auto simp: bint_def)
    have "bint r < 0"
      using r(3) zero True unfolding bint_smod by (auto split: if_splits)
    then have "bi_sign r" by (auto simp: bint_def split: if_splits)
    then obtain s where s: "Add r m = Inr s" "wf_bigint s" "bint s = bint r + bint m"
      using sm by (elim Add_correct [OF r(2) wf(2), rotated -1]) auto
    have "bint l mod bint m = bint s"
      using smod_to_mod [OF pos, of "bint l"] neg zero True r(3) s(3) by simp
    then show thesis using that [of s] r s True by (simp add: FloorMod_def)
  qed
qed

end
