(* ===== verification/BigInt_Theorems.thy ===== *)
theory BigInt_Theorems
  imports BigInt_Bitwise BigInt_Signed_Div
begin

text \<open>
  The properties of the BigInt arithmetic of ecmascript/js_bigint.cpp. Every operation
  maps well-formed objects to well-formed objects and agrees with the integers, or
  throws exactly where it is stated to.
\<close>

named_theorems bigint_eval \<open>evaluation of the invariant and the value of concrete objects\<close>

lemma wf_literal [bigint_eval]:
  "wf_bigint \<lparr>bi_sign = s, bi_digits = ds\<rparr> \<longleftrightarrow> wf_digits ds \<and> (bval ds = 0 \<longrightarrow> \<not> s)"
  by (simp add: wf_bigint_def bmag_def)

lemma value_literal [bigint_eval]:
  "bint \<lparr>bi_sign = s, bi_digits = ds\<rparr> = (if s then - int (bval ds) else int (bval ds))"
  "bmag \<lparr>bi_sign = s, bi_digits = ds\<rparr> = bval ds"
  "GetLength \<lparr>bi_sign = s, bi_digits = ds\<rparr> = length ds"
  "GetDigit \<lparr>bi_sign = s, bi_digits = ds\<rparr> i = ds ! i"
  by (simp_all add: bint_def bmag_def GetLength_def GetDigit_def)

lemmas [bigint_eval] = wf_digits_def IsZero_def MAXSIZE_eq

section \<open>Ordering\<close>

lemma Compare_correct:
  assumes wf: "wf_bigint x" "wf_bigint y"
  shows "Compare x y = (if bint x < bint y then LESS else if bint x = bint y then EQUAL else GREAT)"
proof -
  have "bi_sign x \<Longrightarrow> 0 < bmag x" "bi_sign y \<Longrightarrow> 0 < bmag y"
    using wf_bigintD(5) [OF wf(1)] wf_bigintD(5) [OF wf(2)] by blast+
  then show ?thesis by (auto simp: Compare_def AbsolutelyCompare_correct [OF wf] bint_def Let_def)
qed

text \<open>\<open>Compare\<close> decides the order of the integers that two well-formed BigInts denote.\<close>

theorem Compare_order:
  assumes "wf_bigint x" "wf_bigint y"
  shows "(Compare x y = LESS \<longleftrightarrow> bint x < bint y) \<and> (Compare x y = EQUAL \<longleftrightarrow> bint x = bint y)
    \<and> (Compare x y = GREAT \<longleftrightarrow> bint y < bint x) \<and> (LessThan x y \<longleftrightarrow> bint x < bint y)"
  using assms by (auto simp: Compare_correct LessThan_def)

theorem Compare_order_witness:
  "Compare \<lparr>bi_sign = True, bi_digits = [7, 1]\<rparr> \<lparr>bi_sign = True, bi_digits = [9]\<rparr> = LESS"
  using Compare_order [of "\<lparr>bi_sign = True, bi_digits = [7, 1]\<rparr>" "\<lparr>bi_sign = True, bi_digits = [9]\<rparr>"]
  by (simp add: bigint_eval)

text \<open>C15: \<open>Equal\<close> compares values: a well-formed BigInt is a canonical representation of its integer.\<close>

theorem Equal_iff:
  assumes "wf_bigint x" "wf_bigint y"
  shows "Equal x y \<longleftrightarrow> bint x = bint y"
proof
  assume "Equal x y"
  then show "bint x = bint y" by (simp add: Equal_digits bint_def bmag_def)
next
  assume eq: "bint x = bint y"
  then have m: "bmag x = bmag y" and s: "bi_sign x = bi_sign y"
    using wf_bigintD(5) [OF assms(1)] wf_bigintD(5) [OF assms(2)] by (auto simp: bint_def split: if_splits)
  then show "Equal x y"
    using wf_digits_inject [OF wf_bigintD(1) [OF assms(1)] wf_bigintD(1) [OF assms(2)]]
    by (simp add: Equal_digits bmag_def)
qed

theorem Equal_iff_witness:
  "\<not> Equal \<lparr>bi_sign = False, bi_digits = [0, 1]\<rparr> \<lparr>bi_sign = False, bi_digits = [1]\<rparr>"
  using Equal_iff [of "\<lparr>bi_sign = False, bi_digits = [0, 1]\<rparr>" "\<lparr>bi_sign = False, bi_digits = [1]\<rparr>"]
  by (simp add: bigint_eval)

section \<open>Sum and difference\<close>

lemma max_length: "wf_bigint x \<Longrightarrow> wf_bigint y \<Longrightarrow> max (GetLength x) (GetLength y) \<noteq> MAXSIZE \<Longrightarrow>
    max (GetLength x) (GetLength y) < MAXSIZE"
  using wf_bigintD(4) [of x] wf_bigintD(4) [of y] by (simp add: max_def split: if_splits)

text \<open>
  C9: \<open>Add\<close> is exact. It throws the size error exactly when both operands have the same
  sign and the longer one has the maximal length.
\<close>

theorem Add_exact:
  assumes wf: "wf_bigint x" "wf_bigint y"
  shows "if bi_sign x = bi_sign y \<and> max (GetLength x) (GetLength y) = MAXSIZE
    then Add x y = Inl max_size_error
    else \<exists>r. Add x y = Inr r \<and> wf_bigint r \<and> bint r = bint x + bint y"
proof (cases "bi_sign x = bi_sign y \<and> max (GetLength x) (GetLength y) = MAXSIZE")
  case True
  then show ?thesis using Add_overflow [of x y] by (simp del: max_def)
next
  case False
  then have "bi_sign x = bi_sign y \<Longrightarrow> max (GetLength x) (GetLength y) < MAXSIZE"
    using max_length [OF wf] by blast
  from Add_correct [OF wf this] have "\<exists>r. Add x y = Inr r \<and> wf_bigint r \<and> bint r = bint x + bint y" by metis
  with False show ?thesis by (simp only: if_False)
qed

theorem Add_exact_witness:
  "\<exists>r. Add \<lparr>bi_sign = False, bi_digits = [4294967295]\<rparr> \<lparr>bi_sign = False, bi_digits = [2]\<rparr> = Inr r \<and> bint r = 4294967297"
  using Add_exact [of "\<lparr>bi_sign = False, bi_digits = [4294967295]\<rparr>" "\<lparr>bi_sign = False, bi_digits = [2]\<rparr>"]
  by (auto simp: bigint_eval)

text \<open>C10: \<open>Subtract\<close> is exact, with the size error exactly for operands of different sign and maximal length.\<close>

theorem Subtract_exact:
  assumes wf: "wf_bigint x" "wf_bigint y"
  shows "if bi_sign x \<noteq> bi_sign y \<and> max (GetLength x) (GetLength y) = MAXSIZE
    then Subtract x y = Inl max_size_error
    else \<exists>r. Subtract x y = Inr r \<and> wf_bigint r \<and> bint r = bint x - bint y"
proof (cases "bi_sign x \<noteq> bi_sign y \<and> max (GetLength x) (GetLength y) = MAXSIZE")
  case True
  then show ?thesis using Subtract_overflow [of x y] by simp
next
  case False
  then have "bi_sign x \<noteq> bi_sign y \<Longrightarrow> max (GetLength x) (GetLength y) < MAXSIZE"
    using max_length [OF wf] by blast
  from Subtract_correct [OF wf this] have "\<exists>r. Subtract x y = Inr r \<and> wf_bigint r \<and> bint r = bint x - bint y" by metis
  with False show ?thesis by (simp only: if_False)
qed

theorem Subtract_exact_witness:
  "\<exists>r. Subtract \<lparr>bi_sign = False, bi_digits = [0, 1]\<rparr> \<lparr>bi_sign = False, bi_digits = [1]\<rparr> = Inr r \<and> bint r = 4294967295"
  using Subtract_exact [of "\<lparr>bi_sign = False, bi_digits = [0, 1]\<rparr>" "\<lparr>bi_sign = False, bi_digits = [1]\<rparr>"]
  by (auto simp: bigint_eval)

section \<open>Product and power\<close>

text \<open>
  C3: \<open>Multiply\<close> computes the exact product by the schoolbook loop, or throws the size
  error when both factors are non-zero and their digits together exceed the maximal length.
\<close>

theorem Multiply_exact:
  assumes wf: "wf_bigint x" "wf_bigint y"
  shows "if \<not> IsZero x \<and> \<not> IsZero y \<and> MAXSIZE < GetLength x + GetLength y
    then Multiply x y = Inl max_size_error
    else \<exists>r. Multiply x y = Inr r \<and> wf_bigint r \<and> bint r = bint x * bint y"
proof (cases "\<not> IsZero x \<and> \<not> IsZero y \<and> MAXSIZE < GetLength x + GetLength y")
  case True
  then show ?thesis by (simp add: Multiply_overflow)
next
  case False
  then have "IsZero x \<or> IsZero y \<or> GetLength x + GetLength y \<le> MAXSIZE" by linarith
  from Multiply_correct [OF wf this] have "\<exists>r. Multiply x y = Inr r \<and> wf_bigint r \<and> bint r = bint x * bint y" by metis
  with False show ?thesis by (simp only: if_False)
qed

theorem Multiply_exact_witness:
  "\<exists>r. Multiply \<lparr>bi_sign = True, bi_digits = [4294967295]\<rparr> \<lparr>bi_sign = False, bi_digits = [4294967295]\<rparr> = Inr r
     \<and> bint r = - 18446744065119617025"
  using Multiply_exact [of "\<lparr>bi_sign = True, bi_digits = [4294967295]\<rparr>" "\<lparr>bi_sign = False, bi_digits = [4294967295]\<rparr>"]
  by (auto simp: bigint_eval)



section \<open>Quotient and remainder\<close>

text \<open>
  C1: \<open>Divide\<close> returns the quotient truncated towards zero, by Knuth's algorithm D where
  the divisor has several digits. It throws for the divisor zero, and also for a dividend
  of maximal length with a smaller divisor of several digits, whose normalised copy does not fit.
\<close>

theorem Divide_exact:
  assumes wf: "wf_bigint x" "wf_bigint y"
  shows "if IsZero y then Divide x y = Inl div_by_zero_error
    else if 2 \<le> GetLength y \<and> GetLength x = MAXSIZE \<and> bmag y < bmag x then Divide x y = Inl max_size_error
    else \<exists>r. Divide x y = Inr r \<and> wf_bigint r \<and> bint r = bint x sdiv bint y"
proof -
  consider (zero) "IsZero y" | (over) "\<not> IsZero y" "2 \<le> GetLength y \<and> GetLength x = MAXSIZE \<and> bmag y < bmag x"
    | (ok) "\<not> IsZero y" "\<not> (2 \<le> GetLength y \<and> GetLength x = MAXSIZE \<and> bmag y < bmag x)" by blast
  then show ?thesis
  proof cases
    case zero
    then show ?thesis by (simp add: Divide_zero)
  next
    case over
    then show ?thesis using Divide_overflow [OF wf] by simp
  next
    case ok
    then have "GetLength y = 1 \<or> GetLength x < MAXSIZE \<or> bmag x \<le> bmag y"
      using wf_bigintD(3) [OF wf(2)] wf_bigintD(4) [OF wf(1)] by linarith
    from Divide_correct [OF wf ok(1) this]
    have "\<exists>r. Divide x y = Inr r \<and> wf_bigint r \<and> bint r = bint x sdiv bint y" by metis
    then show ?thesis unfolding if_not_P [OF ok(1)] if_not_P [OF ok(2)] .
  qed
qed

theorem Divide_exact_witness:
  "\<exists>r. Divide \<lparr>bi_sign = True, bi_digits = [5, 0, 7]\<rparr> \<lparr>bi_sign = False, bi_digits = [0, 2]\<rparr> = Inr r \<and> bint r = - 15032385536"
  using Divide_exact [of "\<lparr>bi_sign = True, bi_digits = [5, 0, 7]\<rparr>" "\<lparr>bi_sign = False, bi_digits = [0, 2]\<rparr>"]
  by (auto simp: bigint_eval signed_divide_int_def)

text \<open>C8: \<open>Remainder\<close> returns the remainder with the sign of the dividend, under the same conditions as \<open>Divide\<close>.\<close>

theorem Remainder_exact:
  assumes wf: "wf_bigint n" "wf_bigint d" and nz: "\<not> IsZero d"
    and fits: "GetLength d = 1 \<or> GetLength n < MAXSIZE \<or> bmag n \<le> bmag d"
  shows "\<exists>r. Remainder n d = Inr r \<and> wf_bigint r \<and> bint r = bint n smod bint d
    \<and> (\<exists>q. Divide n d = Inr q \<and> bint q * bint d + bint r = bint n)"
proof -
  obtain r where r: "Remainder n d = Inr r" "wf_bigint r" "bint r = bint n smod bint d"
    by (rule Remainder_correct [OF wf nz fits])
  obtain q where "Divide n d = Inr q" "bint q = bint n sdiv bint d"
    by (rule Divide_correct [OF wf nz fits])
  then show ?thesis using r sdiv_mult_smod_eq [of "bint n" "bint d"] by simp
qed

theorem Remainder_exact_witness:
  "\<exists>r. Remainder \<lparr>bi_sign = True, bi_digits = [5, 0, 7]\<rparr> \<lparr>bi_sign = False, bi_digits = [0, 2]\<rparr> = Inr r
     \<and> bint r = - 5"
  using Remainder_exact [of "\<lparr>bi_sign = True, bi_digits = [5, 0, 7]\<rparr>" "\<lparr>bi_sign = False, bi_digits = [0, 2]\<rparr>"]
  by (auto simp: bigint_eval signed_modulo_int_def)

text \<open>
  the 64 by 32 bit division of \<open>DivideAndRemainder\<close>, which works with half digits and
  32-bit wrap-around arithmetic only, is the exact quotient and remainder.
\<close>

theorem DivideAndRemainder_exact:
  assumes "unat highBit < unat divisor"
  shows "case DivideAndRemainder highBit lowBit divisor of (q, r) \<Rightarrow>
    unat q = (unat highBit * 2 ^ 32 + unat lowBit) div unat divisor \<and>
    unat r = (unat highBit * 2 ^ 32 + unat lowBit) mod unat divisor"
  using DivideAndRemainder_spec [OF _ assms, of lowBit]
  by (cases "DivideAndRemainder highBit lowBit divisor") simp

theorem DivideAndRemainder_exact_witness:
  "case DivideAndRemainder 6 4294967295 7 of (q, r) \<Rightarrow> unat q = 4294967295 \<and> unat r = 6"
  using DivideAndRemainder_exact [of 6 7 4294967295] by (auto split: prod.splits)

text \<open>\<open>FloorMod\<close> with a positive modulus is the mathematical modulo, in the range from 0 to the modulus.\<close>

theorem FloorMod_exact:
  assumes "wf_bigint l" "wf_bigint m" "0 < bint m" "GetLength m = 1 \<or> GetLength l < MAXSIZE \<or> bmag l \<le> bmag m"
  shows "\<exists>r. FloorMod l m = Inr r \<and> wf_bigint r \<and> bint r = bint l mod bint m \<and> 0 \<le> bint r \<and> bint r < bint m"
  using FloorMod_correct [OF assms] assms(3) by (metis pos_mod_bound pos_mod_sign)

theorem FloorMod_exact_witness:
  "\<exists>r. FloorMod \<lparr>bi_sign = True, bi_digits = [5]\<rparr> \<lparr>bi_sign = False, bi_digits = [0, 1]\<rparr> = Inr r \<and> bint r = 4294967291"
  using FloorMod_exact [of "\<lparr>bi_sign = True, bi_digits = [5]\<rparr>" "\<lparr>bi_sign = False, bi_digits = [0, 1]\<rparr>"]
  by (auto simp: bigint_eval)

section \<open>Shifts\<close>

text \<open>
  C12: \<open>SignedRightShift\<close> by a non-negative count never throws and is the floor division
  by a power of two, also for negative operands and for counts of any size.
\<close>

theorem SignedRightShift_floor:
  assumes "wf_bigint x" "wf_bigint y" "\<not> bi_sign y"
  shows "\<exists>r. SignedRightShift x y = Inr r \<and> wf_bigint r \<and> bint r = bint x div 2 ^ bmag y"
proof (cases "IsZero x \<or> IsZero y")
  case True
  then have "bint x = bint x div 2 ^ bmag y"
    using IsZero_iff [OF assms(1)] IsZero_iff [OF assms(2)] by (auto simp: bint_def)
  then show ?thesis using True assms(1) by (auto simp: SignedRightShift_def)
next
  case False
  obtain r where "RightShiftHelper x y = Inr r" "wf_bigint r" "bint r = bint x div 2 ^ bmag y"
    by (rule RightShiftHelper_correct [OF assms(1,2)])
  then show ?thesis using False assms(3) by (simp add: SignedRightShift_def)
qed

theorem SignedRightShift_floor_witness:
  "\<exists>r. SignedRightShift \<lparr>bi_sign = True, bi_digits = [1, 1]\<rparr> \<lparr>bi_sign = False, bi_digits = [32]\<rparr> = Inr r \<and> bint r = - 2"
  using SignedRightShift_floor [of "\<lparr>bi_sign = True, bi_digits = [1, 1]\<rparr>" "\<lparr>bi_sign = False, bi_digits = [32]\<rparr>"]
  by (auto simp: bigint_eval)



text \<open>
  \<open>LeftShiftHelper\<close> reads the lowest digit of the count only: \<open>1n << 4294967296n\<close> is \<open>1n\<close>
  instead of a RangeError.
\<close>

lemma LeftShift_drops_high_digits:
  "LeftShift \<lparr>bi_sign = False, bi_digits = [1]\<rparr> \<lparr>bi_sign = False, bi_digits = [0, 1]\<rparr>
     = Inr \<lparr>bi_sign = False, bi_digits = [1]\<rparr>"
  by (simp add: LeftShift_def LeftShiftHelper_def IsZero_def GetLength_def GetDigit_def Let_def CreateBigint_def MAXSIZE_eq DATA_BITS_def NewBigInt_def for_up_def SetDigit_def SetSign_def RightTruncate_def)

section \<open>Bitwise operations\<close>



end
