(* ===== verification/BigInt_String.thy ===== *)
theory BigInt_String
  imports BigInt_Theorems
begin

text \<open>
  Conversion of \<open>BigInt\<close> to and from digit strings (js_bigint.cpp): the repeated division
  of a digit string by the target radix (\<open>Division\<close>, \<open>Conversion\<close>), the packing of a
  binary string into 32-bit digits (\<open>SetBigInt\<close>), its inverse \<open>GetBinary\<close> and
  \<open>ToStdString\<close>. The loop of \<open>Conversion\<close> need not end for a radix below 2; it is a
  partial function whose value \<open>None\<close> stands for divergence.
\<close>

section \<open>Operations\<close>

definition dp :: string where
  "dp = ''0123456789abcdefghijklmnopqrstuvwxyz''"

definition char_code :: "char \<Rightarrow> nat" where
  "char_code c = of_char c"

definition CharToInt :: "char \<Rightarrow> nat" where
  "CharToInt c =
     (let k = char_code c in
      if char_code CHR ''0'' \<le> k \<and> k \<le> char_code CHR ''9'' then k - char_code CHR ''0''
      else if char_code CHR ''A'' \<le> k \<and> k \<le> char_code CHR ''Z'' then k - char_code CHR ''A'' + 10
      else if char_code CHR ''a'' \<le> k \<and> k \<le> char_code CHR ''z'' then k - char_code CHR ''a'' + 10
      else 0)"

text \<open>The loop of \<open>Division\<close> rewrites the characters from the left and carries \<open>remain\<close>.\<close>

fun division_loop :: "nat \<Rightarrow> nat \<Rightarrow> string \<Rightarrow> nat \<Rightarrow> string \<times> nat" where
  "division_loop conversionToRadix currentRadix [] remain = ([], remain)"
| "division_loop conversionToRadix currentRadix (c # num) remain =
     (let temp = currentRadix * remain + CharToInt c;
          (num', remain') = division_loop conversionToRadix currentRadix num (temp mod conversionToRadix)
      in (dp ! (temp div conversionToRadix) # num', remain'))"

definition Division :: "string \<Rightarrow> nat \<Rightarrow> nat \<Rightarrow> string \<times> nat" where
  "Division num conversionToRadix currentRadix =
     (let (num, remain) = division_loop conversionToRadix currentRadix num 0
      in (dropWhile (\<lambda>c. c = CHR ''0'') num, remain))"

partial_function (option) conversion_loop :: "nat \<Rightarrow> nat \<Rightarrow> string \<Rightarrow> string \<Rightarrow> string option" where
  "conversion_loop conversionToRadix currentRadix newNum res =
     (if newNum = [] then Some res
      else case Division newNum conversionToRadix currentRadix of
        (newNum, remain) \<Rightarrow> conversion_loop conversionToRadix currentRadix newNum (dp ! remain # res))"

definition Conversion :: "string \<Rightarrow> nat \<Rightarrow> nat \<Rightarrow> string option" where
  "Conversion num conversionToRadix currentRadix = conversion_loop conversionToRadix currentRadix num []"

definition BINARY :: nat where "BINARY = 2"

text \<open>The value of up to 32 binary characters, shifted in one by one.\<close>

definition pack_bits :: "string \<Rightarrow> u32" where
  "pack_bits s = foldl (\<lambda>val c. push_bit 1 val OR (of_nat (char_code c) - of_nat (char_code CHR ''0''))) 0 s"

function set_chunks :: "string \<Rightarrow> nat \<Rightarrow> BigInt \<Rightarrow> BigInt" where
  "set_chunks rest index bigint =
     (if rest = [] then bigint
      else set_chunks (drop DATA_BITS rest) (index - 1) (SetDigit bigint index (pack_bits (take DATA_BITS rest))))"
  by pat_completeness auto

termination
  by (relation "measure (\<lambda>(rest, i, b). length rest)") (auto simp: DATA_BITS_def)

declare set_chunks.simps [simp del]

definition SetBigInt :: "string \<Rightarrow> nat \<Rightarrow> BigInt result option" where
  "SetBigInt numStr currentRadix =
     (let flag = (numStr \<noteq> [] \<and> hd numStr = CHR ''-'');
          body = (if flag then drop 1 numStr else numStr)
      in Option.bind (if currentRadix \<noteq> BINARY then Conversion body BINARY currentRadix else Some body)
        (\<lambda>binaryStr.
          let binaryStrLen = length binaryStr;
              md = binaryStrLen mod DATA_BITS;
              len = binaryStrLen div DATA_BITS + (if md = 0 then 0 else 1)
          in Some (bindE (CreateBigint len) (\<lambda>bigint.
            let (bigint, index) =
                  (if md = 0 then (bigint, len - 1)
                   else (SetDigit bigint (len - 1) (pack_bits (take md binaryStr)), len - 1 - 1));
                bigint = (if flag then SetSign bigint True else bigint)
            in RightTruncate (set_chunks (drop md binaryStr) index bigint)))))"

definition DeZero :: "string \<Rightarrow> string" where
  "DeZero a =
     (let count = length (takeWhile (\<lambda>c. c = CHR ''0'') a)
      in if count = length a then ''0'' else drop count a)"

definition bit_char :: "u32 \<Rightarrow> char" where
  "bit_char val = (if val AND 1 \<noteq> 0 then CHR ''1'' else CHR ''0'')"

text \<open>
  One digit of \<open>GetBinary\<close>: 32 rounds write its bits from \<open>strIndex\<close> downwards. After
  the last round of the last digit the \<open>int\<close> index is -1 in the source and is not used again.
\<close>

definition binary_bit :: "string \<times> nat \<times> u32 \<Rightarrow> string \<times> nat \<times> u32" where
  "binary_bit s = (let (res, strIndex, val) = s in (res[strIndex := bit_char val], strIndex - 1, drop_bit 1 val))"

definition binary_digit :: "BigInt \<Rightarrow> nat \<Rightarrow> string \<times> nat \<Rightarrow> string \<times> nat" where
  "binary_digit bigint index s =
     (let (res, strIndex) = s;
          (res, strIndex, val) = for_up 0 DATA_BITS (\<lambda>i. binary_bit) (res, strIndex, GetDigit bigint index)
      in (res, strIndex))"

definition GetBinary :: "BigInt \<Rightarrow> string" where
  "GetBinary bigint =
     (let len = GetLength bigint;
          strLen = DATA_BITS * len;
          (res, strIndex) = for_up 0 len (binary_digit bigint) (replicate strLen CHR ''0'', strLen - 1)
      in DeZero res)"

definition ToStdString :: "BigInt \<Rightarrow> nat \<Rightarrow> string option" where
  "ToStdString bigint conversionToRadix =
     map_option (\<lambda>res. if bi_sign bigint then CHR ''-'' # res else res)
       (Conversion (GetBinary bigint) conversionToRadix BINARY)"

section \<open>Values of digit strings\<close>

definition nval :: "nat \<Rightarrow> string \<Rightarrow> nat" where
  "nval r s = foldl (\<lambda>v c. v * r + CharToInt c) 0 s"

text \<open>
  A digit of radix \<open>r\<close>, in either case. Other characters also have the value 0 and are excluded.
\<close>

definition digit_char :: "nat \<Rightarrow> char \<Rightarrow> bool" where
  "digit_char r c \<longleftrightarrow> CharToInt c < r \<and> (CharToInt c = 0 \<longrightarrow> c = CHR ''0'')"

lemma length_dp: "length dp = 36"
  unfolding dp_def by (simp only: list.size)

lemma dp_0: "dp ! 0 = CHR ''0''"
  unfolding dp_def by (rule nth_Cons_0)

lemma dp_1: "dp ! 1 = CHR ''1''"
  unfolding dp_def One_nat_def nth_Cons_Suc by (rule nth_Cons_0)

lemma char_codes:
  "char_code CHR ''0'' = 48" "char_code CHR ''1'' = 49" "char_code CHR ''9'' = 57" "char_code CHR ''A'' = 65"
  "char_code CHR ''Z'' = 90" "char_code CHR ''a'' = 97" "char_code CHR ''z'' = 122" "char_code CHR ''-'' = 45"
  by (simp_all add: char_code_def)

lemma CharToInt_code:
  "CharToInt c = (let k = char_code c in
     if 48 \<le> k \<and> k \<le> 57 then k - 48
     else if 65 \<le> k \<and> k \<le> 90 then k - 65 + 10
     else if 97 \<le> k \<and> k \<le> 122 then k - 97 + 10
     else 0)"
  by (simp only: CharToInt_def char_codes)

lemma dp_codes: "map char_code dp = [48..<58] @ [97..<123]"
  unfolding dp_def list.map upt_rec_numeral char_code_def by (simp add: upt_rec)

lemma CharToInt_dp: "k < 36 \<Longrightarrow> CharToInt (dp ! k) = k"
proof -
  assume k: "k < 36"
  have "char_code (dp ! k) = ([48..<58] @ [97..<123]) ! k"
    using nth_map [of k dp char_code] k unfolding dp_codes by (simp add: length_dp del: upt_rec_numeral)
  also have "\<dots> = (if k < 10 then 48 + k else 97 + (k - 10))" using k by (simp add: nth_append del: upt_rec_numeral)
  finally show ?thesis using k by (simp add: CharToInt_code)
qed

lemma CharToInt_binary [simp]: "CharToInt CHR ''0'' = 0" "CharToInt CHR ''1'' = 1"
  by (simp_all add: CharToInt_code char_codes)

lemma nval_Nil [simp]: "nval r [] = 0"
  by (simp add: nval_def)

lemma nval_acc: "foldl (\<lambda>v c. v * r + CharToInt c) a s = a * r ^ length s + nval r s"
proof (induction s arbitrary: a)
  case (Cons c s)
  show ?case
    using Cons [of "a * r + CharToInt c"] Cons [of "CharToInt c"] by (simp add: nval_def algebra_simps)
qed (simp add: nval_def)

lemma nval_Cons: "nval r (c # s) = CharToInt c * r ^ length s + nval r s"
  using nval_acc [of r "CharToInt c" s] by (simp add: nval_def)

lemma nval_append: "nval r (s @ t) = nval r s * r ^ length t + nval r t"
  using nval_acc [of r "nval r s" t] by (simp add: nval_def)

lemma nval_lt: "(\<And>c. c \<in> set s \<Longrightarrow> CharToInt c < r) \<Longrightarrow> nval r s < r ^ length s"
proof (induction s)
  case (Cons c s)
  then have "nval r s < r ^ length s" "CharToInt c + 1 \<le> r" by (simp_all add: Suc_le_eq)
  then have "nval r s + CharToInt c * r ^ length s < (CharToInt c + 1) * r ^ length s" by simp
  also have "\<dots> \<le> r * r ^ length s" using \<open>CharToInt c + 1 \<le> r\<close> by (rule mult_le_mono1)
  finally show ?case by (simp add: nval_Cons)
qed simp

lemma digit_char_less: "digit_char r c \<Longrightarrow> CharToInt c < r"
  by (simp add: digit_char_def)

lemma digit_char_zero: "0 < r \<Longrightarrow> digit_char r CHR ''0''"
  by (simp add: digit_char_def)

lemma digit_char_dp: "k < r \<Longrightarrow> k < 36 \<Longrightarrow> digit_char r (dp ! k)"
  using CharToInt_dp [of k] dp_0 by (cases "k = 0") (simp_all add: digit_char_def)

lemma CharToInt_zero_iff: "digit_char r c \<Longrightarrow> CharToInt c = 0 \<longleftrightarrow> c = CHR ''0''"
  unfolding digit_char_def by auto

section \<open>Change of radix\<close>

lemma div_mod_scale: "n div d * p * d + n mod d * p = n * (p :: nat)"
proof -
  have "n * p = (n div d * d + n mod d) * p" by simp
  then show ?thesis by (simp only: distrib_right mult.assoc mult.commute [of d])
qed

lemma division_loop_spec:
  assumes r: "0 < to" "cur \<le> 36" and rem: "rem < to" and dig: "\<And>c. c \<in> set num \<Longrightarrow> digit_char cur c"
  shows "case division_loop to cur num rem of (num', rem') \<Rightarrow>
    length num' = length num \<and> (\<forall>c \<in> set num'. digit_char cur c) \<and> rem' < to \<and>
    nval cur num' * to + rem' = rem * cur ^ length num + nval cur num"
  using rem dig
proof (induction num arbitrary: rem)
  case Nil
  then show ?case by simp
next
  case (Cons c num)
  let ?t = "cur * rem + CharToInt c"
  have c: "CharToInt c < cur" using Cons.prems(2) digit_char_less by simp
  have "?t < cur * (rem + 1)" using c by simp
  also have "\<dots> \<le> cur * to" using Cons.prems(1) by (intro mult_le_mono2) simp
  finally have q: "?t div to < cur" by (simp add: less_mult_imp_div_less mult.commute)
  obtain num' rem' where d: "division_loop to cur num (?t mod to) = (num', rem')" by fastforce
  have IH: "length num' = length num" "\<forall>c \<in> set num'. digit_char cur c" "rem' < to"
    "nval cur num' * to + rem' = (?t mod to) * cur ^ length num + nval cur num"
    using Cons.IH [of "?t mod to"] Cons.prems(2) r(1) d by auto
  have dc: "digit_char cur (dp ! (?t div to))" "CharToInt (dp ! (?t div to)) = ?t div to"
    using q r(2) CharToInt_dp [of "?t div to"] digit_char_dp [of "?t div to"] by auto
  have "nval cur (dp ! (?t div to) # num') * to + rem' =
      ?t div to * cur ^ length num * to + (nval cur num' * to + rem')"
    unfolding nval_Cons dc(2) IH(1) distrib_right by simp
  also have "\<dots> = (?t div to * cur ^ length num * to + ?t mod to * cur ^ length num) + nval cur num"
    unfolding IH(4) by simp
  also have "\<dots> = ?t * cur ^ length num + nval cur num" unfolding div_mod_scale ..
  also have "\<dots> = rem * cur ^ length (c # num) + nval cur (c # num)"
    by (simp add: nval_Cons algebra_simps)
  finally have "nval cur (dp ! (?t div to) # num') * to + rem' = rem * cur ^ length (c # num) + nval cur (c # num)" .
  then show ?case using IH dc(1) d by simp
qed

lemma nval_strip: "nval r (dropWhile (\<lambda>c. c = CHR ''0'') s) = nval r s"
  by (induction s) (simp_all add: nval_Cons)

lemma strip_eq_Nil:
  assumes "\<And>c. c \<in> set s \<Longrightarrow> digit_char r c" "nval r s = 0" "0 < r"
  shows "dropWhile (\<lambda>c. c = CHR ''0'') s = []"
  using assms(1,2)
proof (induction s)
  case (Cons c s)
  then have "CharToInt c = 0" "nval r s = 0" using assms(3) by (auto simp: nval_Cons)
  moreover have "c = CHR ''0''" using \<open>CharToInt c = 0\<close> CharToInt_zero_iff [of r c] Cons.prems(1) by simp
  ultimately show ?case using Cons by simp
qed simp

lemma Division_spec:
  assumes r: "0 < to" "0 < cur" "cur \<le> 36" and dig: "\<And>c. c \<in> set num \<Longrightarrow> digit_char cur c"
  obtains num' rem' where "Division num to cur = (num', rem')" "\<And>c. c \<in> set num' \<Longrightarrow> digit_char cur c"
    "rem' = nval cur num mod to" "nval cur num' = nval cur num div to" "nval cur num < to \<Longrightarrow> num' = []"
proof -
  obtain num' rem' where d: "division_loop to cur num 0 = (num', rem')" by fastforce
  have D: "\<forall>c \<in> set num'. digit_char cur c" "rem' < to" "nval cur num' * to + rem' = nval cur num"
    using division_loop_spec [OF r(1,3), of 0 num] dig r(1) d by auto
  have v: "rem' = nval cur num mod to" "nval cur num' = nval cur num div to"
    using D(2,3) by (auto simp: D(3) [symmetric])
  show thesis
  proof (rule that)
    show "Division num to cur = (dropWhile (\<lambda>c. c = CHR ''0'') num', rem')" using d by (simp add: Division_def)
    show "\<And>c. c \<in> set (dropWhile (\<lambda>c. c = CHR ''0'') num') \<Longrightarrow> digit_char cur c"
      using D(1) by (auto dest: set_dropWhileD)
    show "nval cur (dropWhile (\<lambda>c. c = CHR ''0'') num') = nval cur num div to" using v by (simp add: nval_strip)
    show "dropWhile (\<lambda>c. c = CHR ''0'') num' = []" if "nval cur num < to"
      using D(1) v(2) r(2) that by (intro strip_eq_Nil [of _ cur]) auto
  qed (rule v(1))
qed

text \<open>
  The loop ends because every division makes the value smaller, and the digits it has
  written represent the number in the new radix.
\<close>

lemma conversion_loop_correct:
  assumes r: "2 \<le> to" "to \<le> 36" "0 < cur" "cur \<le> 36"
    and dig: "\<And>c. c \<in> set num \<Longrightarrow> digit_char cur c" "\<And>c. c \<in> set res \<Longrightarrow> digit_char to c"
  shows "\<exists>out. conversion_loop to cur num res = Some out \<and> (\<forall>c \<in> set out. digit_char to c) \<and>
    nval to out = nval cur num * to ^ length res + nval to res \<and>
    (num \<noteq> [] \<longrightarrow> out \<noteq> [] \<and> (0 < nval cur num \<longrightarrow> hd out \<noteq> CHR ''0'') \<and> (nval cur num = 0 \<longrightarrow> out = CHR ''0'' # res))"
  using dig
proof (induction "nval cur num" arbitrary: num res rule: less_induct)
  case less
  show ?case
  proof (cases "num = []")
    case True
    then show ?thesis using less.prems(2) by (simp add: conversion_loop.simps [of to cur "[]"])
  next
    case False
    let ?n = "nval cur num"
    obtain num' rem where d: "Division num to cur = (num', rem)" "\<And>c. c \<in> set num' \<Longrightarrow> digit_char cur c"
      "rem = ?n mod to" "nval cur num' = ?n div to" "?n < to \<Longrightarrow> num' = []"
      by (rule Division_spec [of to cur num]) (use r less.prems(1) in auto)
    have rem_less: "rem < to" unfolding d(3) using r(1) by (intro mod_less_divisor) simp
    then have rem: "rem < to" "CharToInt (dp ! rem) = rem" "digit_char to (dp ! rem)"
      using r(2) CharToInt_dp [of rem] digit_char_dp [of rem] by auto
    have unf: "conversion_loop to cur num res = conversion_loop to cur num' (dp ! rem # res)"
      using False d(1) by (simp add: conversion_loop.simps [of to cur num])
    show ?thesis
    proof (cases "?n < to")
      case True
      then have "num' = []" "rem = ?n" using d by auto
      moreover have "dp ! rem = CHR ''0'' \<longleftrightarrow> rem = 0"
        using CharToInt_zero_iff [OF rem(3)] rem(2) by auto
      ultimately show ?thesis
        using unf rem less.prems(2) False by (auto simp: conversion_loop.simps [of to cur "[]"] nval_Cons)
    next
      case big: False
      have lt: "nval cur num' < ?n" using d(4) big r(1) by simp
      have ne: "0 < nval cur num'" using d(4) big r(1) by (simp add: div_greater_zero_iff)
      then have "num' \<noteq> []" by auto
      then obtain out where o: "conversion_loop to cur num' (dp ! rem # res) = Some out" "\<forall>c \<in> set out. digit_char to c"
        "nval to out = nval cur num' * to ^ length (dp ! rem # res) + nval to (dp ! rem # res)"
        "out \<noteq> []" "hd out \<noteq> CHR ''0''"
        using less.hyps [OF lt d(2), of "dp ! rem # res"] rem(3) less.prems(2) ne by auto
      have "nval to out = nval cur num' * to ^ length res * to + rem * to ^ length res + nval to res"
        unfolding o(3) by (simp add: nval_Cons rem(2))
      then have "nval to out = ?n * to ^ length res + nval to res"
        unfolding d(3,4) div_mod_scale .
      then show ?thesis using unf o(1,2,4,5) big r(1) by auto
    qed
  qed
qed

section \<open>Binary strings\<close>

definition bchar :: "bool \<Rightarrow> char" where
  "bchar b = (if b then CHR ''1'' else CHR ''0'')"

text \<open>The \<open>n\<close> low bits of a number, most significant first.\<close>

definition bits_str :: "nat \<Rightarrow> nat \<Rightarrow> string" where
  "bits_str v n = map (\<lambda>j. bchar (bit v j)) (rev [0..<n])"

lemma CharToInt_bchar [simp]: "CharToInt (bchar b) = of_bool b"
  by (simp add: bchar_def)

lemma bits_str_simps [simp]:
  "bits_str v 0 = []" "bits_str v (Suc n) = bchar (bit v n) # bits_str v n" "length (bits_str v n) = n"
  by (simp_all add: bits_str_def)

lemma bits_str_nth: "j < n \<Longrightarrow> bits_str v n ! (n - 1 - j) = bchar (bit v j)"
  by (simp add: bits_str_def rev_nth)

lemma nval_bits_str: "nval 2 (bits_str v n) = take_bit n v"
proof (induction n)
  case (Suc n)
  have "take_bit (Suc n) v = of_bool (bit v n) * 2 ^ n + take_bit n v"
    by (simp add: take_bit_Suc_from_most)
  then show ?case using Suc by (simp add: nval_Cons)
qed simp

lemma digit_bchar: "digit_char 2 (bchar b)"
  by (cases b) (simp_all add: digit_char_def bchar_def)

lemma bits_str_digits: "c \<in> set (bits_str v n) \<Longrightarrow> digit_char 2 c"
  by (auto simp: bits_str_def digit_bchar)

lemma bit_char_bit: "bit_char w = bchar (bit w 0)"
  by (simp add: bit_char_def bchar_def and_one_eq bit_0 mod_2_eq_odd)

lemma bit_bval_digit:
  "i < length ds \<Longrightarrow> k < 32 \<Longrightarrow> bit (bval ds) (32 * i + k) = bit (ds ! i) k"
  by (simp add: bit_bval dig_def)

definition written :: "BigInt \<Rightarrow> nat \<Rightarrow> string \<times> nat \<Rightarrow> bool" where
  "written x k s \<longleftrightarrow>
     (let n = 32 * GetLength x in
      length (fst s) = n \<and> snd s = n - 1 - k \<and> (\<forall>j < k. fst s ! (n - 1 - j) = bchar (bit (bmag x) j)))"

lemma binary_bit_written:
  assumes "written x k (res, i)" "k < 32 * GetLength x" "bit v 0 = bit (bmag x) k"
  shows "written x (Suc k) (res[i := bit_char v], i - 1)"
proof -
  let ?n = "32 * GetLength x"
  have w: "length res = ?n" "i = ?n - 1 - k" "\<And>j. j < k \<Longrightarrow> res ! (?n - 1 - j) = bchar (bit (bmag x) j)"
    using assms(1) by (auto simp: written_def Let_def)
  have "res[i := bit_char v] ! (?n - 1 - j) = bchar (bit (bmag x) j)" if "j < Suc k" for j
  proof (cases "j = k")
    case True
    then show ?thesis using w(1,2) assms(2,3) by (simp add: bit_char_bit)
  next
    case False
    then show ?thesis using that w assms(2) by (simp add: nth_list_update)
  qed
  then show ?thesis using w(1,2) by (simp add: written_def Let_def)
qed

lemma binary_digit_written:
  assumes "written x (32 * i) s" "i < GetLength x"
  shows "written x (32 * Suc i) (binary_digit x i s)"
proof -
  obtain res idx where s: "s = (res, idx)" by (cases s)
  let ?I = "\<lambda>k (r :: string, j :: nat, v :: u32). written x (32 * i + k) (r, j) \<and> v = drop_bit k (GetDigit x i)"
  have "?I 32 (for_up 0 32 (\<lambda>_. binary_bit) (res, idx, GetDigit x i))"
  proof (rule for_up_inv [where I = ?I])
    show "?I 0 (res, idx, GetDigit x i)" using assms(1) by (simp add: s)
  next
    fix k and t :: "string \<times> nat \<times> u32"
    assume k: "k < 32" and inv: "?I k t"
    obtain r j v where t: "t = (r, j, v)" by (cases t)
    have w: "written x (32 * i + k) (r, j)" and v: "v = drop_bit k (GetDigit x i)" using inv by (auto simp: t)
    have "bit v 0 = bit (bmag x) (32 * i + k)"
      using bit_bval_digit [of i "bi_digits x" k] assms(2) k
      by (simp add: v bit_drop_bit_eq bmag_def GetLength_def GetDigit_def)
    from binary_bit_written [OF w _ this] have "written x (Suc (32 * i + k)) (r[j := bit_char v], j - 1)"
      using assms(2) k by simp
    moreover have "drop_bit 1 v = drop_bit (Suc k) (GetDigit x i)" by (simp add: v drop_bit_drop_bit)
    ultimately show "?I (Suc k) (binary_bit t)" by (simp add: binary_bit_def t)
  qed simp
  then show ?thesis by (auto simp: binary_digit_def s DATA_BITS_def add.commute split: prod.splits)
qed

lemma GetBinary_eq: "GetBinary x = DeZero (bits_str (bmag x) (32 * GetLength x))"
proof -
  let ?n = "32 * GetLength x"
  obtain res i where lp: "for_up 0 (GetLength x) (binary_digit x) (replicate ?n CHR ''0'', ?n - 1) = (res, i)"
    by fastforce
  have "written x (32 * GetLength x) (for_up 0 (GetLength x) (binary_digit x) (replicate ?n CHR ''0'', ?n - 1))"
  proof (rule for_up_inv [where I = "\<lambda>i s. written x (32 * i) s"])
    show "written x (32 * 0) (replicate ?n CHR ''0'', ?n - 1)" by (simp add: written_def)
  qed (simp_all only: binary_digit_written zero_le)
  then have w: "length res = ?n" "\<And>j. j < ?n \<Longrightarrow> res ! (?n - 1 - j) = bchar (bit (bmag x) j)"
    unfolding lp by (auto simp: written_def Let_def)
  have "res = bits_str (bmag x) ?n"
  proof (rule nth_equalityI)
    fix i assume i: "i < length res"
    then have "res ! (?n - 1 - (?n - 1 - i)) = bits_str (bmag x) ?n ! (?n - 1 - (?n - 1 - i))"
      using w(2) [of "?n - 1 - i"] bits_str_nth [of "?n - 1 - i" ?n "bmag x"] w(1) by simp
    moreover have "?n - 1 - (?n - 1 - i) = i" using i w(1) by simp
    ultimately show "res ! i = bits_str (bmag x) ?n ! i" by simp
  qed (simp add: w(1))
  then show ?thesis using lp by (simp add: GetBinary_def DATA_BITS_def)
qed

lemma takeWhile_full: "length (takeWhile P xs) = length xs \<longleftrightarrow> dropWhile P xs = []"
  by (induction xs) auto

lemma DeZero_eq:
  "DeZero s = (let t = dropWhile (\<lambda>c. c = CHR ''0'') s in if t = [] then ''0'' else t)"
  unfolding DeZero_def Let_def takeWhile_full dropWhile_eq_drop [symmetric] ..

lemma DeZero_spec:
  shows "nval r (DeZero s) = nval r s" "DeZero s \<noteq> []" "set (DeZero s) \<subseteq> insert CHR ''0'' (set s)"
proof -
  define t where "t = dropWhile (\<lambda>c. c = CHR ''0'') s"
  have t: "nval r t = nval r s" "set t \<subseteq> set s"
    using nval_strip [of r s] by (auto simp: t_def dest: set_dropWhileD)
  have "DeZero s = (if t = [] then ''0'' else t)" by (simp add: DeZero_eq t_def)
  then show "nval r (DeZero s) = nval r s" "DeZero s \<noteq> []" "set (DeZero s) \<subseteq> insert CHR ''0'' (set s)"
    using t by (auto simp: nval_Cons split: if_splits)
qed

lemma bmag_take_bit: "take_bit (32 * GetLength x) (bmag x) = bmag x"
proof -
  have "bmag x < B ^ GetLength x" using bval_lt [of "bi_digits x"] by (simp add: bmag_def GetLength_def)
  also have "\<dots> = 2 ^ (32 * GetLength x)" unfolding power_mult by simp
  finally show ?thesis by (simp add: take_bit_nat_eq_self)
qed

lemma GetBinary_spec:
  shows "nval 2 (GetBinary x) = bmag x" "GetBinary x \<noteq> []" "\<And>c. c \<in> set (GetBinary x) \<Longrightarrow> digit_char 2 c"
proof -
  let ?s = "bits_str (bmag x) (32 * GetLength x)"
  show "nval 2 (GetBinary x) = bmag x" "GetBinary x \<noteq> []"
    using DeZero_spec by (simp_all add: GetBinary_eq nval_bits_str bmag_take_bit)
  show "\<And>c. c \<in> set (GetBinary x) \<Longrightarrow> digit_char 2 c"
    using DeZero_spec(3) [of ?s] bits_str_digits digit_char_zero [of 2] unfolding GetBinary_eq by auto
qed

section \<open>Packing binary digits\<close>

lemma binary_digit_cases: "digit_char 2 c \<Longrightarrow> c = CHR ''0'' \<or> c = CHR ''1''"
proof -
  assume d: "digit_char 2 c"
  then consider "CharToInt c = 0" | "CharToInt c = 1" unfolding digit_char_def by linarith
  then show ?thesis
  proof cases
    case 1
    then show ?thesis using d by (simp add: digit_char_def)
  next
    case 2
    then have "char_code c = char_code CHR ''1''"
      unfolding CharToInt_code Let_def char_codes by (simp split: if_splits)
    then show ?thesis unfolding char_code_def of_char_eq_iff by simp
  qed
qed

lemma bit_char_value:
  assumes "digit_char 2 c"
  shows "unat (of_nat (char_code c) - of_nat (char_code CHR ''0'') :: u32) = CharToInt c"
  using binary_digit_cases [OF assms] by (elim disjE) (simp_all only: char_codes CharToInt_binary, simp_all)

lemma pack_step:
  assumes "digit_char 2 c" "unat a * 2 < B"
  shows "unat (push_bit 1 a OR (of_nat (char_code c) - of_nat (char_code CHR ''0'')) :: u32) = unat a * 2 + CharToInt c"
proof -
  let ?b = "of_nat (char_code c) - of_nat (char_code CHR ''0'') :: u32"
  have "unat ?b < 2 ^ 1" unfolding bit_char_value [OF assms(1)] using digit_char_less [OF assms(1)] by simp
  from unat_shl_or [OF _ this, of a] show ?thesis
    unfolding bit_char_value [OF assms(1)] using assms(2) by simp
qed

lemma pack_bits_acc:
  assumes "\<And>c. c \<in> set s \<Longrightarrow> digit_char 2 c" "unat a * 2 ^ length s + nval 2 s < B"
  shows "unat (foldl (\<lambda>val c. push_bit 1 val OR (of_nat (char_code c) - of_nat (char_code CHR ''0''))) a s :: u32)
    = unat a * 2 ^ length s + nval 2 s"
  using assms
proof (induction s arbitrary: a)
  case Nil
  then show ?case by (simp add: nval_def)
next
  case (Cons c s)
  let ?a = "push_bit 1 a OR (of_nat (char_code c) - of_nat (char_code CHR ''0''))"
  have "unat a * 2 * 1 \<le> unat a * 2 * 2 ^ length s" by (intro mult_le_mono2) simp
  also have "\<dots> = unat a * 2 ^ length (c # s)" by simp
  finally have lt: "unat a * 2 < B" using Cons.prems(2) by linarith
  have a: "unat ?a = unat a * 2 + CharToInt c" using Cons.prems(1) by (intro pack_step lt) simp
  have tot: "unat ?a * 2 ^ length s + nval 2 s = unat a * 2 ^ length (c # s) + nval 2 (c # s)"
    unfolding a nval_Cons distrib_right by simp
  have "\<And>c. c \<in> set s \<Longrightarrow> digit_char 2 c" using Cons.prems(1) by simp
  from Cons.IH [OF this, of ?a] Cons.prems(2) show ?case unfolding foldl_Cons tot by blast
qed

lemma pack_bits_value:
  assumes "\<And>c. c \<in> set s \<Longrightarrow> digit_char 2 c" "length s \<le> 32"
  shows "unat (pack_bits s) = nval 2 s"
proof -
  have "nval 2 s < 2 ^ length s" using assms(1) digit_char_less by (intro nval_lt) blast
  also have "\<dots> \<le> 2 ^ 32" using assms(2) by (intro power_increasing) auto
  finally show ?thesis using pack_bits_acc [of s 0] assms(1) by (simp add: pack_bits_def)
qed

lemma set_chunks_spec:
  assumes "\<And>c. c \<in> set rest \<Longrightarrow> digit_char 2 c" "length rest = 32 * n" "n \<le> length (bi_digits b)"
  shows "length (bi_digits (set_chunks rest (n - 1) b)) = length (bi_digits b) \<and>
    bi_sign (set_chunks rest (n - 1) b) = bi_sign b \<and>
    drop n (bi_digits (set_chunks rest (n - 1) b)) = drop n (bi_digits b) \<and>
    bval (take n (bi_digits (set_chunks rest (n - 1) b))) = nval 2 rest"
  using assms
proof (induction n arbitrary: rest b)
  case 0
  then show ?case by (simp add: set_chunks.simps)
next
  case (Suc m)
  let ?d = "pack_bits (take 32 rest)" and ?r = "drop 32 rest"
  let ?b = "SetDigit b m ?d"
  let ?f = "set_chunks ?r (m - 1) ?b"
  have eq: "set_chunks rest (Suc m - 1) b = ?f"
    using Suc.prems(2) by (subst set_chunks.simps) (auto simp: DATA_BITS_def)
  have dg: "\<And>c. c \<in> set ?r \<Longrightarrow> digit_char 2 c" "\<And>c. c \<in> set (take 32 rest) \<Longrightarrow> digit_char 2 c"
    using Suc.prems(1) by (auto dest: in_set_dropD in_set_takeD)
  have lr: "length ?r = 32 * m" "m \<le> length (bi_digits ?b)" using Suc.prems(2,3) by auto
  have IH: "length (bi_digits ?f) = length (bi_digits b)" "bi_sign ?f = bi_sign b"
    "drop m (bi_digits ?f) = drop m ((bi_digits b)[m := ?d])" "bval (take m (bi_digits ?f)) = nval 2 ?r"
    using Suc.IH [OF dg(1) lr] by simp_all
  have dr: "drop (Suc m) (bi_digits ?f) = drop (Suc m) (bi_digits b)"
    using drop_eq_Suc [OF IH(3)] by simp
  have "bi_digits ?f ! m = ?d"
    using arg_cong [OF IH(3), of hd] IH(1) Suc.prems(3) by (simp add: hd_drop_conv_nth)
  then have "bval (take (Suc m) (bi_digits ?f)) = nval 2 ?r + B ^ m * nval 2 (take 32 rest)"
    using IH(1,4) Suc.prems(3) pack_bits_value [OF dg(2)] by (simp add: bval_take_Suc)
  also have "\<dots> = nval 2 (take 32 rest @ ?r)"
  proof -
    have "B ^ m = 2 ^ (32 * m)" unfolding power_mult by simp
    then show ?thesis unfolding nval_append lr(1) by simp
  qed
  finally show ?case using IH(1,2) dr eq by simp
qed

text \<open>The digits that \<open>SetBigInt\<close> allocates for a binary string.\<close>

definition chunk_count :: "nat \<Rightarrow> nat" where
  "chunk_count n = n div 32 + (if n mod 32 = 0 then 0 else 1)"

lemma chunk_count_le: "n \<le> 32 * m \<Longrightarrow> chunk_count n \<le> m"
  using div_mult_mod_eq [of n 32] unfolding chunk_count_def by (cases "n mod 32 = 0"; simp; linarith)

definition packed :: "string \<Rightarrow> bool \<Rightarrow> BigInt" where
  "packed str flag =
     (let md = length str mod 32; len = chunk_count (length str);
          (b, index) = (if md = 0 then (NewBigInt len, len - 1)
             else (SetDigit (NewBigInt len) (len - 1) (pack_bits (take md str)), len - 1 - 1));
          b = (if flag then SetSign b True else b)
      in set_chunks (drop md str) index b)"

lemma packed_spec:
  assumes dig: "\<And>c. c \<in> set str \<Longrightarrow> digit_char 2 c" and ne: "str \<noteq> []"
  shows "length (bi_digits (packed str flag)) = chunk_count (length str)" "bi_sign (packed str flag) = flag"
    "bmag (packed str flag) = nval 2 str"
proof -
  let ?md = "length str mod 32" and ?len = "chunk_count (length str)"
  have res: "length (bi_digits (packed str flag)) = ?len \<and> bi_sign (packed str flag) = flag \<and>
    bmag (packed str flag) = nval 2 str"
  proof (cases "?md = 0")
    case True
    let ?b = "if flag then SetSign (NewBigInt ?len) True else NewBigInt ?len"
    have l: "length str = 32 * ?len" using True by (simp add: chunk_count_def) (metis div_mult_mod_eq add.right_neutral mult.commute)
    have "packed str flag = set_chunks str (?len - 1) ?b" using True by (simp add: packed_def Let_def)
    moreover have "length (bi_digits ?b) = ?len" "bi_sign ?b = flag" by simp_all
    ultimately have "length (bi_digits (packed str flag)) = ?len" "bi_sign (packed str flag) = flag"
      "bval (take ?len (bi_digits (packed str flag))) = nval 2 str"
      using set_chunks_spec [OF dig l, of ?b] by (simp_all only: order_refl simp_thms)
    then show ?thesis by (simp add: bmag_def)
  next
    case False
    define n where "n = length str div 32"
    let ?d = "pack_bits (take ?md str)" and ?r = "drop ?md str"
    let ?b = "SetDigit (NewBigInt (Suc n)) n ?d"
    let ?c = "if flag then SetSign ?b True else ?b"
    have len: "?len = Suc n" using False by (simp add: chunk_count_def n_def)
    have l: "length ?r = 32 * n" by (simp add: n_def minus_mod_eq_mult_div)
    have dg: "\<And>c. c \<in> set ?r \<Longrightarrow> digit_char 2 c" "\<And>c. c \<in> set (take ?md str) \<Longrightarrow> digit_char 2 c"
      using dig by (auto dest: in_set_dropD in_set_takeD)
    have eq: "packed str flag = set_chunks ?r (n - 1) ?c" using False by (simp add: packed_def len Let_def)
    have sg: "bi_digits ?c = bi_digits ?b" "bi_sign ?c = flag" "length (bi_digits ?b) = Suc n"
      by (simp_all del: replicate_Suc)
    have S: "length (bi_digits (packed str flag)) = Suc n" "bi_sign (packed str flag) = flag"
      "drop n (bi_digits (packed str flag)) = drop n (bi_digits ?b)"
      "bval (take n (bi_digits (packed str flag))) = nval 2 ?r"
      using set_chunks_spec [OF dg(1) l, of ?c] sg unfolding eq by simp_all
    have "drop n (bi_digits ?b) = [?d]" by (simp add: drop_update_swap del: replicate_Suc) simp
    then have "bmag (packed str flag) = nval 2 ?r + B ^ n * unat ?d"
      using bval_take_drop [of "bi_digits (packed str flag)" n] S by (simp add: bmag_def)
    also have "\<dots> = nval 2 (take ?md str @ ?r)"
    proof -
      have "B ^ n = 2 ^ (32 * n)" unfolding power_mult by simp
      moreover have "unat ?d = nval 2 (take ?md str)" by (rule pack_bits_value [OF dg(2)]) simp_all
      ultimately show ?thesis unfolding nval_append l by simp
    qed
    finally show ?thesis using S(1,2) len by simp
  qed
  show "length (bi_digits (packed str flag)) = ?len" using res by blast
  show "bi_sign (packed str flag) = flag" using res by blast
  show "bmag (packed str flag) = nval 2 str" using res by blast
qed

lemma SetBigInt_binary:
  assumes bin: "(if radix \<noteq> BINARY then Conversion body BINARY radix else Some body) = Some str"
    and dig: "\<And>c. c \<in> set str \<Longrightarrow> digit_char 2 c" "str \<noteq> []" and fits: "chunk_count (length str) \<le> MAXSIZE"
    and num: "numStr = (if flag then CHR ''-'' # body else body)" "flag \<or> hd body \<noteq> CHR ''-''" "body \<noteq> []"
  obtains r where "SetBigInt numStr radix = Some (Inr r)" "wf_bigint r"
    "bint r = (if flag then - int (nval 2 str) else int (nval 2 str))"
proof -
  have fl: "(numStr \<noteq> [] \<and> hd numStr = CHR ''-'') = flag" "(if flag then drop 1 numStr else numStr) = body"
    using num by auto
  have c: "chunk_count (length str) = length str div DATA_BITS + (if length str mod DATA_BITS = 0 then 0 else 1)"
    by (simp add: chunk_count_def DATA_BITS_def)
  have eq: "SetBigInt numStr radix = Some (RightTruncate (packed str flag))"
    using fits unfolding SetBigInt_def Let_def fl bin bind.bind_lunit c [symmetric] packed_def
    by (simp add: CreateBigint_Inr DATA_BITS_def Let_def split: prod.splits)
  note P = packed_spec [OF dig, where flag = flag]
  have "length str \<noteq> 0" using dig(2) by simp
  then have "0 < chunk_count (length str)"
    unfolding chunk_count_def by (cases "length str < 32") (simp_all add: div_greater_zero_iff)
  then have ne: "bi_digits (packed str flag) \<noteq> []" using P(1) by auto
  obtain r where "RightTruncate (packed str flag) = Inr r" "wf_bigint r" "bint r = bint (packed str flag)"
    by (rule RightTruncate_correct [OF ne]) (use P(1) fits in \<open>auto simp: GetLength_def\<close>)
  moreover have "bint (packed str flag) = (if flag then - int (nval 2 str) else int (nval 2 str))"
    by (simp only: bint_def P(2,3))
  ultimately show thesis using that [of r] eq by simp
qed


section \<open>Parsing and printing\<close>

lemma wf_bigint_inject:
  assumes "wf_bigint x" "wf_bigint y" "bint x = bint y"
  shows "x = y"
proof (rule BigInt.equality)
  have m: "bmag x = bmag y" and s: "bi_sign x = bi_sign y"
    using assms(3) wf_bigintD(5) [OF assms(1)] wf_bigintD(5) [OF assms(2)] by (auto simp: bint_def split: if_splits)
  show "bi_digits x = bi_digits y"
    using m by (intro wf_digits_inject wf_bigintD(1) assms(1,2)) (simp add: bmag_def)
qed (use assms wf_bigintD(5) [OF assms(1)] wf_bigintD(5) [OF assms(2)] in \<open>auto simp: bint_def split: if_splits\<close>)

lemma wf_bigint_mag_less: "wf_bigint x \<Longrightarrow> bmag x < B ^ MAXSIZE"
proof -
  assume wf: "wf_bigint x"
  have "bmag x < B ^ GetLength x" unfolding bmag_def GetLength_def by (rule bval_lt)
  also have "\<dots> \<le> B ^ MAXSIZE" by (rule power_increasing) (use wf_bigintD(4) [OF wf] in simp_all)
  finally show ?thesis .
qed

text \<open>A digit string without leading zeros, the form that \<open>Conversion\<close> writes.\<close>

definition canonical :: "nat \<Rightarrow> string \<Rightarrow> bool" where
  "canonical r s \<longleftrightarrow> s \<noteq> [] \<and> list_all (digit_char r) s \<and> (s = ''0'' \<or> hd s \<noteq> CHR ''0'')"

lemma Conversion_canonical:
  assumes "2 \<le> to" "to \<le> 36" "0 < cur" "cur \<le> 36" "list_all (digit_char cur) num" "num \<noteq> []"
  obtains out where "Conversion num to cur = Some out" "canonical to out" "nval to out = nval cur num"
  using conversion_loop_correct [OF assms(1-4), of num "[]"] assms(5,6)
  unfolding Conversion_def canonical_def list_all_iff by fastforce

lemma canonical_length_le:
  assumes "canonical 2 s" "nval 2 s < B ^ m" "0 < m"
  shows "chunk_count (length s) \<le> m"
proof (rule chunk_count_le)
  show "length s \<le> 32 * m"
  proof (cases "s = ''0''")
    case False
    then obtain c t where s: "s = c # t" "digit_char 2 c" "c \<noteq> CHR ''0''"
      using assms(1) unfolding canonical_def by (cases s) auto
    then have "c = CHR ''1''" using binary_digit_cases by blast
    then have "2 ^ length t \<le> nval 2 s" using s(1) by (simp add: nval_Cons)
    also have "\<dots> < 2 ^ (32 * m)" using assms(2) by (simp add: power_mult)
    finally have "length t < 32 * m" by simp
    then show ?thesis using s(1) by simp
  qed (use assms(3) in simp)
qed


lemma digit_char_not_minus: "\<not> digit_char r CHR ''-''"
  by (simp add: digit_char_def CharToInt_code char_codes)

lemma hd_not_minus: "list_all (digit_char r) s \<Longrightarrow> s \<noteq> [] \<Longrightarrow> hd s \<noteq> CHR ''-''"
  using digit_char_not_minus by (cases s) auto

text \<open>
  C16: for every radix from 2 to 36 \<open>ToStdString\<close> terminates and writes the canonical digits of
  the magnitude, with a minus sign exactly for the negative numbers.
\<close>

theorem ToStdString_exact:
  assumes "wf_bigint x" "2 \<le> r" "r \<le> 36"
  shows "\<exists>s. ToStdString x r = Some (if bint x < 0 then CHR ''-'' # s else s) \<and>
    canonical r s \<and> nval r s = nat \<bar>bint x\<bar>"
proof -
  obtain s where "Conversion (GetBinary x) r BINARY = Some s" "canonical r s" "nval r s = bmag x"
    by (rule Conversion_canonical [of r 2 "GetBinary x"])
      (use assms(2,3) GetBinary_spec in \<open>auto simp: list_all_iff BINARY_def\<close>)
  moreover have "bi_sign x = (bint x < 0)" "nat \<bar>bint x\<bar> = bmag x"
    using wf_bigintD(5) [OF assms(1)] by (auto simp: bint_def)
  ultimately show ?thesis by (auto simp: ToStdString_def)
qed

theorem ToStdString_exact_witness:
  "\<exists>s. ToStdString \<lparr>bi_sign = True, bi_digits = [255]\<rparr> 16 = Some (CHR ''-'' # s) \<and> canonical 16 s \<and> nval 16 s = 255"
  using ToStdString_exact [of "\<lparr>bi_sign = True, bi_digits = [255]\<rparr>" 16] by (simp add: bigint_eval)


lemma SetBigInt_parses:
  assumes r: "2 \<le> r" "r \<le> 36" and s: "list_all (digit_char r) s" "s \<noteq> []" "r = 2 \<longrightarrow> canonical 2 s"
    and fits: "nval r s < B ^ MAXSIZE"
  obtains x where "SetBigInt (if neg then CHR ''-'' # s else s) r = Some (Inr x)" "wf_bigint x"
    "bint x = (if neg then - int (nval r s) else int (nval r s))"
proof -
  obtain str where str: "(if r \<noteq> BINARY then Conversion s BINARY r else Some s) = Some str" "canonical 2 str"
    "nval 2 str = nval r s"
  proof (cases "r = 2")
    case True
    then show thesis using that s(3) by (simp add: BINARY_def)
  next
    case False
    then show thesis using Conversion_canonical [of 2 r s thesis] r s that by (simp add: BINARY_def)
  qed
  have "chunk_count (length str) \<le> MAXSIZE"
  proof (rule canonical_length_le [OF str(2)])
    show "nval 2 str < B ^ MAXSIZE" using fits unfolding str(3) .
    show "0 < MAXSIZE" unfolding MAXSIZE_eq by simp
  qed
  then show thesis
    using SetBigInt_binary [OF str(1), of "if neg then CHR ''-'' # s else s" neg thesis] str(2,3) s(2) that
      hd_not_minus [OF s(1,2)] by (auto simp: canonical_def list_all_iff)
qed



text \<open>
  C6: printing and parsing round-trip: in every radix from 2 to 36 \<open>SetBigInt\<close> reads back exactly
  the object that \<open>ToStdString\<close> has printed.
\<close>

theorem string_roundtrip:
  assumes "wf_bigint x" "2 \<le> r" "r \<le> 36"
  shows "\<exists>s. ToStdString x r = Some s \<and> SetBigInt s r = Some (Inr x)"
proof -
  obtain s where s: "Conversion (GetBinary x) r BINARY = Some s" "canonical r s" "nval r s = bmag x"
    by (rule Conversion_canonical [of r 2 "GetBinary x"])
      (use assms(2,3) GetBinary_spec in \<open>auto simp: list_all_iff BINARY_def\<close>)
  obtain y where y: "SetBigInt (if bi_sign x then CHR ''-'' # s else s) r = Some (Inr y)" "wf_bigint y"
    "bint y = (if bi_sign x then - int (nval r s) else int (nval r s))"
    by (rule SetBigInt_parses [of r s "bi_sign x"])
      (use s(2,3) assms wf_bigint_mag_less [OF assms(1)] in \<open>auto simp: canonical_def\<close>)
  have "bint y = bint x" using y(3) s(3) by (simp add: bint_def)
  then have "y = x" by (rule wf_bigint_inject [OF y(2) assms(1)])
  then show ?thesis using y(1) s(1) by (auto simp: ToStdString_def)
qed

theorem string_roundtrip_witness:
  "\<exists>s. ToStdString \<lparr>bi_sign = True, bi_digits = [3, 255]\<rparr> 10 = Some s \<and>
     SetBigInt s 10 = Some (Inr \<lparr>bi_sign = True, bi_digits = [3, 255]\<rparr>)"
  using string_roundtrip [of "\<lparr>bi_sign = True, bi_digits = [3, 255]\<rparr>" 10] by (simp add: bigint_eval)

end
