(* ===== verification/BigInt_Int64.thy ===== *)
theory BigInt_Int64
  imports BigInt_Theorems
begin

text \<open>
  Conversions between \<open>BigInt\<close> and the 64-bit integer types (js_bigint.cpp, and
  \<open>ToBigInt64\<close>, \<open>ToBigUint64\<close> of js_tagged_value.cpp), arrays of 64-bit words, and the
  reduction to a given number of bits (\<open>AsUintN\<close>, \<open>AsintN\<close>). \<open>int64_t\<close> and
  \<open>uint64_t\<close> are 64-bit words, read with \<open>sint\<close> and \<open>uint\<close>.
\<close>

section \<open>Operations\<close>

definition set_digits64 :: "BigInt \<Rightarrow> bool \<Rightarrow> u64 \<Rightarrow> BigInt result" where
  "set_digits64 raw sign absVal =
     (let low = ucast absVal :: u32;
          high = ucast (drop_bit DATA_BITS absVal) :: u32;
          digitCount = (if high \<noteq> 0 then 2 else 1)
      in bindE (CreateRawBigInt raw digitCount) (\<lambda>bigint.
           let bigint = SetDigit (SetSign bigint sign) 0 low
           in Inr (if digitCount = 2 then SetDigit bigint 1 high else bigint)))"

definition Int64ToBigInt :: "BigInt \<Rightarrow> u64 \<Rightarrow> BigInt result" where
  "Int64ToBigInt raw number =
     (if number = 0 then Uint32ToBigInt 0
      else let sign = number <s 0;
               absVal = (if sign then - (number + 1) + 1 else number)
           in set_digits64 raw sign absVal)"

definition Uint64ToBigInt :: "BigInt \<Rightarrow> u64 \<Rightarrow> BigInt result" where
  "Uint64ToBigInt raw number =
     (if number = 0 then Uint32ToBigInt 0 else set_digits64 raw False number)"

definition ToUint64 :: "BigInt \<Rightarrow> u64" where
  "ToUint64 x =
     (let lowBits = GetDigit x 0;
          highBits = (if GetLength x > 1 then GetDigit x 1 else 0);
          val = ucast lowBits OR push_bit DATA_BITS (ucast highBits)
      in if bi_sign x then NOT (val - 1) else val)"

definition ToInt64 :: "BigInt \<Rightarrow> u64" where
  "ToInt64 x = ToUint64 x"









definition set_word :: "u64 list \<Rightarrow> nat \<Rightarrow> BigInt \<Rightarrow> BigInt" where
  "set_word words index bigint =
     (let lowBits = ucast (words ! index AND 0xffffffff);
          highBits = ucast (drop_bit DATA_BITS (words ! index) AND 0xffffffff)
      in SetDigit (SetDigit bigint (2 * index) lowBits) (2 * index + 1) highBits)"

definition CreateBigWords :: "BigInt \<Rightarrow> bool \<Rightarrow> u32 \<Rightarrow> u64 list \<Rightarrow> BigInt result" where
  "CreateBigWords raw sign sz words =
     (if sz = 0 then Uint64ToBigInt raw 0
      else let needLen = unat (sz * 2) in
        if needLen > MAXSIZE then Inl max_size_error
        else bindE (CreateBigint needLen) (\<lambda>bigint.
          RightTruncate (SetSign (for_up 0 (unat sz) (set_word words) bigint) sign)))"



section \<open>Words of 64 bits\<close>

lemma unat_u64_split:
  "unat (w :: u64) = unat (ucast w :: u32) + B * unat (ucast (drop_bit 32 w) :: u32)"
proof -
  have l: "unat (ucast w :: u32) = unat w mod 4294967296"
    by (simp add: unsigned_ucast_eq take_bit_eq_mod)
  have "unat w div 4294967296 < 4294967296" using unat_u64_lt [of w] by (simp add: less_mult_imp_div_less)
  moreover have "unat (drop_bit 32 w) = unat w div 4294967296"
    using unat_drop_bit_eq [of 32 w] by (simp add: drop_bit_eq_div [of _ "unat w"])
  ultimately have h: "unat (ucast (drop_bit 32 w) :: u32) = unat w div 4294967296"
    by (simp add: unsigned_ucast_eq take_bit_eq_mod)
  show ?thesis unfolding l h by simp
qed

lemma CreateRawBigInt_length:
  "n \<le> MAXSIZE \<Longrightarrow> \<exists>r. CreateRawBigInt raw n = Inr r \<and> length (bi_digits r) = n"
  by (simp add: CreateRawBigInt_def)

lemma BigInt_eqI: "bi_sign x = bi_sign y \<Longrightarrow> bi_digits x = bi_digits y \<Longrightarrow> x = (y :: BigInt)"
  by simp

lemma set_digits64_correct:
  assumes "w \<noteq> 0"
  obtains r where "set_digits64 raw s w = Inr r" "wf_bigint r" "bi_sign r = s" "bmag r = unat w"
proof -
  let ?l = "ucast w :: u32" and ?h = "ucast (drop_bit 32 w) :: u32"
  let ?r = "\<lparr>bi_sign = s, bi_digits = (if ?h \<noteq> 0 then [?l, ?h] else [?l])\<rparr>"
  have w: "unat w = unat ?l + B * unat ?h" by (rule unat_u64_split)
  obtain r1 a where r1: "CreateRawBigInt raw 1 = Inr r1" "bi_digits r1 = [a]"
    using CreateRawBigInt_length [of 1 raw] by (auto simp: MAXSIZE_eq length_Suc_conv)
  obtain r2 b c where r2: "CreateRawBigInt raw 2 = Inr r2" "bi_digits r2 = [b, c]"
    using CreateRawBigInt_length [of 2 raw] by (auto simp: MAXSIZE_eq length_Suc_conv numeral_2_eq_2)
  have "set_digits64 raw s w = Inr ?r"
    using r1 r2 by (simp add: set_digits64_def Let_def DATA_BITS_def SetDigit_def SetSign_def BigInt_eqI)
  moreover have nz: "unat w \<noteq> 0" using assms by (simp only: unat_eq_0 not_False_eq_True)
  then have "wf_bigint ?r" using w
    by (auto simp: wf_bigint_def wf_digits_def bmag_def MAXSIZE_eq unat_eq_0 split: if_splits)
  moreover have "bmag ?r = unat w" using w by (auto simp: bmag_def)
  ultimately show thesis using that [of ?r] by simp
qed

lemma Uint32ToBigInt_zero: "wf_bigint \<lparr>bi_sign = False, bi_digits = [0]\<rparr>" "bint \<lparr>bi_sign = False, bi_digits = [0]\<rparr> = 0"
  by (simp_all add: bigint_eval)

lemma unat_abs_int64: "unat (if n <s 0 then - (n + 1) + 1 else n) = nat \<bar>sint (n :: u64)\<bar>"
proof -
  have lo: "- 9223372036854775808 \<le> sint n" "sint n < 9223372036854775808"
    using sint_ge [of n] sint_lt [of n] by simp_all
  show ?thesis
  proof (cases "sint n < 0")
    case True
    have "- (n + 1) + 1 = (word_of_int (- sint n) :: u64)" by simp
    then have "uint (- (n + 1) + 1) = - sint n"
      using lo True by (simp only: uint_word_of_int_eq take_bit_eq_mod) simp
    then show ?thesis using True by (simp add: word_sless_alt unat_eq_nat_uint)
  next
    case False
    have "uint n = uint (word_of_int (sint n) :: u64)" by simp
    also have "\<dots> = sint n" using lo False by (simp only: uint_word_of_int_eq take_bit_eq_mod) simp
    finally show ?thesis using False by (simp add: word_sless_alt unat_eq_nat_uint)
  qed
qed

lemma Int64ToBigInt_correct:
  obtains r where "Int64ToBigInt raw n = Inr r" "wf_bigint r" "bint r = sint n"
proof (cases "n = 0")
  case True
  then show thesis using that Uint32ToBigInt_zero by (simp add: Int64ToBigInt_def Uint32ToBigInt_eq)
next
  case False
  define a where "a = (if n <s 0 then - (n + 1) + 1 else n)"
  have a: "unat a = nat \<bar>sint n\<bar>" unfolding a_def by (rule unat_abs_int64)
  have "sint n \<noteq> 0" using False by (simp add: signed_eq_0_iff)
  then have "unat a \<noteq> 0" unfolding a by simp
  then have "a \<noteq> 0" by (metis unat_0)
  then obtain r where r: "set_digits64 raw (n <s 0) a = Inr r" "wf_bigint r" "bi_sign r = (n <s 0)" "bmag r = unat a"
    by (rule set_digits64_correct)
  have "bint r = sint n" unfolding bint_def r(3,4) a word_sless_alt by simp
  moreover have "Int64ToBigInt raw n = Inr r" using False r(1) unfolding Int64ToBigInt_def Let_def a_def [symmetric] by simp
  ultimately show thesis using that r(2) by simp
qed

lemma Uint64ToBigInt_correct:
  obtains r where "Uint64ToBigInt raw n = Inr r" "wf_bigint r" "bint r = int (unat n)" "\<not> bi_sign r"
proof (cases "n = 0")
  case True
  then show thesis using that Uint32ToBigInt_zero by (simp add: Uint64ToBigInt_def Uint32ToBigInt_eq)
next
  case False
  then obtain r where "set_digits64 raw False n = Inr r" "wf_bigint r" "\<not> bi_sign r" "bmag r = unat n"
    by (metis set_digits64_correct)
  then show thesis using that [of r] False by (simp add: Uint64ToBigInt_def bint_def)
qed

lemma ToUint64_correct:
  assumes "wf_bigint x" "GetLength x \<le> 2"
  shows "ToUint64 x = word_of_int (bint x)"
proof -
  let ?l = "GetDigit x 0" and ?h = "if GetLength x > 1 then GetDigit x 1 else 0"
  have m: "bmag x = unat ?l + B * unat ?h"
    using assms(2) wf_bigintD(2) [OF assms(1)]
    by (cases "bi_digits x" rule: remdups_adj.cases) (auto simp: bmag_def GetLength_def GetDigit_def)
  have "ucast ?l OR push_bit 32 (ucast ?h) = (ucast ?l + push_bit 32 (ucast ?h) :: u64)"
    by (rule disjunctive_add [symmetric]) (auto simp: bit_simps dest!: bit_imp_le_length)
  also have "\<dots> = word_of_nat (unat ?l) + word_of_nat (unat ?h) * 4294967296"
    by (simp add: push_bit_eq_mult unsigned_ucast_eq)
  also have "\<dots> = word_of_nat (bmag x)" unfolding m by simp
  finally have v: "ucast ?l OR push_bit 32 (ucast ?h) = (word_of_nat (bmag x) :: u64)" .
  have n: "NOT (v - 1) = - v" for v :: u64 by (simp add: not_eq_complement)
  show ?thesis unfolding ToUint64_def Let_def DATA_BITS_def v n by (simp add: bint_def)
qed

section \<open>Reduction modulo powers of two\<close>






lemma wf_length_bound:
  assumes "wf_bigint x" "bmag x < B ^ n" "0 < n"
  shows "GetLength x \<le> n"
proof (rule ccontr)
  assume "\<not> GetLength x \<le> n"
  then have n: "n \<le> GetLength x - 1" "GetLength x \<noteq> 1" using assms(3) by auto
  have "B ^ n \<le> B ^ (GetLength x - 1)" using n(1) by (intro power_increasing) simp_all
  also have "\<dots> \<le> bmag x"
    using wf_bigintD(1,3) [OF assms(1)] n(2) unfolding bmag_def GetLength_def wf_digits_def
    by (intro bval_ge_last) auto
  finally show False using assms(2) by simp
qed






definition two :: BigInt where
  "two = \<lparr>bi_sign = False, bi_digits = [2]\<rparr>"




section \<open>Theorems\<close>

text \<open>
  every 64-bit integer survives the trip through \<open>Int64ToBigInt\<close> and \<open>ToInt64\<close>, and through
  \<open>Uint64ToBigInt\<close> and \<open>ToUint64\<close>; the object in between is well-formed and has its value.
\<close>

theorem int64_roundtrip:
  "(\<exists>r. Int64ToBigInt raw n = Inr r \<and> wf_bigint r \<and> bint r = sint n \<and> ToInt64 r = n) \<and>
   (\<exists>r. Uint64ToBigInt raw n = Inr r \<and> wf_bigint r \<and> bint r = uint n \<and> ToUint64 r = n)"
proof
  have len: "GetLength r \<le> 2" if "wf_bigint r" "\<bar>bint r\<bar> < 2 ^ 64" for r
    using that wf_length_bound [of r 2] by (auto simp: bint_def split: if_splits)
  obtain r where r: "Int64ToBigInt raw n = Inr r" "wf_bigint r" "bint r = sint n"
    by (rule Int64ToBigInt_correct)
  have "\<bar>bint r\<bar> < 2 ^ 64" using sint_ge [of n] sint_lt [of n] r(3) by simp
  then show "\<exists>r. Int64ToBigInt raw n = Inr r \<and> wf_bigint r \<and> bint r = sint n \<and> ToInt64 r = n"
    using r ToUint64_correct [OF r(2) len [OF r(2)]] by (auto simp: ToInt64_def)
  obtain r where r: "Uint64ToBigInt raw n = Inr r" "wf_bigint r" "bint r = int (unat n)"
    by (rule Uint64ToBigInt_correct)
  have "\<bar>bint r\<bar> < 2 ^ 64" using uint_lt2p [of n] r(3) by simp
  then show "\<exists>r. Uint64ToBigInt raw n = Inr r \<and> wf_bigint r \<and> bint r = uint n \<and> ToUint64 r = n"
    using r ToUint64_correct [OF r(2) len [OF r(2)]] by auto
qed











section \<open>Arrays of words\<close>

fun words_val :: "u64 list \<Rightarrow> nat" where
  "words_val [] = 0"
| "words_val (w # ws) = unat w + 2 ^ 64 * words_val ws"

lemma words_val_append: "words_val (xs @ ys) = words_val xs + (2 ^ 64) ^ length xs * words_val ys"
  by (induction xs) (simp_all add: algebra_simps)

lemma set_word_digits:
  assumes "i < length words"
  shows "set_word words i b =
    SetDigit (SetDigit b (2 * i) (ucast (words ! i))) (2 * i + 1) (ucast (drop_bit 32 (words ! i)))"
proof -
  have "ucast (w AND 0xffffffff) = (ucast w :: u32)" for w :: u64
  proof -
    have "w AND 0xffffffff = take_bit 32 w" by (simp add: take_bit_eq_mask mask_eq_exp_minus_1)
    then show ?thesis by (simp add: unsigned_ucast_eq word_unat_eq_iff unsigned_take_bit_eq)
  qed
  then show ?thesis by (simp add: set_word_def DATA_BITS_def Let_def)
qed

lemma set_words_value:
  assumes "k \<le> length words" "length (bi_digits b) = 2 * length words"
  defines "r \<equiv> for_up 0 k (set_word words) b"
  shows "length (bi_digits r) = 2 * length words \<and> bi_sign r = bi_sign b \<and>
    bval (take (2 * k) (bi_digits r)) = words_val (take k words)"
  unfolding r_def using assms(1)
proof (induction k)
  case 0
  then show ?case using assms(2) by simp
next
  case (Suc k)
  let ?r = "for_up 0 k (set_word words) b" and ?l = "ucast (words ! k) :: u32" and ?h = "ucast (drop_bit 32 (words ! k)) :: u32"
  have IH: "length (bi_digits ?r) = 2 * length words" "bi_sign ?r = bi_sign b"
    "bval (take (2 * k) (bi_digits ?r)) = words_val (take k words)" using Suc by auto
  have eq: "for_up 0 (Suc k) (set_word words) b = SetDigit (SetDigit ?r (2 * k) ?l) (2 * k + 1) ?h"
    using Suc.prems by (simp add: for_up_Suc set_word_digits)
  have "take (2 * Suc k) ((bi_digits ?r)[2 * k := ?l, 2 * k + 1 := ?h]) = take (2 * k) (bi_digits ?r) @ [?l, ?h]"
    using IH(1) Suc.prems by (simp add: take_Suc_conv_app_nth nth_list_update)
  then have "bval (take (2 * Suc k) (bi_digits (SetDigit (SetDigit ?r (2 * k) ?l) (2 * k + 1) ?h))) =
      words_val (take k words) + B ^ (2 * k) * (unat ?l + B * unat ?h)"
    using IH(1,3) Suc.prems by (simp add: SetDigit_def bval_append)
  also have "\<dots> = words_val (take k words) + (2 ^ 64) ^ k * unat (words ! k)"
    unfolding unat_u64_split [symmetric] power_mult by simp
  also have "\<dots> = words_val (take (Suc k) words)"
    using Suc.prems by (simp add: take_Suc_conv_app_nth words_val_append)
  finally show ?case using IH(1,2) unfolding eq by simp
qed

text \<open>
  C20: \<open>CreateBigWords\<close> builds the well-formed number whose base \<open>2 ^ 64\<close> digits are the given words, or
  throws when they need more than the maximal number of digits.
\<close>

theorem CreateBigWords_exact:
  assumes "length words < 2 ^ 31"
  shows "if 2 * length words \<le> MAXSIZE
    then \<exists>r. CreateBigWords raw sign (of_nat (length words)) words = Inr r \<and> wf_bigint r \<and>
           bint r = (if sign then - int (words_val words) else int (words_val words))
    else CreateBigWords raw sign (of_nat (length words)) words = Inl max_size_error"
proof (cases "words = []")
  case True
  then show ?thesis using Uint32ToBigInt_zero by (simp add: CreateBigWords_def Uint64ToBigInt_def Uint32ToBigInt_eq)
next
  case False
  let ?sz = "of_nat (length words) :: u32"
  have sz: "unat ?sz = length words" "unat (?sz * 2) = 2 * length words"
    using assms by (simp_all add: unat_word_ariths unat_of_nat)
  have nz: "?sz \<noteq> 0" using False sz(1) by (metis length_0_conv unat_0)
  show ?thesis
  proof (cases "2 * length words \<le> MAXSIZE")
    case fits: True
    define b where "b = for_up 0 (length words) (set_word words) (NewBigInt (2 * length words))"
    have b: "length (bi_digits b) = 2 * length words" "bi_sign b = False" "bmag b = words_val words"
      using set_words_value [of "length words" words "NewBigInt (2 * length words)"]
      unfolding b_def [symmetric] bmag_def by auto
    have ne: "bi_digits (SetSign b sign) \<noteq> []" using b(1) False by auto
    obtain r where "RightTruncate (SetSign b sign) = Inr r" "wf_bigint r" "bint r = bint (SetSign b sign)"
      by (rule RightTruncate_correct [OF ne]) (use b(1) fits in \<open>auto simp: GetLength_def\<close>)
    moreover have "CreateBigWords raw sign ?sz words = RightTruncate (SetSign b sign)"
      using fits nz unfolding CreateBigWords_def Let_def sz by (simp add: CreateBigint_Inr b_def)
    ultimately show ?thesis using fits b(3) by (auto simp: bint_def bmag_def)
  next
    case False
    then show ?thesis using nz unfolding CreateBigWords_def Let_def sz by simp
  qed
qed

theorem CreateBigWords_exact_witness:
  "\<exists>r. CreateBigWords two True 2 [7, 1] = Inr r \<and> bint r = - (2 ^ 64 + 7)"
  using CreateBigWords_exact [of "[7, 1]" two True] by (auto simp: MAXSIZE_eq)

end
