(* ===== verification/Container_Base.thy ===== *)
theory Container_Base
  imports Ark_Prelude "HOL-Library.While_Combinator"
begin

text \<open>
  What the linear containers of ecmascript/js_api share: tagged values and arrays, the
  errors of containers_errors.h, index keys, ring buffers with 32-bit positions, and the
  contracts of first-in first-out and last-in first-out containers. A loop that need not end
  is \<open>while_option\<close>; its value \<open>None\<close> stands for divergence.
\<close>

section \<open>Values, arrays and errors\<close>

text \<open>
  A tagged value is one of the special values, a small integer, a double with its bits, or a strong
  or weak reference to an object, given by the number of the object.
\<close>

datatype js_value = Undefined | Null | Hole | JSTrue | JSFalse | JSInt int | JSDouble u64 | JSRef nat | JSWeak nat

type_synonym tagged_array = "js_value list"

definition tagged_bool :: "bool \<Rightarrow> js_value" where
  "tagged_bool b = (if b then JSTrue else JSFalse)"

datatype IterationKind = KEY | VALUE | KEY_AND_VALUE

datatype ErrorFlag = TYPE_ERROR | RANGE_ERROR | IS_EMPTY_ERROR | BIND_ERROR | IS_NULL_ERROR
  | IS_NOT_EXIST_ERROR

text \<open>
  The fixed part of the text of an error, without its quotation marks and the offending value
  it appends, and for a range error the name, the bound and the index it prints.
\<close>

datatype message = Msg string | RangeMsg string int int

datatype container_error = BusinessError ErrorFlag message | ThrownByCallback js_value

type_synonym 'a outcome = "container_error + 'a"

definition bindO :: "'a outcome \<Rightarrow> ('a \<Rightarrow> 'b outcome) \<Rightarrow> 'b outcome" where
  "bindO m f = (case m of Inl e \<Rightarrow> Inl e | Inr x \<Rightarrow> f x)"

lemma bindO_simps [simp]: "bindO (Inl e) f = Inl e" "bindO (Inr x) f = f x"
  by (simp_all add: bindO_def)

text \<open>
  An index key: a small integer, a double with the \<open>int32\<close> value it has, if any, or another
  value. \<open>ToElementIndex\<close> of the source accepts the array indices.
\<close>

datatype index_key = KeyInt int | KeyDouble "int option" | KeyOther

fun TryCastDoubleToInt32 :: "index_key \<Rightarrow> index_key" where
  "TryCastDoubleToInt32 (KeyDouble (Some i)) = KeyInt i"
| "TryCastDoubleToInt32 k = k"

text \<open>The object a built-in is called on: a container, a proxy with its target, or another value.\<close>

datatype 's this_arg = ThisContainer 's | ThisProxy "'s option" | ThisOther

definition bind_error :: "string \<Rightarrow> container_error" where
  "bind_error name = BusinessError BIND_ERROR (Msg (''The '' @ name @ '' method cannot be bound''))"

fun resolve_this :: "string \<Rightarrow> 's this_arg \<Rightarrow> 's outcome" where
  "resolve_this name (ThisContainer s) = Inr s"
| "resolve_this name (ThisProxy (Some s)) = Inr s"
| "resolve_this name _ = Inl (bind_error name)"

definition constructor_error :: "string \<Rightarrow> container_error" where
  "constructor_error name =
     BusinessError IS_NULL_ERROR (Msg (''The '' @ name @ [CHR 0x27] @ ''s constructor cannot be directly invoked''))"

definition callback_error :: container_error where
  "callback_error = BusinessError TYPE_ERROR (Msg ''The type of callbackfn must be callable.'')"

text \<open>
  A callback of \<open>forEach\<close> gets a value, its index and the container, which it may
  change together with a state \<open>'w\<close> of its own, or it throws.
\<close>

type_synonym ('s, 'w) callback = "js_value \<Rightarrow> u32 \<Rightarrow> 's \<times> 'w \<Rightarrow> ('s \<times> 'w) outcome"

text \<open>The values that an iterator returns in at most \<open>k\<close> calls of its \<open>next\<close>, up to the end.\<close>

fun drain :: "nat \<Rightarrow> ('i \<Rightarrow> 'a option \<times> 'i) \<Rightarrow> 'i \<Rightarrow> 'a list \<times> 'i" where
  "drain 0 nxt it = ([], it)"
| "drain (Suc k) nxt it =
     (case nxt it of (None, it) \<Rightarrow> ([], it)
      | (Some v, it) \<Rightarrow> let (vs, it) = drain k nxt it in (v # vs, it))"

text \<open>What a callback that does not change the container makes of its own state.\<close>

definition visit_all :: "(js_value \<Rightarrow> nat \<Rightarrow> 'w \<Rightarrow> 'w) \<Rightarrow> js_value list \<Rightarrow> 'w \<Rightarrow> 'w" where
  "visit_all f vs w = fold (\<lambda>i. f (vs ! i) i) [0..<length vs] w"

section \<open>Array copies of the object factory\<close>

definition NewTaggedArray :: "nat \<Rightarrow> tagged_array" where
  "NewTaggedArray n = replicate n Hole"

definition ExtendArray :: "tagged_array \<Rightarrow> nat \<Rightarrow> tagged_array" where
  "ExtendArray old len =
     (let oldLength = length old;
          newArray = for_up 0 oldLength (\<lambda>i a. a[i := old ! i]) (replicate len Undefined)
      in for_up oldLength len (\<lambda>i a. a[i := Hole]) newArray)"

definition CopyArray :: "tagged_array \<Rightarrow> nat \<Rightarrow> nat \<Rightarrow> tagged_array" where
  "CopyArray old oldLength newLength =
     (if newLength = 0 then []
      else if newLength > oldLength then ExtendArray old newLength
      else take newLength old)"

lemma ExtendArray_eq: "length old \<le> n \<Longrightarrow> ExtendArray old n = old @ replicate (n - length old) Hole"
proof -
  assume le: "length old \<le> n"
  define a where "a = for_up 0 (length old) (\<lambda>i a. a[i := old ! i]) (replicate n Undefined)"
  have "length a = n \<and> take (length old) a = take (length old) old"
    unfolding a_def
    by (rule for_up_inv [where I = "\<lambda>k a. length a = n \<and> take k a = take k old"])
      (use le in \<open>auto simp: take_Suc_conv_app_nth\<close>)
  then have a: "length a = n" "take (length old) a = old" by simp_all
  have "length (for_up (length old) n (\<lambda>i a. a[i := Hole]) a) = n \<and>
      take n (for_up (length old) n (\<lambda>i a. a[i := Hole]) a) = old @ replicate (n - length old) Hole"
    by (rule for_up_inv [where I = "\<lambda>k b. length b = n \<and> take k b = old @ replicate (k - length old) Hole"])
      (use le a in \<open>auto simp: Suc_diff_le replicate_append_same\<close>)
  then show ?thesis by (auto simp: ExtendArray_def Let_def a_def)
qed

lemma CopyArray_grow: "length old < n \<Longrightarrow> CopyArray old (length old) n = old @ replicate (n - length old) Hole"
  by (simp add: CopyArray_def ExtendArray_eq)

section \<open>Ring buffers\<close>

text \<open>The \<open>n\<close> values from position \<open>f\<close> on.\<close>

definition ring :: "'a list \<Rightarrow> nat \<Rightarrow> nat \<Rightarrow> 'a list" where
  "ring els f n = map (\<lambda>i. els ! ((f + i) mod length els)) [0..<n]"

lemma length_ring [simp]: "length (ring els f n) = n"
  by (simp add: ring_def)

lemma ring_0 [simp]: "ring els f 0 = []"
  by (simp add: ring_def)

lemma ring_nth: "i < n \<Longrightarrow> ring els f n ! i = els ! ((f + i) mod length els)"
  by (simp add: ring_def)

lemma ring_snoc: "ring els f (Suc n) = ring els f n @ [els ! ((f + n) mod length els)]"
  by (simp add: ring_def)

lemma ring_Cons: "ring els f (Suc n) = els ! (f mod length els) # ring els (Suc f) n"
  unfolding ring_def upt_conv_Cons [OF zero_less_Suc] by (simp add: map_Suc_upt [symmetric] comp_def del: upt_Suc)

lemma ring_mod: "ring els (f mod length els) n = ring els f n"
  by (simp add: ring_def mod_add_left_eq)

lemma ring_inj:
  assumes "((f :: nat) + i) mod c = (f + j) mod c" "i < c" "j < c"
  shows "i = j"
  using assms
proof (induction i j rule: linorder_wlog)
  case (le i j)
  then have "c dvd (f + j) - (f + i)" by (metis mod_eq_dvd_iff_nat add_le_cancel_left)
  then show ?case using le by (cases "j = i") (auto dest: dvd_imp_le)
next
  case (sym i j)
  then show ?case by simp
qed

text \<open>Writing outside of the occupied part does not change the content.\<close>

lemma ring_update_outside:
  assumes "n \<le> k" "k < length els"
  shows "ring (els[(f + k) mod length els := v]) f n = ring els f n"
proof -
  have "(f + k) mod length els \<noteq> (f + i) mod length els" if "i < n" for i
    using ring_inj [of f i "length els" k] that assms by auto
  then show ?thesis by (simp add: ring_def)
qed

lemma ring_update:
  assumes "k < n" "n \<le> length els"
  shows "ring (els[(f + k) mod length els := v]) f n = (ring els f n)[k := v]"
proof (rule nth_equalityI)
  fix i assume "i < length (ring (els[(f + k) mod length els := v]) f n)"
  then have i: "i < n" by simp
  have lt: "(f + k) mod length els < length els" using assms by (intro mod_less_divisor) linarith
  have "(f + i) mod length els = (f + k) mod length els \<longleftrightarrow> i = k"
    using ring_inj [of f i "length els" k] i assms by auto
  then show "ring (els[(f + k) mod length els := v]) f n ! i = (ring els f n)[k := v] ! i"
    using i assms lt by (cases "i = k") (auto simp: ring_nth nth_list_update eq_commute)
qed simp

lemma ring_from_0: "n \<le> length els \<Longrightarrow> ring els 0 n = take n els"
  by (rule nth_equalityI) (auto simp: ring_nth)

section \<open>Positions in 32 bits\<close>

definition cap :: "'a list \<Rightarrow> u32" where
  "cap els = of_nat (length els)"

text \<open>A position of an array whose length leaves room for the sums of the source.\<close>

definition pos_ok :: "'a list \<Rightarrow> u32 \<Rightarrow> bool" where
  "pos_ok els i \<longleftrightarrow> unat i < length els \<and> length els \<le> 2 ^ 31"

lemma unat_cap: "length els \<le> 2 ^ 31 \<Longrightarrow> unat (cap els) = length els"
  by (simp add: cap_def unat_of_nat)

lemma unat_mod_cap: "length els \<le> 2 ^ 31 \<Longrightarrow> unat (x mod cap els) = unat x mod length els"
  by (simp add: unat_mod unat_cap)

lemma pos_mod: "0 < length els \<Longrightarrow> length els \<le> 2 ^ 31 \<Longrightarrow> pos_ok els (x mod cap els)"
  by (simp add: pos_ok_def unat_mod_cap)

lemma pos_next: "pos_ok els i \<Longrightarrow> unat ((i + 1) mod cap els) = (unat i + 1) mod length els"
proof -
  assume i: "pos_ok els i"
  then have "unat (i + 1) = unat i + 1" by (simp add: pos_ok_def unat_word_ariths)
  then show ?thesis using i by (simp only: pos_ok_def unat_mod_cap)
qed

lemma pos_prev: "pos_ok els i \<Longrightarrow> unat ((i + cap els - 1) mod cap els) = (unat i + length els - 1) mod length els"
proof -
  assume i: "pos_ok els i"
  then have c: "unat (cap els) = length els" and l: "unat i < length els" "length els \<le> 2 ^ 31"
    by (simp_all add: pos_ok_def unat_cap)
  have "unat (i + cap els) = unat i + length els" using l c by (simp add: unat_word_ariths)
  then have "unat (i + cap els - 1) = unat i + length els - 1" using l by (subst unat_sub) (auto simp: word_le_nat_alt)
  then show ?thesis using l by (simp add: unat_mod_cap)
qed

lemma pos_at:
  "pos_ok els i \<Longrightarrow> unat k \<le> length els \<Longrightarrow> unat ((i + k) mod cap els) = (unat i + unat k) mod length els"
proof -
  assume i: "pos_ok els i" "unat k \<le> length els"
  then have "unat (i + k) = unat i + unat k" by (simp add: pos_ok_def unat_word_ariths)
  then show ?thesis using i by (simp only: pos_ok_def unat_mod_cap)
qed

lemma pos_dist:
  assumes "pos_ok els f" "pos_ok els l"
  shows "unat ((l - f + cap els) mod cap els) = (unat l + length els - unat f) mod length els"
proof -
  have c: "unat (cap els) = length els" "unat l < length els" "unat f < length els" "length els \<le> 2 ^ 31"
    using assms by (simp_all add: pos_ok_def unat_cap)
  have "l - f + cap els = (l + cap els) - f" by simp
  moreover have "unat (l + cap els) = unat l + length els" using c by (simp add: unat_word_ariths)
  ultimately have "unat (l - f + cap els) = unat l + length els - unat f"
    using c by (subst \<open>l - f + cap els = (l + cap els) - f\<close>, subst unat_sub) (auto simp: word_le_nat_alt)
  then show ?thesis using c by (simp add: unat_mod_cap)
qed

lemma pos_reach:
  assumes "pos_ok els f" "pos_ok els l"
  defines "n \<equiv> unat ((l - f + cap els) mod cap els)"
  shows "n < length els" "unat l = (unat f + n) mod length els" "n = 0 \<longleftrightarrow> f = l"
proof -
  have c: "unat l < length els" "unat f < length els" using assms by (simp_all add: pos_ok_def)
  have n: "n = (unat l + length els - unat f) mod length els" unfolding n_def by (rule pos_dist [OF assms(1,2)])
  show "n < length els" unfolding n by (rule mod_less_divisor) (use c in linarith)
  have "(unat f + n) mod length els = (unat f + (unat l + length els - unat f)) mod length els"
    unfolding n by (simp add: mod_add_right_eq)
  then show l: "unat l = (unat f + n) mod length els" using c by simp
  show "n = 0 \<longleftrightarrow> f = l"
  proof
    assume "n = 0"
    then have "unat l = unat f" using l c by simp
    then show "f = l" by (simp add: word_unat_eq_iff)
  qed (use c in \<open>simp add: n_def unat_mod unat_cap assms(1) [unfolded pos_ok_def]\<close>)
qed

lemma pos_dist_unique:
  assumes "pos_ok els f" "pos_ok els l" "unat l = (unat f + k) mod length els" "k < length els"
  shows "unat ((l - f + cap els) mod cap els) = k"
  by (rule ring_inj [of "unat f", OF _ pos_reach(1) [OF assms(1,2)] assms(4)])
    (simp only: pos_reach(2) [OF assms(1,2), symmetric] assms(3))

lemma sint_nat_small: "unat w < 2 ^ 31 \<Longrightarrow> sint w = int (unat w)" for w :: u32
proof -
  assume "unat w < 2 ^ 31"
  then have "int (unat w) < int (2 ^ 31)" unfolding of_nat_less_iff .
  then have "uint w < 2 ^ 31" by simp
  then have "signed_take_bit 31 (uint w) = uint w" 
    using uint_ge_0 [of w] by (intro signed_take_bit_int_eq_self) linarith+
  then show ?thesis unfolding sint_uint by simp
qed

lemma unat_word_of_int_small: "0 \<le> i \<Longrightarrow> i < 2 ^ 32 \<Longrightarrow> unat (word_of_int i :: u32) = nat i"
  by (cases i) (simp_all add: unat_of_nat)

section \<open>Walking a ring\<close>

text \<open>
  The loops of the source start at one position and step through the ring until they reach
  another; they make as many rounds as there are values in between.
\<close>

lemma while_option_rounds:
  assumes stop: "\<not> b ((c ^^ n) s)" and go: "\<And>k. k < n \<Longrightarrow> b ((c ^^ k) s)"
  shows "while_option b c s = Some ((c ^^ n) s)"
proof -
  have "(LEAST k. \<not> b ((c ^^ k) s)) = n"
    by (rule Least_equality) (use assms in \<open>auto simp: not_le [symmetric]\<close>)
  then show ?thesis unfolding while_option_def using stop by auto
qed

lemma ring_walk:
  fixes cur :: "'s \<Rightarrow> u32" and els :: "'a list"
  assumes pos: "pos_ok els f" "pos_ok els l" and n: "n = unat ((l - f + cap els) mod cap els)"
    and init: "I 0 s" and step: "\<And>k s. k < n \<Longrightarrow> I k s \<Longrightarrow> I (Suc k) (step s)"
    and cur: "\<And>k s. I k s \<Longrightarrow> unat (cur s) = (unat f + k) mod length els"
  shows "\<exists>t. while_option (\<lambda>s. cur s \<noteq> l) step s = Some t \<and> I n t"
proof -
  have I: "I k ((step ^^ k) s)" if "k \<le> n" for k
    using that by (induction k) (auto simp: init step)
  have n_lt: "n < length els" and l: "unat l = (unat f + n) mod length els"
    using pos_reach [OF pos] n by simp_all
  have "cur ((step ^^ k) s) = l \<longleftrightarrow> k = n" if "k \<le> n" for k
    using cur [OF I [OF that]] l ring_inj [of "unat f" k "length els" n] n_lt that by (auto simp: word_unat_eq_iff)
  then have "while_option (\<lambda>s. cur s \<noteq> l) step s = Some ((step ^^ n) s)"
    by (intro while_option_rounds) auto
  then show ?thesis using I by auto
qed

definition copy_step :: "tagged_array \<Rightarrow> u32 \<times> u32 \<times> tagged_array \<Rightarrow> u32 \<times> u32 \<times> tagged_array" where
  "copy_step old s =
     (let (curIndex, newIndex, newArray) = s;
          val = old ! unat curIndex;
          newArray = newArray[unat newIndex := val]
      in ((curIndex + 1) mod cap old, newIndex + 1, newArray))"

definition CopyDeque :: "tagged_array \<Rightarrow> nat \<Rightarrow> u32 \<Rightarrow> u32 \<Rightarrow> tagged_array option" where
  "CopyDeque old newLength first lst =
     map_option (\<lambda>(curIndex, newIndex, newArray). newArray)
       (while_option (\<lambda>s. fst s \<noteq> lst) (copy_step old)
         (first, 0, replicate newLength Hole))"

definition CopyQueue :: "tagged_array \<Rightarrow> nat \<Rightarrow> u32 \<Rightarrow> u32 \<Rightarrow> tagged_array option" where
  "CopyQueue old newLength front tail =
     map_option (\<lambda>(curIndex, newIndex, newArray). newArray)
       (while_option (\<lambda>s. fst s \<noteq> tail) (copy_step old)
         (front, 0, replicate newLength Hole))"

lemma CopyDeque_correct:
  assumes pos: "pos_ok old first" "pos_ok old lst" and n: "n = unat ((lst - first + cap old) mod cap old)"
    and len: "n \<le> newLength"
  shows "CopyDeque old newLength first lst = Some (ring old (unat first) n @ replicate (newLength - n) Hole)"
proof -
  have n_lt: "n < length old" "length old \<le> 2 ^ 31" using pos_reach(1) [OF pos] n pos by (simp_all add: pos_ok_def)
  let ?I = "\<lambda>k (c, i, a). unat c = (unat first + k) mod length old \<and> unat i = k \<and>
    a = ring old (unat first) k @ replicate (newLength - k) Hole"
  have "\<exists>t. while_option (\<lambda>s. fst s \<noteq> lst) (copy_step old) (first, 0, replicate newLength Hole) = Some t \<and> ?I n t"
  proof (rule ring_walk [OF pos n, where I = ?I])
    show "?I 0 (first, 0, replicate newLength Hole)" using pos by (simp add: pos_ok_def)
    show "unat (fst s) = (unat first + k) mod length old" if "?I k s" for k s using that by auto
    show "?I (Suc k) (copy_step old s)" if k: "k < n" and I: "?I k s" for k s
    proof -
      obtain c i a where s: "s = (c, i, a)" and c: "unat c = (unat first + k) mod length old" and i: "unat i = k"
        and a: "a = ring old (unat first) k @ replicate (newLength - k) Hole" using I by (cases s) auto
      have "old \<noteq> []" using n_lt by auto
      then have "pos_ok old c" using c n_lt by (simp add: pos_ok_def)
      then have "unat ((c + 1) mod cap old) = (unat first + Suc k) mod length old"
        using c by (simp add: pos_next mod_Suc_eq)
      moreover have "unat (i + 1) = Suc k" using i k n_lt by (simp add: unat_word_ariths)
      moreover have "a[k := old ! unat c] = ring old (unat first) (Suc k) @ replicate (newLength - Suc k) Hole"
        using k len a c by (simp add: list_update_append ring_snoc flip: Cons_replicate_eq) (cases "newLength - k"; simp add: Suc_diff_Suc [symmetric])
      ultimately show ?thesis using i by (simp add: s copy_step_def)
    qed
  qed
  then show ?thesis by (auto simp: CopyDeque_def case_prod_beta)
qed

lemma CopyQueue_eq: "CopyQueue = CopyDeque"
  by (simp add: fun_eq_iff CopyQueue_def CopyDeque_def)

text \<open>The search loop stops at the first value that \<open>SameValue\<close> accepts.\<close>

definition has_step :: "(js_value \<Rightarrow> js_value \<Rightarrow> bool) \<Rightarrow> tagged_array \<Rightarrow> js_value \<Rightarrow> u32 \<times> bool \<Rightarrow> u32 \<times> bool" where
  "has_step SameValue elements val s =
     (let (index, found) = s
      in if SameValue (elements ! unat index) val then (index, True)
         else ((index + 1) mod cap elements, False))"

lemma has_step_simps:
  "has_step same els v (i, b) =
     (if same (els ! unat i) v then (i, True) else ((i + 1) mod cap els, False))"
  by (simp add: has_step_def)

lemma ring_has:
  fixes same v els
  assumes pos: "pos_ok els f" "pos_ok els l"
  defines "step \<equiv> has_step same els v" and "L \<equiv> ring els (unat f) (unat ((l - f + cap els) mod cap els))"
  shows "map_option snd (while_option (\<lambda>(index, found). \<not> found \<and> index \<noteq> l) step (f, False)) =
    Some (\<exists>x \<in> set L. same x v)"
proof -
  let ?n = "unat ((l - f + cap els) mod cap els)"
  note R = pos_reach [OF pos]
  have els: "els \<noteq> []" "length els \<le> 2 ^ 31" using pos by (auto simp: pos_ok_def)
  have len: "length L = ?n" by (simp add: L_def)
  define m where "m = length (takeWhile (\<lambda>x. \<not> same x v) L)"
  have m: "m \<le> ?n" using length_takeWhile_le [of "\<lambda>x. \<not> same x v" L] len by (simp add: m_def)
  have walk: "\<exists>c. (step ^^ k) (f, False) = (c, False) \<and> unat c = (unat f + k) mod length els" if "k \<le> m" for k
    using that
  proof (induction k)
    case 0
    then show ?case using pos by (simp add: pos_ok_def)
  next
    case (Suc k)
    obtain c where c: "(step ^^ k) (f, False) = (c, False)" "unat c = (unat f + k) mod length els"
      using Suc by auto
    have lt: "k < length (takeWhile (\<lambda>x. \<not> same x v) L)" using Suc.prems by (simp add: m_def)
    have "\<not> same (L ! k) v" using nth_mem [OF lt] takeWhile_nth [OF lt] set_takeWhileD by fastforce
    moreover have "L ! k = els ! unat c" using Suc.prems m c(2) by (simp add: L_def ring_nth)
    moreover have "pos_ok els c" using c(2) els by (simp add: pos_ok_def)
    ultimately show ?case using c by (simp add: step_def has_step_simps pos_next mod_Suc_eq)
  qed
  have at: "fst ((step ^^ k) (f, False)) = l \<longleftrightarrow> k = ?n" if "k \<le> m" for k
    using walk [OF that] R(1,2) ring_inj [of "unat f" k "length els" ?n] that m by (auto simp: word_unat_eq_iff)
  show ?thesis
  proof (cases "m = ?n")
    case True
    have "while_option (\<lambda>(index, found). \<not> found \<and> index \<noteq> l) step (f, False) = Some ((step ^^ m) (f, False))"
    proof (rule while_option_rounds)
      show "\<not> (case (step ^^ m) (f, False) of (i, found) \<Rightarrow> \<not> found \<and> i \<noteq> l)"
        using at [of m] True by (auto simp: case_prod_beta)
      show "case (step ^^ k) (f, False) of (i, found) \<Rightarrow> \<not> found \<and> i \<noteq> l" if "k < m" for k
        using at [of k] walk [of k] that True by auto
    qed
    moreover have "\<not> (\<exists>x \<in> set L. same x v)"
      using True len takeWhile_eq_all_conv [of "\<lambda>x. \<not> same x v" L] takeWhile_eq_take [of "\<lambda>x. \<not> same x v" L]
      by (simp add: m_def)
    ultimately show ?thesis using walk [of m] by auto
  next
    case False
    then have lt: "m < ?n" using m by simp
    have hit: "same (L ! m) v" using nth_length_takeWhile [of "\<lambda>x. \<not> same x v" L] lt len by (simp add: m_def)
    obtain c where c: "(step ^^ m) (f, False) = (c, False)" "unat c = (unat f + m) mod length els"
      using walk [of m] by auto
    have last: "(step ^^ Suc m) (f, False) = (c, True)"
      using c hit lt by (simp add: step_def has_step_simps L_def ring_nth)
    have "while_option (\<lambda>(index, found). \<not> found \<and> index \<noteq> l) step (f, False) = Some ((step ^^ Suc m) (f, False))"
    proof (rule while_option_rounds)
      show "\<not> (case (step ^^ Suc m) (f, False) of (i, found) \<Rightarrow> \<not> found \<and> i \<noteq> l)" unfolding last by simp
      show "case (step ^^ k) (f, False) of (i, found) \<Rightarrow> \<not> found \<and> i \<noteq> l" if "k < Suc m" for k
        using at [of k] walk [of k] that lt by auto
    qed
    moreover have "L ! m \<in> set L" using lt len by simp
    ultimately show ?thesis using hit unfolding last by auto
  qed
qed

section \<open>Contracts of containers\<close>

text \<open>
  A client inserts and removes values. \<open>run\<close> performs a sequence of such operations and
  collects what the removals return; an insertion may diverge.
\<close>

datatype 'a container_op = InsertOp 'a | RemoveOp

fun run :: "('s \<Rightarrow> 'a \<Rightarrow> 's option) \<Rightarrow> ('s \<Rightarrow> 'a \<times> 's) \<Rightarrow> 'a container_op list \<Rightarrow> 's \<Rightarrow> ('a list \<times> 's) option" where
  "run ins rem [] s = Some ([], s)"
| "run ins rem (InsertOp v # ops) s = Option.bind (ins s v) (run ins rem ops)"
| "run ins rem (RemoveOp # ops) s =
     (let (v, s) = rem s in map_option (\<lambda>(vs, s). (v # vs, s)) (run ins rem ops s))"

fun inserts :: "'a container_op list \<Rightarrow> nat" where
  "inserts [] = 0"
| "inserts (InsertOp v # ops) = Suc (inserts ops)"
| "inserts (RemoveOp # ops) = inserts ops"

definition fifo_insert :: "'a list \<Rightarrow> 'a \<Rightarrow> 'a list" where
  "fifo_insert xs v = xs @ [v]"

definition lifo_insert :: "'a list \<Rightarrow> 'a \<Rightarrow> 'a list" where
  "lifo_insert xs v = v # xs"

definition list_remove :: "'a \<Rightarrow> 'a list \<Rightarrow> 'a \<times> 'a list" where
  "list_remove none xs = (case xs of [] \<Rightarrow> (none, []) | v # vs \<Rightarrow> (v, vs))"

lemma container_spec_lengths:
  "length (fifo_insert xs v) = Suc (length xs)" "length (lifo_insert xs v) = Suc (length xs)"
  "length (snd (list_remove none xs)) \<le> length xs"
  by (simp_all add: fifo_insert_def lifo_insert_def list_remove_def split: list.split)

text \<open>
  The contract: below \<open>limit\<close> values an insertion returns, and insertion and removal
  act on the content as the list operations do.
\<close>

locale container_refinement =
  fixes inv :: "'s \<Rightarrow> bool" and content :: "'s \<Rightarrow> 'a list"
    and ins :: "'s \<Rightarrow> 'a \<Rightarrow> 's option" and rem :: "'s \<Rightarrow> 'a \<times> 's"
    and insA :: "'a list \<Rightarrow> 'a \<Rightarrow> 'a list" and remA :: "'a list \<Rightarrow> 'a \<times> 'a list" and limit :: nat
  assumes ins_ok: "inv s \<Longrightarrow> length (content s) < limit \<Longrightarrow>
      \<exists>s'. ins s v = Some s' \<and> inv s' \<and> content s' = insA (content s) v"
    and rem_ok: "inv s \<Longrightarrow> inv (snd (rem s)) \<and> fst (rem s) = fst (remA (content s)) \<and>
      content (snd (rem s)) = snd (remA (content s))"
    and insA_length: "length (insA xs v) = Suc (length xs)"
    and remA_length: "length (snd (remA xs)) \<le> length xs"
begin

lemma run_refines:
  "inv s \<Longrightarrow> length (content s) + inserts ops \<le> limit \<Longrightarrow>
     \<exists>outs s'. run ins rem ops s = Some (outs, s') \<and> inv s' \<and>
       run (\<lambda>xs v. Some (insA xs v)) remA ops (content s) = Some (outs, content s')"
proof (induction ops arbitrary: s)
  case Nil
  then show ?case by simp
next
  case (Cons op ops)
  show ?case
  proof (cases op)
    case (InsertOp v)
    then obtain s' where s': "ins s v = Some s'" "inv s'" "content s' = insA (content s) v"
      using ins_ok [OF Cons.prems(1), of v] Cons.prems(2) by auto
    then show ?thesis using Cons.IH [of s'] Cons.prems(2) InsertOp by (simp add: insA_length)
  next
    case RemoveOp
    obtain v s' where r: "rem s = (v, s')" by fastforce
    then have s': "inv s'" "remA (content s) = (v, content s')"
      using rem_ok [OF Cons.prems(1)] by (auto simp: prod_eq_iff)
    moreover have "length (content s') \<le> length (content s)" using remA_length [of "content s"] s' by simp
    ultimately obtain outs t where "run ins rem ops s' = Some (outs, t)" "inv t"
      "run (\<lambda>xs v. Some (insA xs v)) remA ops (content s') = Some (outs, content t)"
      using Cons.IH [of s'] Cons.prems(2) RemoveOp by fastforce
    then show ?thesis using r s' RemoveOp by simp
  qed
qed

end

text \<open>First in, first out: values come out in the order in which they were put in.\<close>

locale fifo_container = container_refinement inv content ins rem fifo_insert "list_remove none" limit
  for inv :: "'s \<Rightarrow> bool" and content :: "'s \<Rightarrow> 'a list" and ins rem none limit
begin

lemma fifo_order:
  assumes "inv s" "content s = []" "length vs \<le> limit"
  shows "\<exists>s'. run ins rem (map InsertOp vs @ replicate (length vs) RemoveOp) s = Some (vs, s') \<and> inv s' \<and> content s' = []"
proof -
  let ?run = "run (\<lambda>xs v. Some (fifo_insert xs v)) (list_remove none)"
  have rem: "?run (replicate (length vs) RemoveOp) (vs :: 'a list) = Some (vs, [])" for vs
    by (induction vs) (simp_all add: list_remove_def)
  have ins: "?run (map InsertOp vs @ ops) xs = ?run ops (xs @ vs)" for ops and vs xs :: "'a list"
    by (induction vs arbitrary: xs) (simp_all add: fifo_insert_def)
  have cnt: "inserts (map InsertOp vs @ replicate k RemoveOp) = length vs" for vs :: "'a list" and k
    by (induction vs; induction k; simp)
  show ?thesis using run_refines [OF assms(1), of "map InsertOp vs @ replicate (length vs) RemoveOp"] assms
    by (auto simp: cnt ins rem)
qed

end

text \<open>Last in, first out: values come out in the opposite order.\<close>

locale lifo_container = container_refinement inv content ins rem lifo_insert "list_remove none" limit
  for inv :: "'s \<Rightarrow> bool" and content :: "'s \<Rightarrow> 'a list" and ins rem none limit
begin

lemma lifo_order:
  assumes "inv s" "content s = []" "length vs \<le> limit"
  shows "\<exists>s'. run ins rem (map InsertOp vs @ replicate (length vs) RemoveOp) s = Some (rev vs, s') \<and> inv s' \<and> content s' = []"
proof -
  let ?run = "run (\<lambda>xs v. Some (lifo_insert xs v)) (list_remove none)"
  have rem: "?run (replicate (length vs) RemoveOp) (vs :: 'a list) = Some (vs, [])" for vs
    by (induction vs) (simp_all add: list_remove_def)
  have ins: "?run (map InsertOp vs @ ops) xs = ?run ops (rev vs @ xs)" for ops and vs xs :: "'a list"
    by (induction vs arbitrary: xs) (simp_all add: lifo_insert_def)
  have cnt: "inserts (map InsertOp vs @ replicate k RemoveOp) = length vs" for vs :: "'a list" and k
    by (induction vs; induction k; simp)
  have "?run (replicate (length vs) RemoveOp) (rev vs) = Some (rev vs, [])" using rem [of "rev vs"] by simp
  then show ?thesis using run_refines [OF assms(1), of "map InsertOp vs @ replicate (length vs) RemoveOp"] assms
    by (auto simp: cnt ins)
qed

end

section \<open>Iteration by index\<close>

text \<open>
  The iterators that keep an index: while the index is inside the content, \<open>next\<close> returns the value there
  and moves to the following index, and at the end it returns none.
\<close>

locale index_iterator =
  fixes inv :: "'s \<Rightarrow> bool" and content :: "'s \<Rightarrow> 'a list"
    and nxt :: "'s \<Rightarrow> 'i \<Rightarrow> 'a option \<times> 'i" and at :: "u32 \<Rightarrow> 'i"
  assumes next_inside: "inv s \<Longrightarrow> unat i < length (content s) \<Longrightarrow> nxt s (at i) = (Some (content s ! unat i), at (i + 1))"
    and next_end: "inv s \<Longrightarrow> unat i = length (content s) \<Longrightarrow> fst (nxt s (at i)) = None"
    and content_small: "inv s \<Longrightarrow> length (content s) < 2 ^ 32"
begin

lemma drain_from:
  assumes inv: "inv s" and "unat i + n = length (content s)" "n < m"
  shows "fst (drain m (nxt s) (at i)) = drop (unat i) (content s)"
  using assms(2,3)
proof (induction n arbitrary: i m)
  case 0
  then show ?case using next_end [OF inv, of i] by (cases m) (auto split: prod.split option.split)
next
  case (Suc n)
  then obtain m' where m: "m = Suc m'" "n < m'" by (cases m) auto
  have "unat (i + 1) = Suc (unat i)" using Suc.prems(1) content_small [OF inv] by (simp add: unat_word_ariths)
  then have "fst (drain m' (nxt s) (at (i + 1))) = drop (Suc (unat i)) (content s)"
    using Suc.IH [of "i + 1" m'] Suc.prems(1) m(2) by simp
  then show ?case
    using next_inside [OF inv, of i] Suc.prems(1) m(1) by (simp add: case_prod_beta Cons_nth_drop_Suc)
qed

lemma drain_all:
  assumes "inv s"
  shows "fst (drain (Suc (length (content s)) + k) (nxt s) (at 0)) = content s"
  using drain_from [OF assms, of 0 "length (content s)"] by (simp del: drain.simps)

end

text \<open>A loop that calls the callback for each index in turn visits the whole content.\<close>

lemma for_up_visits:
  assumes "\<And>k w. k < length vs \<Longrightarrow> body k (Inr (s, w)) = Inr (s, f (vs ! k) k w)"
  shows "for_up 0 (length vs) body (Inr (s, w)) = Inr (s, visit_all f vs w)"
proof -
  have "for_up 0 n body (Inr (s, w)) = Inr (s, fold (\<lambda>i. f (vs ! i) i) [0..<n] w)" if "n \<le> length vs" for n
    using that by (induction n) (simp_all add: for_up_Suc assms)
  then show ?thesis by (simp add: visit_all_def)
qed

end
