(* ===== verification/JSAPI_Deque.thy ===== *)
theory JSAPI_Deque
  imports Container_Base
begin

text \<open>
  The double-ended queue of ecmascript/js_api/js_api_deque.cpp: a ring buffer with 32-bit
  positions that keeps one slot free, its iterator (js_api_deque_iterator.cpp) and the
  built-ins of ecmascript/containers/containers_deque.cpp. The content of a deque is a list;
  the operations refine the list operations.
\<close>

section \<open>Operations\<close>

record JSAPIDeque =
  dq_elements :: tagged_array
  dq_first :: u32
  dq_last :: u32

definition DEFAULT_CAPACITY_LENGTH :: nat where "DEFAULT_CAPACITY_LENGTH = 8"

definition ComputeCapacity :: "u32 \<Rightarrow> u32" where
  "ComputeCapacity oldCapacity =
     (let newCapacity = push_bit 1 oldCapacity
      in if newCapacity > of_nat DEFAULT_CAPACITY_LENGTH then newCapacity else of_nat DEFAULT_CAPACITY_LENGTH)"

definition GetSize :: "JSAPIDeque \<Rightarrow> u32" where
  "GetSize deque =
     (let capacity = cap (dq_elements deque)
      in (dq_last deque - dq_first deque + capacity) mod capacity)"

definition IsEmpty :: "JSAPIDeque \<Rightarrow> bool" where
  "IsEmpty deque \<longleftrightarrow> dq_first deque = dq_last deque"

definition GrowCapacity :: "JSAPIDeque \<Rightarrow> u32 \<Rightarrow> u32 \<Rightarrow> u32 \<Rightarrow> JSAPIDeque option" where
  "GrowCapacity deque oldCapacity first lst =
     (let newCapacity = ComputeCapacity oldCapacity
      in map_option (\<lambda>newElements. deque\<lparr>dq_elements := newElements\<rparr>)
           (CopyDeque (dq_elements deque) (unat newCapacity) first lst))"

definition InsertFront :: "JSAPIDeque \<Rightarrow> js_value \<Rightarrow> JSAPIDeque option" where
  "InsertFront deque val =
     (let capacity = cap (dq_elements deque);
          first = dq_first deque;
          lst = dq_last deque
      in map_option (\<lambda>(deque, first).
           let capacity = cap (dq_elements deque);
               first = (first + capacity - 1) mod capacity
           in deque\<lparr>dq_elements := (dq_elements deque)[unat first := val], dq_first := first\<rparr>)
         (if (first + capacity - 1) mod capacity = lst
          then map_option (\<lambda>deque. (deque\<lparr>dq_last := capacity - 1\<rparr>, 0)) (GrowCapacity deque capacity first lst)
          else Some (deque, first)))"

definition InsertEnd :: "JSAPIDeque \<Rightarrow> js_value \<Rightarrow> JSAPIDeque option" where
  "InsertEnd deque val =
     (let capacity = cap (dq_elements deque);
          first = dq_first deque;
          lst = dq_last deque
      in map_option (\<lambda>(deque, lst).
           let deque = deque\<lparr>dq_elements := (dq_elements deque)[unat lst := val]\<rparr>;
               capacity = cap (dq_elements deque)
           in deque\<lparr>dq_last := (lst + 1) mod capacity\<rparr>)
         (if first = (lst + 1) mod capacity
          then map_option (\<lambda>deque. (deque\<lparr>dq_first := 0\<rparr>, capacity - 1)) (GrowCapacity deque capacity first lst)
          else Some (deque, lst)))"

definition GetFront :: "JSAPIDeque \<Rightarrow> js_value" where
  "GetFront deque = (if IsEmpty deque then Undefined else dq_elements deque ! unat (dq_first deque))"

definition GetTail :: "JSAPIDeque \<Rightarrow> js_value" where
  "GetTail deque =
     (if IsEmpty deque then Undefined
      else let capacity = cap (dq_elements deque)
           in dq_elements deque ! unat ((dq_last deque + capacity - 1) mod capacity))"

definition PopFirst :: "JSAPIDeque \<Rightarrow> js_value \<times> JSAPIDeque" where
  "PopFirst deque =
     (if IsEmpty deque then (Undefined, deque)
      else let first = dq_first deque;
               capacity = cap (dq_elements deque);
               firstElement = dq_elements deque ! unat first
           in (firstElement,
               deque\<lparr>dq_elements := (dq_elements deque)[unat first := Hole], dq_first := (first + 1) mod capacity\<rparr>))"

definition PopLast :: "JSAPIDeque \<Rightarrow> js_value \<times> JSAPIDeque" where
  "PopLast deque =
     (if IsEmpty deque then (Undefined, deque)
      else let capacity = cap (dq_elements deque);
               lst = (dq_last deque + capacity - 1) mod capacity;
               lastElement = dq_elements deque ! unat lst
           in (lastElement, deque\<lparr>dq_elements := (dq_elements deque)[unat lst := Hole], dq_last := lst\<rparr>))"

definition Get :: "JSAPIDeque \<Rightarrow> u32 \<Rightarrow> js_value" where
  "Get deque index =
     (let capacity = cap (dq_elements deque);
          curIndex = (dq_first deque + index) mod capacity
      in dq_elements deque ! unat curIndex)"

definition Set :: "JSAPIDeque \<Rightarrow> u32 \<Rightarrow> js_value \<Rightarrow> js_value \<times> JSAPIDeque" where
  "Set deque index val =
     (if index \<ge> GetSize deque then (JSFalse, deque)
      else let capacity = cap (dq_elements deque);
               curIndex = (dq_first deque + index) mod capacity
           in (JSTrue, deque\<lparr>dq_elements := (dq_elements deque)[unat curIndex := val]\<rparr>))"

definition Has :: "(js_value \<Rightarrow> js_value \<Rightarrow> bool) \<Rightarrow> JSAPIDeque \<Rightarrow> js_value \<Rightarrow> bool option" where
  "Has SameValue deque val =
     map_option snd (while_option (\<lambda>(index, found). \<not> found \<and> index \<noteq> dq_last deque)
       (has_step SameValue (dq_elements deque) val) (dq_first deque, False))"

text \<open>\<open>OwnKeys\<close> first moves the content to the start of a larger array; \<open>keys\<close> is what
  \<open>JSObject::GetOwnPropertyKeys\<close> answers for the resulting object.\<close>

definition OwnKeys :: "(JSAPIDeque \<Rightarrow> 'k) \<Rightarrow> JSAPIDeque \<Rightarrow> ('k \<times> JSAPIDeque) option" where
  "OwnKeys keys deque =
     (let len = GetSize deque;
          newCapacity = ComputeCapacity (cap (dq_elements deque))
      in map_option (\<lambda>newElements.
           let deque = deque\<lparr>dq_first := 0, dq_last := len, dq_elements := newElements\<rparr> in (keys deque, deque))
         (CopyDeque (dq_elements deque) (unat newCapacity) (dq_first deque) (dq_last deque)))"

definition OwnEnumKeys :: "(JSAPIDeque \<Rightarrow> 'k) \<Rightarrow> JSAPIDeque \<Rightarrow> ('k \<times> JSAPIDeque) option" where
  "OwnEnumKeys keys deque =
     (let len = GetSize deque;
          newCapacity = ComputeCapacity (cap (dq_elements deque))
      in map_option (\<lambda>newElements.
           let deque = deque\<lparr>dq_first := 0, dq_last := len, dq_elements := newElements\<rparr> in (keys deque, deque))
         (CopyDeque (dq_elements deque) (unat newCapacity) (dq_first deque) (dq_last deque)))"

text \<open>\<open>index\<close> is the result of \<open>ToElementIndex\<close> on the key.\<close>

definition GetOwnProperty :: "JSAPIDeque \<Rightarrow> u32 option \<Rightarrow> bool outcome" where
  "GetOwnProperty deque index =
     (case index of
        None \<Rightarrow> Inl (BusinessError TYPE_ERROR (Msg ''The type of key can not obtain attributes of no-number type.''))
      | Some index \<Rightarrow>
          let len = GetSize deque
          in if index \<ge> len then Inl (BusinessError RANGE_ERROR (RangeMsg ''index'' (int (unat (len - 1))) (int (unat index))))
             else Inr True)"

definition GetProperty :: "JSAPIDeque \<Rightarrow> index_key \<Rightarrow> js_value outcome" where
  "GetProperty obj key =
     (let len = sint (GetSize obj)
      in if len = 0 then Inl (BusinessError RANGE_ERROR (Msg ''Container is empty''))
         else case TryCastDoubleToInt32 key of
           KeyInt index \<Rightarrow>
             if index < 0 \<or> index \<ge> len then Inl (BusinessError RANGE_ERROR (RangeMsg ''index'' (len - 1) index))
             else Inr (Get obj (word_of_int index))
         | _ \<Rightarrow> Inl (BusinessError TYPE_ERROR (Msg ''The type of index must be small integer.'')))"

definition SetProperty :: "JSAPIDeque \<Rightarrow> index_key \<Rightarrow> js_value \<Rightarrow> bool \<times> JSAPIDeque" where
  "SetProperty obj key val =
     (let len = sint (GetSize obj)
      in case TryCastDoubleToInt32 key of
           KeyInt index \<Rightarrow>
             if index < 0 \<or> index \<ge> len then (False, obj)
             else (True, snd (Set obj (word_of_int index) val))
         | _ \<Rightarrow> (False, obj))"

section \<open>Iterator and built-ins\<close>

text \<open>\<open>it_over\<close> records that the iterated deque has been replaced by undefined.\<close>

record JSAPIDequeIterator =
  it_over :: bool
  it_next :: u32

definition GetIteratorObj :: "JSAPIDeque \<Rightarrow> JSAPIDequeIterator" where
  "GetIteratorObj deque = \<lparr>it_over = False, it_next = dq_first deque\<rparr>"

definition Next :: "JSAPIDeque \<Rightarrow> JSAPIDequeIterator \<Rightarrow> js_value option \<times> JSAPIDequeIterator" where
  "Next deque iter =
     (if it_over iter then (None, iter)
      else let index = it_next iter;
               capacity = cap (dq_elements deque);
               first = dq_first deque
           in if index = dq_last deque then (None, iter\<lparr>it_over := True\<rparr>)
              else let elementIndex = (index + capacity - first) mod capacity
                   in (Some (Get deque elementIndex), iter\<lparr>it_next := (index + 1) mod capacity\<rparr>))"

definition DequeConstructor :: "bool \<Rightarrow> JSAPIDeque outcome" where
  "DequeConstructor newTargetUndefined =
     (if newTargetUndefined then Inl (constructor_error ''Deque'')
      else Inr \<lparr>dq_elements = NewTaggedArray DEFAULT_CAPACITY_LENGTH, dq_first = 0, dq_last = 0\<rparr>)"

definition ContainersDeque_InsertFront :: "JSAPIDeque this_arg \<Rightarrow> js_value \<Rightarrow> (js_value \<times> JSAPIDeque) outcome option" where
  "ContainersDeque_InsertFront self val =
     (case resolve_this ''insertFront'' self of
        Inl e \<Rightarrow> Some (Inl e)
      | Inr deque \<Rightarrow> map_option (\<lambda>deque. Inr (JSTrue, deque)) (InsertFront deque val))"

definition ContainersDeque_InsertEnd :: "JSAPIDeque this_arg \<Rightarrow> js_value \<Rightarrow> (js_value \<times> JSAPIDeque) outcome option" where
  "ContainersDeque_InsertEnd self val =
     (case resolve_this ''insertEnd'' self of
        Inl e \<Rightarrow> Some (Inl e)
      | Inr deque \<Rightarrow> map_option (\<lambda>deque. Inr (JSTrue, deque)) (InsertEnd deque val))"

definition ContainersDeque_GetFirst :: "JSAPIDeque this_arg \<Rightarrow> js_value outcome" where
  "ContainersDeque_GetFirst self = bindO (resolve_this ''getFirst'' self) (\<lambda>deque. Inr (GetFront deque))"

definition ContainersDeque_GetLast :: "JSAPIDeque this_arg \<Rightarrow> js_value outcome" where
  "ContainersDeque_GetLast self = bindO (resolve_this ''getLast'' self) (\<lambda>deque. Inr (GetTail deque))"

definition ContainersDeque_Has :: "(js_value \<Rightarrow> js_value \<Rightarrow> bool) \<Rightarrow> JSAPIDeque this_arg \<Rightarrow> js_value \<Rightarrow> js_value outcome option" where
  "ContainersDeque_Has SameValue self val =
     (case resolve_this ''has'' self of
        Inl e \<Rightarrow> Some (Inl e)
      | Inr deque \<Rightarrow> map_option (\<lambda>isHas. Inr (tagged_bool isHas)) (Has SameValue deque val))"

definition ContainersDeque_PopFirst :: "JSAPIDeque this_arg \<Rightarrow> (js_value \<times> JSAPIDeque) outcome" where
  "ContainersDeque_PopFirst self = bindO (resolve_this ''popFirst'' self) (\<lambda>deque. Inr (PopFirst deque))"

definition ContainersDeque_PopLast :: "JSAPIDeque this_arg \<Rightarrow> (js_value \<times> JSAPIDeque) outcome" where
  "ContainersDeque_PopLast self = bindO (resolve_this ''popLast'' self) (\<lambda>deque. Inr (PopLast deque))"

text \<open>
  The bounds of the \<open>forEach\<close> loop are read before the first call of the callback; the
  values are read from the deque as the callback leaves it.
\<close>

definition foreach_step ::
  "(JSAPIDeque, 'w) callback \<Rightarrow> u32 \<Rightarrow> u32 \<times> u32 \<times> (JSAPIDeque \<times> 'w) outcome \<Rightarrow> u32 \<times> u32 \<times> (JSAPIDeque \<times> 'w) outcome" where
  "foreach_step callbackFn capacity s =
     (let (first, index, st) = s
      in ((first + 1) mod capacity, index + 1,
          bindO st (\<lambda>(deque, w). callbackFn (Get deque index) index (deque, w))))"

definition ContainersDeque_ForEach ::
  "JSAPIDeque this_arg \<Rightarrow> (JSAPIDeque, 'w) callback option \<Rightarrow> 'w \<Rightarrow> (JSAPIDeque \<times> 'w) outcome option" where
  "ContainersDeque_ForEach thisHandle callbackFn w =
     (case resolve_this ''forEach'' thisHandle of
        Inl e \<Rightarrow> Some (Inl e)
      | Inr deque \<Rightarrow>
          (case callbackFn of
             None \<Rightarrow> Some (Inl callback_error)
           | Some fn \<Rightarrow>
               map_option (\<lambda>(first, index, st). st)
                 (while_option (\<lambda>(first, index, st). first \<noteq> dq_last deque \<and> \<not> isl st) (foreach_step fn (cap (dq_elements deque)))
                   (dq_first deque, 0, Inr (deque, w)))))"

definition ContainersDeque_GetIteratorObj :: "JSAPIDeque this_arg \<Rightarrow> JSAPIDequeIterator outcome" where
  "ContainersDeque_GetIteratorObj self = bindO (resolve_this ''Symbol.iterator'' self) (\<lambda>deque. Inr (GetIteratorObj deque))"

definition ContainersDeque_GetSize :: "JSAPIDeque this_arg \<Rightarrow> u32 outcome" where
  "ContainersDeque_GetSize self = bindO (resolve_this ''getLength'' self) (\<lambda>deque. Inr (GetSize deque))"

section \<open>Content and invariant\<close>

definition wf_deque :: "JSAPIDeque \<Rightarrow> bool" where
  "wf_deque d \<longleftrightarrow> pos_ok (dq_elements d) (dq_first d) \<and> pos_ok (dq_elements d) (dq_last d)"

definition deque_list :: "JSAPIDeque \<Rightarrow> js_value list" where
  "deque_list d = ring (dq_elements d) (unat (dq_first d)) (unat (GetSize d))"

text \<open>Values below this number can be inserted without leaving the 32-bit positions.\<close>

definition deque_limit :: nat where
  "deque_limit = 2 ^ 30"

lemma wf_dequeD:
  assumes "wf_deque d"
  shows "unat (dq_first d) < length (dq_elements d)" "unat (dq_last d) < length (dq_elements d)"
    "length (dq_elements d) \<le> 2 ^ 31" "dq_elements d \<noteq> []" "unat (GetSize d) < length (dq_elements d)"
    "unat (dq_last d) = (unat (dq_first d) + unat (GetSize d)) mod length (dq_elements d)"
    "IsEmpty d \<longleftrightarrow> unat (GetSize d) = 0" "length (deque_list d) = unat (GetSize d)"
proof -
  have p: "pos_ok (dq_elements d) (dq_first d)" "pos_ok (dq_elements d) (dq_last d)"
    using assms by (simp_all add: wf_deque_def)
  note r = pos_reach [OF p]
  show "unat (dq_first d) < length (dq_elements d)" "unat (dq_last d) < length (dq_elements d)"
    "length (dq_elements d) \<le> 2 ^ 31" "dq_elements d \<noteq> []"
    using p by (auto simp: pos_ok_def)
  show "unat (GetSize d) < length (dq_elements d)"
    "unat (dq_last d) = (unat (dq_first d) + unat (GetSize d)) mod length (dq_elements d)"
    "IsEmpty d \<longleftrightarrow> unat (GetSize d) = 0"
    unfolding GetSize_def Let_def IsEmpty_def by (rule r(1), rule r(2), rule r(3) [symmetric])
qed (simp add: deque_list_def)

lemma dequeI:
  assumes "pos_ok (dq_elements d) (dq_first d)" "pos_ok (dq_elements d) (dq_last d)"
    "unat (dq_last d) = (unat (dq_first d) + k) mod length (dq_elements d)" "k < length (dq_elements d)"
  shows "wf_deque d" "deque_list d = ring (dq_elements d) (unat (dq_first d)) k"
  using assms pos_dist_unique [OF assms] by (simp_all add: wf_deque_def deque_list_def GetSize_def Let_def)

lemma ComputeCapacity_bounds:
  assumes "unat c \<le> 2 ^ 30"
  shows "unat c < unat (ComputeCapacity c)" "unat (ComputeCapacity c) \<le> 2 ^ 31"
proof -
  have "unat (push_bit 1 c) = 2 * unat c"
    using assms by (simp add: push_bit_eq_mult unat_word_ariths mult.commute)
  then show "unat c < unat (ComputeCapacity c)" "unat (ComputeCapacity c) \<le> 2 ^ 31"
    using assms by (auto simp: ComputeCapacity_def DEFAULT_CAPACITY_LENGTH_def Let_def word_less_nat_alt)
qed

text \<open>The array that a full deque grows into.\<close>

lemma GrowCapacity_correct:
  assumes wf: "wf_deque d" and n: "n = unat (GetSize d)" and small: "length (dq_elements d) \<le> 2 ^ 30"
  obtains els where "GrowCapacity d (cap (dq_elements d)) (dq_first d) (dq_last d) = Some (d\<lparr>dq_elements := els\<rparr>)"
    "take n els = deque_list d" "length (dq_elements d) < length els" "length els \<le> 2 ^ 31"
proof -
  let ?c = "length (dq_elements d)" and ?m = "unat (ComputeCapacity (cap (dq_elements d)))"
  have c: "unat (cap (dq_elements d)) = ?c" using small by (simp add: unat_cap)
  have m: "?c < ?m" "?m \<le> 2 ^ 31" using ComputeCapacity_bounds [of "cap (dq_elements d)"] small unfolding c by auto
  let ?els = "ring (dq_elements d) (unat (dq_first d)) n @ replicate (?m - n) Hole"
  have "n \<le> ?m" using wf_dequeD(5) [OF wf] m n by linarith
  then have "CopyDeque (dq_elements d) ?m (dq_first d) (dq_last d) = Some ?els"
    using wf n by (intro CopyDeque_correct) (auto simp: wf_deque_def GetSize_def Let_def)
  then show thesis using that [of ?els] m n \<open>n \<le> ?m\<close> by (simp add: GrowCapacity_def deque_list_def)
qed

section \<open>Correctness of the operations\<close>

lemma deque_next:
  assumes wf: "wf_deque d"
  shows "unat ((dq_last d + 1) mod cap (dq_elements d)) =
    (unat (dq_first d) + Suc (unat (GetSize d))) mod length (dq_elements d)"
  using pos_next [of "dq_elements d" "dq_last d"] wf wf_dequeD(6) [OF wf] by (simp add: wf_deque_def mod_Suc_eq)

text \<open>The deque is full when the next position is the first one: one slot stays free.\<close>

lemma deque_full:
  assumes wf: "wf_deque d"
  shows "dq_first d = (dq_last d + 1) mod cap (dq_elements d) \<longleftrightarrow> Suc (unat (GetSize d)) = length (dq_elements d)"
proof
  let ?c = "length (dq_elements d)" and ?f = "unat (dq_first d)" and ?n = "unat (GetSize d)"
  note D = wf_dequeD [OF wf] and nxt = deque_next [OF wf]
  show "dq_first d = (dq_last d + 1) mod cap (dq_elements d)" if "Suc ?n = ?c"
    using that nxt D(1) by (simp add: word_unat_eq_iff)
  assume "dq_first d = (dq_last d + 1) mod cap (dq_elements d)"
  then have "(?f + Suc ?n) mod ?c = (?f + 0) mod ?c" using nxt D(1) by simp
  then have "\<not> Suc ?n < ?c" using ring_inj [of ?f "Suc ?n" ?c 0] D(4) by auto
  then show "Suc ?n = ?c" using D(5) by linarith
qed

text \<open>A full deque after its content has moved to the start of a larger array.\<close>

lemma append_after_growth:
  fixes v :: js_value
  assumes wf: "wf_deque d" and full: "Suc (unat (GetSize d)) = length (dq_elements d)"
    and els: "take (unat (GetSize d)) els = deque_list d" "length (dq_elements d) < length els" "length els \<le> 2 ^ 31"
  defines "d' \<equiv> d\<lparr>dq_elements := els[unat (GetSize d) := v], dq_first := 0,
    dq_last := (cap (dq_elements d) - 1 + 1) mod cap els\<rparr>"
  shows "wf_deque d' \<and> deque_list d' = deque_list d @ [v]"
proof -
  let ?n = "unat (GetSize d)"
  have lst: "unat (cap (dq_elements d) mod cap els) = Suc ?n"
    using els(2,3) full wf_dequeD(3) [OF wf] by (simp add: unat_mod unat_cap)
  have "pos_ok (els[?n := v]) 0" "pos_ok (els[?n := v]) (cap (dq_elements d) mod cap els)"
    using els(2,3) full lst by (auto simp: pos_ok_def)
  then have "wf_deque d' \<and> deque_list d' = ring (dq_elements d') 0 (Suc ?n)"
    unfolding d'_def using dequeI [of "d\<lparr>dq_elements := els[?n := v], dq_first := 0,
      dq_last := (cap (dq_elements d) - 1 + 1) mod cap els\<rparr>" "Suc ?n"] els(2) full lst by simp
  moreover have "ring (els[?n := v]) 0 (Suc ?n) = deque_list d @ [v]"
    using els(2) full take_Suc_update [of ?n els v] by (subst ring_from_0) (simp_all only: els(1), simp_all)
  ultimately show ?thesis by (simp add: d'_def)
qed

lemma InsertEnd_correct:
  assumes wf: "wf_deque d" and lim: "length (deque_list d) < deque_limit"
  shows "\<exists>d'. InsertEnd d v = Some d' \<and> wf_deque d' \<and> deque_list d' = deque_list d @ [v]"
proof -
  let ?els = "dq_elements d" and ?f = "unat (dq_first d)" and ?n = "unat (GetSize d)"
  let ?c = "length ?els"
  note D = wf_dequeD [OF wf]
  note nxt = deque_next [OF wf] and full = deque_full [OF wf]
  show ?thesis
  proof (cases "Suc ?n = ?c")
    case False
    let ?d = "d\<lparr>dq_elements := ?els[unat (dq_last d) := v], dq_last := (dq_last d + 1) mod cap ?els\<rparr>"
    have "InsertEnd d v = Some ?d" using full False by (simp add: InsertEnd_def Let_def cap_def)
    moreover have "wf_deque ?d \<and> deque_list ?d = ring (dq_elements ?d) ?f (Suc ?n)"
      using dequeI [of ?d "Suc ?n"] D(1,3,4,5) False nxt by (simp add: pos_ok_def)
    moreover have "ring (?els[unat (dq_last d) := v]) ?f (Suc ?n) = deque_list d @ [v]"
      using D by (simp add: ring_snoc ring_update_outside deque_list_def)
    ultimately show ?thesis by simp
  next
    case True
    have small: "?c \<le> 2 ^ 30" using True lim D(8) by (simp add: deque_limit_def)
    obtain els where g: "GrowCapacity d (cap ?els) (dq_first d) (dq_last d) = Some (d\<lparr>dq_elements := els\<rparr>)"
      "take ?n els = deque_list d" "?c < length els" "length els \<le> 2 ^ 31"
      by (rule GrowCapacity_correct [OF wf refl small])
    have l: "unat (cap ?els - 1) = ?n" using True D(3) unat_cap [of ?els] by (subst unat_sub) (auto simp: word_le_nat_alt)
    let ?d = "d\<lparr>dq_elements := els[?n := v], dq_first := 0, dq_last := (cap ?els - 1 + 1) mod cap els\<rparr>"
    have "InsertEnd d v = Some ?d"
      using full True g(1) l by (simp add: InsertEnd_def Let_def cap_def)
    then show ?thesis using append_after_growth [OF wf True g(2-4)] by auto
  qed
qed

lemma InsertFront_correct:
  assumes wf: "wf_deque d" and lim: "length (deque_list d) < deque_limit"
  shows "\<exists>d'. InsertFront d v = Some d' \<and> wf_deque d' \<and> deque_list d' = v # deque_list d"
proof -
  let ?els = "dq_elements d" and ?f = "unat (dq_first d)" and ?n = "unat (GetSize d)"
  let ?c = "length ?els"
  note D = wf_dequeD [OF wf]
  define p where "p = (dq_first d + cap ?els - 1) mod cap ?els"
  have prev: "unat p = (?f + (?c - 1)) mod ?c"
    using pos_prev [of ?els "dq_first d"] wf D(1) by (simp add: wf_deque_def p_def)
  have p_ok: "pos_ok ?els p" unfolding p_def by (rule pos_mod) (use D(3,4) in auto)
  have full: "p = dq_last d \<longleftrightarrow> Suc ?n = ?c"
  proof
    assume "Suc ?n = ?c"
    then have "?c - 1 = ?n" by simp
    then show "p = dq_last d" using prev D(6) by (simp only: word_unat_eq_iff)
  next
    assume "p = dq_last d"
    then have "(?f + (?c - 1)) mod ?c = (?f + ?n) mod ?c" using prev D(6) by simp
    then have "?c - 1 = ?n" using ring_inj [of ?f "?c - 1" ?c ?n] D(4,5) by auto
    then show "Suc ?n = ?c" using D(4,5) by linarith
  qed
  show ?thesis
  proof (cases "Suc ?n = ?c")
    case False
    then have lt: "Suc ?n < ?c" using D(5) by linarith
    let ?d = "d\<lparr>dq_elements := ?els[unat p := v], dq_first := p\<rparr>"
    have "InsertFront d v = Some ?d" using full False by (simp add: InsertFront_def Let_def p_def)
    moreover have sp: "Suc (unat p) mod ?c = ?f"
    proof -
      have "Suc (?f + (?c - 1)) = ?f + ?c" using D(1) by simp
      then show ?thesis using D(1) unfolding prev mod_Suc_eq by simp
    qed
    have "unat (dq_last d) = (unat p + Suc ?n) mod ?c"
    proof -
      have "(unat p + Suc ?n) mod ?c = (Suc (unat p) mod ?c + ?n) mod ?c" by (simp add: mod_add_left_eq)
      then show ?thesis using sp D(6) by simp
    qed
    then have "wf_deque ?d \<and> deque_list ?d = ring (dq_elements ?d) (unat p) (Suc ?n)"
      using dequeI [of ?d "Suc ?n"] p_ok lt D(2,3) by (simp add: pos_ok_def)
    moreover have "ring (?els[unat p := v]) (unat p) (Suc ?n) = v # deque_list d"
    proof -
      have u: "unat p mod ?c = unat p" "unat p < ?c" using p_ok by (simp_all add: pos_ok_def)
      have "ring (?els[unat p := v]) (Suc (unat p)) ?n = ring (?els[unat p := v]) ?f ?n"
        using ring_mod [of "?els[unat p := v]" "Suc (unat p)" ?n] sp by simp
      also have "\<dots> = ring ?els ?f ?n"
        unfolding prev by (rule ring_update_outside) (use lt in linarith)+
      finally show ?thesis using u by (simp add: ring_Cons deque_list_def)
    qed
    ultimately show ?thesis by simp
  next
    case True
    have small: "?c \<le> 2 ^ 30" using True lim D(8) by (simp add: deque_limit_def)
    obtain els where g: "GrowCapacity d (cap ?els) (dq_first d) (dq_last d) = Some (d\<lparr>dq_elements := els\<rparr>)"
      "take ?n els = deque_list d" "?c < length els" "length els \<le> 2 ^ 31"
      by (rule GrowCapacity_correct [OF wf refl small])
    let ?m = "length els - 1"
    define q where "q = (cap els - 1) mod cap els"
    have z: "pos_ok els 0" using g(3,4) by (auto simp: pos_ok_def)
    have q: "unat q = ?m"
      using pos_prev [OF z] g(3) unfolding q_def by (simp add: less_imp_diff_less)
    have l: "unat (cap ?els - 1) = ?n" using True D(3) unat_cap [of ?els] by (subst unat_sub) (auto simp: word_le_nat_alt)
    let ?d = "d\<lparr>dq_elements := els[?m := v], dq_first := q, dq_last := cap ?els - 1\<rparr>"
    have "InsertFront d v = Some ?d"
      using full True g(1) q by (simp add: InsertFront_def Let_def p_def [symmetric] q_def [symmetric])
    moreover have "(?m + Suc ?n) mod length els = ?n"
    proof -
      have "?m + Suc ?n = length els + ?n" using g(3) by simp
      then show ?thesis using g(3) True by simp
    qed
    then have "wf_deque ?d \<and> deque_list ?d = ring (dq_elements ?d) ?m (Suc ?n)"
      using dequeI [of ?d "Suc ?n"] g(3,4) True q l by (simp add: pos_ok_def)
    moreover have "ring (els[?m := v]) ?m (Suc ?n) = v # deque_list d"
    proof -
      have len: "Suc ?m = length els" "?m < length els" using g(3) by simp_all
      have "ring (els[?m := v]) (Suc ?m) ?n = take ?n els"
        using ring_mod [of "els[?m := v]" "Suc ?m" ?n] len g(3) True by (simp add: ring_from_0)
      then show ?thesis using len g(2) by (simp add: ring_Cons)
    qed
    ultimately show ?thesis by simp
  qed
qed

lemma PopFirst_correct:
  assumes wf: "wf_deque d"
  shows "wf_deque (snd (PopFirst d)) \<and> fst (PopFirst d) = fst (list_remove Undefined (deque_list d)) \<and>
    deque_list (snd (PopFirst d)) = snd (list_remove Undefined (deque_list d))"
proof (cases "unat (GetSize d)")
  case 0
  then show ?thesis using wf wf_dequeD(7) [OF wf] by (simp add: PopFirst_def list_remove_def deque_list_def)
next
  case (Suc m)
  let ?els = "dq_elements d" and ?f = "unat (dq_first d)"
  let ?c = "length ?els" and ?q = "(dq_first d + 1) mod cap ?els"
  note D = wf_dequeD [OF wf]
  let ?d = "d\<lparr>dq_elements := ?els[?f := Hole], dq_first := ?q\<rparr>"
  have q: "unat ?q = Suc ?f mod ?c" using pos_next [of ?els "dq_first d"] wf by (simp add: wf_deque_def)
  have eq: "PopFirst d = (?els ! ?f, ?d)" using Suc D(7) by (simp add: PopFirst_def Let_def)
  have "unat (dq_last d) = (unat ?q + m) mod ?c" using D(6) Suc unfolding q by (simp add: mod_add_left_eq)
  then have "wf_deque ?d \<and> deque_list ?d = ring (dq_elements ?d) (unat ?q) m"
    using dequeI [of ?d m] D(2,3,4,5) Suc q by (simp add: pos_ok_def)
  moreover have "ring (?els[?f := Hole]) (unat ?q) m = ring ?els (Suc ?f) m"
  proof -
    have "Suc ?f + (?c - 1) = ?f + ?c" using D(1) by simp
    then have f: "?f = (Suc ?f + (?c - 1)) mod ?c" using D(1) by simp
    have "ring (?els[(Suc ?f + (?c - 1)) mod ?c := Hole]) (Suc ?f) m = ring ?els (Suc ?f) m"
      by (rule ring_update_outside) (use D(5) Suc in linarith)+
    then have "ring (?els[?f := Hole]) (Suc ?f) m = ring ?els (Suc ?f) m" unfolding f [symmetric] .
    then show ?thesis using ring_mod [of "?els[?f := Hole]" "Suc ?f" m] q by simp
  qed
  moreover have "deque_list d = ?els ! ?f # ring ?els (Suc ?f) m"
    using D(1) by (simp add: deque_list_def Suc ring_Cons)
  ultimately show ?thesis unfolding eq by (simp add: list_remove_def)
qed

lemma PopLast_correct:
  assumes wf: "wf_deque d"
  shows "wf_deque (snd (PopLast d)) \<and> fst (PopLast d) = fst (list_remove Undefined (rev (deque_list d))) \<and>
    rev (deque_list (snd (PopLast d))) = snd (list_remove Undefined (rev (deque_list d)))"
proof (cases "unat (GetSize d)")
  case 0
  then show ?thesis using wf wf_dequeD(7) [OF wf] by (simp add: PopLast_def list_remove_def deque_list_def)
next
  case (Suc m)
  let ?els = "dq_elements d" and ?f = "unat (dq_first d)"
  let ?c = "length ?els" and ?q = "(dq_last d + cap (dq_elements d) - 1) mod cap ?els"
  note D = wf_dequeD [OF wf]
  let ?d = "d\<lparr>dq_elements := ?els[unat ?q := Hole], dq_last := ?q\<rparr>"
  have q: "unat ?q = (?f + m) mod ?c"
  proof -
    have "unat ?q = (unat (dq_last d) + (?c - 1)) mod ?c"
      using pos_prev [of ?els "dq_last d"] wf D(2) by (simp add: wf_deque_def)
    also have "\<dots> = (?f + Suc m + (?c - 1)) mod ?c" unfolding D(6) Suc mod_add_left_eq ..
    also have "?f + Suc m + (?c - 1) = (?f + m) + ?c" using D(1) by simp
    finally show ?thesis by simp
  qed
  have eq: "PopLast d = (?els ! unat ?q, ?d)" using Suc D(7) by (simp add: PopLast_def Let_def)
  have "wf_deque ?d \<and> deque_list ?d = ring (dq_elements ?d) ?f m"
    using dequeI [of ?d m] D(1,3,4,5) Suc q by (simp add: pos_ok_def)
  moreover have "ring (?els[unat ?q := Hole]) ?f m = ring ?els ?f m"
    unfolding q by (rule ring_update_outside) (use D(5) Suc in linarith)+
  moreover have "deque_list d = ring ?els ?f m @ [?els ! unat ?q]"
    using q by (simp add: deque_list_def Suc ring_snoc)
  ultimately show ?thesis unfolding eq by (simp add: list_remove_def)
qed

lemma Get_correct: "wf_deque d \<Longrightarrow> unat i < length (deque_list d) \<Longrightarrow> JSAPI_Deque.Get d i = deque_list d ! unat i"
  using wf_dequeD(5,8) [of d] pos_at [of "dq_elements d" "dq_first d" i]
  by (simp add: Get_def Let_def deque_list_def ring_nth wf_deque_def)

lemma Set_correct:
  assumes wf: "wf_deque d"
  shows "wf_deque (snd (JSAPI_Deque.Set d i v)) \<and> fst (JSAPI_Deque.Set d i v) = tagged_bool (unat i < length (deque_list d)) \<and>
    deque_list (snd (JSAPI_Deque.Set d i v)) = (deque_list d)[unat i := v]"
proof (cases "unat i < length (deque_list d)")
  case False
  then show ?thesis using wf wf_dequeD(8) [OF wf]
    by (simp add: JSAPI_Deque.Set_def word_le_nat_alt tagged_bool_def list_update_beyond)
next
  case True
  let ?els = "dq_elements d" and ?k = "(dq_first d + i) mod cap (dq_elements d)"
  note D = wf_dequeD [OF wf]
  let ?d = "d\<lparr>dq_elements := ?els[unat ?k := v]\<rparr>"
  have i: "unat i < unat (GetSize d)" using True D(8) by simp
  have k: "unat ?k = (unat (dq_first d) + unat i) mod length ?els"
    using pos_at [of ?els "dq_first d" i] wf i D(5) by (simp add: wf_deque_def)
  have "JSAPI_Deque.Set d i v = (JSTrue, ?d)" using i by (simp add: JSAPI_Deque.Set_def Let_def word_le_nat_alt)
  moreover have "wf_deque ?d \<and> deque_list ?d = ring (?els[unat ?k := v]) (unat (dq_first d)) (unat (GetSize d))"
    using dequeI [of ?d "unat (GetSize d)"] D(1,2,3,5,6) by (simp add: pos_ok_def)
  moreover have "ring (?els[unat ?k := v]) (unat (dq_first d)) (unat (GetSize d)) = (deque_list d)[unat i := v]"
    unfolding k deque_list_def by (rule ring_update) (use i D(5) in simp_all)
  ultimately show ?thesis using True by (simp add: tagged_bool_def)
qed

lemma Has_correct:
  assumes wf: "wf_deque d"
  shows "Has same d v = Some (\<exists>x \<in> set (deque_list d). same x v)"
  using ring_has [of "dq_elements d" "dq_first d" "dq_last d" same v] wf
  by (simp add: Has_def wf_deque_def deque_list_def GetSize_def Let_def)

lemma OwnKeys_correct:
  assumes wf: "wf_deque d" and small: "length (dq_elements d) \<le> 2 ^ 30"
  obtains d' where "OwnKeys keys d = Some (keys d', d')" "wf_deque d'" "deque_list d' = deque_list d"
proof -
  let ?n = "unat (GetSize d)"
  note D = wf_dequeD [OF wf]
  obtain els where g: "GrowCapacity d (cap (dq_elements d)) (dq_first d) (dq_last d) = Some (d\<lparr>dq_elements := els\<rparr>)"
    "take ?n els = deque_list d" "length (dq_elements d) < length els" "length els \<le> 2 ^ 31"
    by (rule GrowCapacity_correct [OF wf refl small])
  let ?d = "d\<lparr>dq_first := 0, dq_last := GetSize d, dq_elements := els\<rparr>"
  have lt: "?n < length els" "els \<noteq> []" using g(3) D(5) by (linarith, auto)
  have c: "CopyDeque (dq_elements d) (unat (ComputeCapacity (cap (dq_elements d)))) (dq_first d) (dq_last d) = Some els"
    using g(1) by (auto simp: GrowCapacity_def Let_def dest!: arg_cong [where f = dq_elements])
  then have "OwnKeys keys d = Some (keys ?d, ?d)" by (simp add: OwnKeys_def Let_def)
  moreover have "wf_deque ?d \<and> deque_list ?d = ring els 0 ?n"
    using dequeI [of ?d ?n] g(3,4) lt by (auto simp: pos_ok_def)
  moreover have "ring els 0 ?n = deque_list d" using g(2) lt by (simp add: ring_from_0)
  ultimately show thesis using that [of ?d] by simp
qed

lemma OwnEnumKeys_eq: "OwnEnumKeys = OwnKeys"
  by (simp add: fun_eq_iff OwnEnumKeys_def OwnKeys_def)

section \<open>The deque as a state machine\<close>

text \<open>
  Every operation that changes a deque is an event; the removals carry the value they
  return. The step relation is the code, \<open>deque_effect\<close> is the specification on lists.
\<close>

datatype deque_event = EInsertFront js_value | EInsertEnd js_value | EPopFirst js_value | EPopLast js_value
  | ESet u32 js_value | EOwnKeys

inductive deque_step :: "JSAPIDeque \<Rightarrow> deque_event \<Rightarrow> JSAPIDeque \<Rightarrow> bool" where
  front: "InsertFront d v = Some d' \<Longrightarrow> deque_step d (EInsertFront v) d'"
| rear: "InsertEnd d v = Some d' \<Longrightarrow> deque_step d (EInsertEnd v) d'"
| pop_first: "PopFirst d = (v, d') \<Longrightarrow> deque_step d (EPopFirst v) d'"
| pop_last: "PopLast d = (v, d') \<Longrightarrow> deque_step d (EPopLast v) d'"
| set: "Set d i v = (r, d') \<Longrightarrow> deque_step d (ESet i v) d'"
| keys: "OwnKeys keys d = Some (k :: unit, d') \<Longrightarrow> deque_step d EOwnKeys d'"

fun deque_effect :: "deque_event \<Rightarrow> js_value list \<Rightarrow> js_value list \<Rightarrow> bool" where
  "deque_effect (EInsertFront v) xs ys \<longleftrightarrow> ys = v # xs"
| "deque_effect (EInsertEnd v) xs ys \<longleftrightarrow> ys = xs @ [v]"
| "deque_effect (EPopFirst v) xs ys \<longleftrightarrow> (if xs = [] then v = Undefined \<and> ys = [] else xs = v # ys)"
| "deque_effect (EPopLast v) xs ys \<longleftrightarrow> (if xs = [] then v = Undefined \<and> ys = [] else xs = ys @ [v])"
| "deque_effect (ESet i v) xs ys \<longleftrightarrow> ys = xs[unat i := v]"
| "deque_effect EOwnKeys xs ys \<longleftrightarrow> ys = xs"

lemma deque_step_refines:
  assumes "deque_step d e d'" "wf_deque d" "length (dq_elements d) \<le> 2 ^ 30"
  shows "wf_deque d' \<and> deque_effect e (deque_list d) (deque_list d')"
proof -
  have lim: "length (deque_list d) < deque_limit"
    using wf_dequeD(5,8) [OF assms(2)] assms(3) by (simp add: deque_limit_def)
  from assms(1) show ?thesis
  proof cases
    case (front v)
    then show ?thesis using InsertFront_correct [OF assms(2) lim, of v] by auto
  next
    case (rear v)
    then show ?thesis using InsertEnd_correct [OF assms(2) lim, of v] by auto
  next
    case (pop_first v)
    then show ?thesis using PopFirst_correct [OF assms(2)] by (auto simp: list_remove_def split: list.splits)
  next
    case (pop_last v)
    then show ?thesis using PopLast_correct [OF assms(2)]
      by (cases "deque_list d" rule: rev_cases) (auto simp: list_remove_def)
  next
    case (set i v r)
    then show ?thesis using Set_correct [OF assms(2), of i v] by auto
  next
    case (keys keys k)
    then show ?thesis using OwnKeys_correct [OF assms(2,3), of keys] by auto
  qed
qed

text \<open>
  Traces of events from a deque, while the arrays stay within \<open>2 ^ 30\<close> slots, and the traces of the
  specification.
\<close>

inductive deque_trace :: "JSAPIDeque \<Rightarrow> deque_event list \<Rightarrow> JSAPIDeque \<Rightarrow> bool" where
  nil: "deque_trace d [] d"
| cons: "deque_step d e d' \<Longrightarrow> length (dq_elements d) \<le> 2 ^ 30 \<Longrightarrow> deque_trace d' es d'' \<Longrightarrow> deque_trace d (e # es) d''"

fun list_trace :: "js_value list \<Rightarrow> deque_event list \<Rightarrow> js_value list \<Rightarrow> bool" where
  "list_trace xs [] ys \<longleftrightarrow> ys = xs"
| "list_trace xs (e # es) ys \<longleftrightarrow> (\<exists>zs. deque_effect e xs zs \<and> list_trace zs es ys)"

lemma deque_trace_refines:
  "deque_trace d es d' \<Longrightarrow> wf_deque d \<Longrightarrow> wf_deque d' \<and> list_trace (deque_list d) es (deque_list d')"
proof (induction rule: deque_trace.induct)
  case (cons d e d' es d'')
  then have "wf_deque d' \<and> deque_effect e (deque_list d) (deque_list d')" by (intro deque_step_refines) simp_all
  then show ?case using cons by auto
qed simp

lemma wf_new_deque:
  "DequeConstructor False = Inr d \<Longrightarrow> wf_deque d \<and> deque_list d = []"
  by (auto simp: DequeConstructor_def wf_deque_def pos_ok_def deque_list_def GetSize_def NewTaggedArray_def
      DEFAULT_CAPACITY_LENGTH_def cap_def)

interpretation deque_fifo: fifo_container wf_deque deque_list InsertEnd PopFirst Undefined deque_limit
  by unfold_locales
    (simp_all add: InsertEnd_correct PopFirst_correct container_spec_lengths, simp_all add: fifo_insert_def InsertEnd_correct)

interpretation deque_lifo: lifo_container wf_deque "\<lambda>d. rev (deque_list d)" InsertEnd PopLast Undefined deque_limit
proof unfold_locales
  show "\<exists>s'. InsertEnd s v = Some s' \<and> wf_deque s' \<and> rev (deque_list s') = lifo_insert (rev (deque_list s)) v"
    if "wf_deque s" "length (rev (deque_list s)) < deque_limit" for s v
    using InsertEnd_correct [of s v] that by (auto simp: lifo_insert_def)
qed (simp_all add: PopLast_correct container_spec_lengths)

section \<open>Iteration\<close>

lemma Next_at:
  assumes wf: "wf_deque d" and k: "unat i = (unat (dq_first d) + k) mod length (dq_elements d)" "k \<le> length (deque_list d)"
  shows "Next d \<lparr>it_over = False, it_next = i\<rparr> =
    (if k = length (deque_list d) then (None, \<lparr>it_over = True, it_next = i\<rparr>)
     else (Some (deque_list d ! k), \<lparr>it_over = False, it_next = (i + 1) mod cap (dq_elements d)\<rparr>))"
proof -
  note D = wf_dequeD [OF wf]
  have k': "k < length (dq_elements d)" using k(2) D(5,8) by simp
  have i: "pos_ok (dq_elements d) i" using k(1) D(3,4) by (simp add: pos_ok_def)
  have last: "i = dq_last d \<longleftrightarrow> k = length (deque_list d)"
    using k(1) D(5,6,8) k' ring_inj [of "unat (dq_first d)" k "length (dq_elements d)" "unat (GetSize d)"]
    by (auto simp: word_unat_eq_iff)
  define e where "e = (i + cap (dq_elements d) - dq_first d) mod cap (dq_elements d)"
  have "i + cap (dq_elements d) - dq_first d = i - dq_first d + cap (dq_elements d)" by simp
  then have e: "e = (i - dq_first d + cap (dq_elements d)) mod cap (dq_elements d)" unfolding e_def by (rule arg_cong)
  have "unat e = k"
    unfolding e using pos_dist_unique [of "dq_elements d" "dq_first d" i k] wf i k(1) k' by (simp add: wf_deque_def)
  then have "k < length (deque_list d) \<Longrightarrow> Get d e = deque_list d ! k" using Get_correct [OF wf, of e] by simp
  then show ?thesis using last k(2) by (auto simp: Next_def Let_def e_def)
qed

lemma deque_drain_from:
  assumes wf: "wf_deque d" and i: "unat i = (unat (dq_first d) + k) mod length (dq_elements d)"
    and n: "length (deque_list d) = k + n" "n < m"
  shows "fst (drain m (Next d) \<lparr>it_over = False, it_next = i\<rparr>) = drop k (deque_list d)"
  using i n
proof (induction n arbitrary: k i m)
  case 0
  then show ?case using Next_at [OF wf, of i k] by (cases m) simp_all
next
  case (Suc n)
  then obtain m' where m: "m = Suc m'" "n < m'" by (cases m) auto
  have "pos_ok (dq_elements d) i" using Suc.prems(1) wf_dequeD(3,4) [OF wf] by (simp add: pos_ok_def)
  then have "unat ((i + 1) mod cap (dq_elements d)) = (unat (dq_first d) + Suc k) mod length (dq_elements d)"
    using Suc.prems(1) by (simp add: pos_next mod_Suc_eq)
  then have "fst (drain m' (Next d) \<lparr>it_over = False, it_next = (i + 1) mod cap (dq_elements d)\<rparr>) = drop (Suc k) (deque_list d)"
    using Suc.IH Suc.prems(2) m(2) by simp
  moreover have "drop k (deque_list d) = deque_list d ! k # drop (Suc k) (deque_list d)"
    using Suc.prems(2) by (simp add: Cons_nth_drop_Suc)
  ultimately show ?case using Next_at [OF wf Suc.prems(1)] Suc.prems(2) m(1)
    by (simp add: case_prod_beta)
qed

lemma foreach_step_simps:
  "foreach_step fn c (i, j, Inr (d, w)) = ((i + 1) mod c, j + 1, fn (Get d j) j (d, w))"
  by (simp add: foreach_step_def)

text \<open>A callback that does not change the deque and does not throw is called for every value in order.\<close>

lemma foreach_visits:
  assumes wf: "wf_deque d" and fn: "\<And>v i w. fn v i (d, w) = Inr (d, f v (unat i) w)"
  shows "\<exists>i j. while_option (\<lambda>(first, index, st). first \<noteq> dq_last d \<and> \<not> isl st) (foreach_step fn (cap (dq_elements d)))
      (dq_first d, 0, Inr (d, w)) = Some (i, j, Inr (d, visit_all f (deque_list d) w))"
proof -
  let ?els = "dq_elements d" and ?n = "unat (GetSize d)"
  let ?step = "foreach_step fn (cap ?els)" and ?s = "(dq_first d, 0 :: u32, Inr (d, w) :: (JSAPIDeque \<times> 'a) outcome)"
  note D = wf_dequeD [OF wf]
  have S: "\<exists>i j. (?step ^^ k) ?s = (i, j, Inr (d, fold (\<lambda>i. f (deque_list d ! i) i) [0..<k] w)) \<and>
      unat i = (unat (dq_first d) + k) mod length ?els \<and> unat j = k" if "k \<le> ?n" for k
    using that
  proof (induction k)
    case 0
    then show ?case using D(1) by simp
  next
    case (Suc k)
    then obtain i j where ij: "(?step ^^ k) ?s = (i, j, Inr (d, fold (\<lambda>i. f (deque_list d ! i) i) [0..<k] w))"
      "unat i = (unat (dq_first d) + k) mod length ?els" "unat j = k" by auto
    have "pos_ok ?els i" using ij(2) D(3,4) by (simp add: pos_ok_def)
    then have "unat ((i + 1) mod cap ?els) = (unat (dq_first d) + Suc k) mod length ?els"
      using ij(2) by (simp add: pos_next mod_Suc_eq)
    moreover have "unat (j + 1) = Suc k" using ij(3) Suc.prems D(3,5) by (simp add: unat_word_ariths)
    moreover have "Get d j = deque_list d ! k" using Get_correct [OF wf, of j] ij(3) Suc.prems D(8) by simp
    ultimately show ?case using ij by (simp add: foreach_step_simps fn)
  qed
  have at: "fst ((?step ^^ k) ?s) = dq_last d \<longleftrightarrow> k = ?n" if "k \<le> ?n" for k
    using S [OF that] D(5,6) ring_inj [of "unat (dq_first d)" k "length ?els" ?n] that by (auto simp: word_unat_eq_iff)
  have "while_option (\<lambda>(first, index, st). first \<noteq> dq_last d \<and> \<not> isl st) ?step ?s = Some ((?step ^^ ?n) ?s)"
  proof (rule while_option_rounds)
    show "\<not> (case (?step ^^ ?n) ?s of (first, index, st) \<Rightarrow> first \<noteq> dq_last d \<and> \<not> isl st)"
      using at [of ?n] by (auto simp: case_prod_beta)
    show "case (?step ^^ k) ?s of (first, index, st) \<Rightarrow> first \<noteq> dq_last d \<and> \<not> isl st" if "k < ?n" for k
      using at [of k] S [of k] that by auto
  qed
  then show ?thesis using S [of ?n] D(8) by (auto simp: visit_all_def)
qed

section \<open>Theorems\<close>

text \<open>
  C7: the deque refines a list. Every sequence of insertions and removals at both ends, updates by
  index and key enumerations, started from a new deque, has on the content exactly the effect of the
  corresponding list operations, removals return what the list has, and the ring stays well-formed.
\<close>

theorem deque_refines_list:
  assumes "DequeConstructor False = Inr d" "deque_trace d es d'"
  shows "wf_deque d' \<and> list_trace [] es (deque_list d')"
  using deque_trace_refines [OF assms(2)] wf_new_deque [OF assms(1)] by simp

theorem deque_refines_list_witness:
  "\<exists>d d'. DequeConstructor False = Inr d \<and> deque_trace d [EInsertFront (JSInt 2), EInsertEnd (JSInt 3), EPopLast (JSInt 3)] d' \<and>
     deque_list d' = [JSInt 2]"
proof -
  define d where "d = \<lparr>dq_elements = replicate 8 Hole, dq_first = 0, dq_last = 0\<rparr>"
  have new: "DequeConstructor False = Inr d"
    by (simp add: DequeConstructor_def d_def NewTaggedArray_def DEFAULT_CAPACITY_LENGTH_def)
  let ?d1 = "\<lparr>dq_elements = (replicate 8 Hole)[7 := JSInt 2], dq_first = 7, dq_last = 0\<rparr>"
  let ?d2 = "\<lparr>dq_elements = (replicate 8 Hole)[7 := JSInt 2, 0 := JSInt 3], dq_first = 7, dq_last = 1\<rparr>"
  let ?d3 = "\<lparr>dq_elements = (replicate 8 Hole)[7 := JSInt 2, 0 := JSInt 3, 0 := Hole], dq_first = 7, dq_last = 0\<rparr>"
  have "InsertFront d (JSInt 2) = Some ?d1" "InsertEnd ?d1 (JSInt 3) = Some ?d2" "PopLast ?d2 = (JSInt 3, ?d3)"
    by (simp_all add: d_def InsertFront_def InsertEnd_def PopLast_def IsEmpty_def cap_def Let_def)
  then have st: "deque_step d (EInsertFront (JSInt 2)) ?d1" "deque_step ?d1 (EInsertEnd (JSInt 3)) ?d2"
    "deque_step ?d2 (EPopLast (JSInt 3)) ?d3" by (simp_all only: deque_step.intros)
  have len: "length (dq_elements d) \<le> 2 ^ 30" "length (dq_elements ?d1) \<le> 2 ^ 30" "length (dq_elements ?d2) \<le> 2 ^ 30"
    by (simp_all add: d_def)
  have tr: "deque_trace d [EInsertFront (JSInt 2), EInsertEnd (JSInt 3), EPopLast (JSInt 3)] ?d3"
    by (rule deque_trace.cons [OF st(1) len(1)], rule deque_trace.cons [OF st(2) len(2)],
        rule deque_trace.cons [OF st(3) len(3)], rule deque_trace.nil)
  show ?thesis using new tr deque_refines_list [OF new tr] by fastforce
qed

text \<open>
  C21: insertion always succeeds: below \<open>2 ^ 30\<close> values \<open>InsertFront\<close> and \<open>InsertEnd\<close> return, whether or
  not the array has to grow, and put the value at the front or at the end.
\<close>

theorem deque_insert_returns:
  assumes "wf_deque d" "length (deque_list d) < deque_limit"
  shows "(\<exists>d'. InsertFront d v = Some d' \<and> wf_deque d' \<and> deque_list d' = v # deque_list d) \<and>
    (\<exists>d'. InsertEnd d v = Some d' \<and> wf_deque d' \<and> deque_list d' = deque_list d @ [v])"
  using InsertFront_correct [OF assms] InsertEnd_correct [OF assms] by blast

theorem deque_insert_returns_witness:
  "\<exists>d'. InsertEnd \<lparr>dq_elements = [JSInt 1, Hole], dq_first = 0, dq_last = 1\<rparr> Null = Some d' \<and> deque_list d' = [JSInt 1, Null]"
proof -
  let ?d = "\<lparr>dq_elements = [JSInt 1, Hole], dq_first = 0, dq_last = 1\<rparr>"
  have "wf_deque ?d" "deque_list ?d = [JSInt 1]"
    by (simp_all add: wf_deque_def pos_ok_def deque_list_def GetSize_def cap_def ring_def)
  then show ?thesis using deque_insert_returns [of ?d Null] by (auto simp: deque_limit_def)
qed

text \<open>
  C22: iteration is complete and ends: an iterator of an unchanged deque returns exactly its values in
  order, and \<open>forEach\<close> calls the callback once for each value, in order, with its index.
\<close>

theorem deque_iteration:
  assumes "wf_deque d"
  shows "fst (drain (Suc (length (deque_list d)) + k) (Next d) (GetIteratorObj d)) = deque_list d \<and>
    ContainersDeque_ForEach (ThisContainer d) (Some (\<lambda>v i (d, w). Inr (d, f v (unat i) w))) w =
      Some (Inr (d, visit_all f (deque_list d) w))"
proof
  show "fst (drain (Suc (length (deque_list d)) + k) (Next d) (GetIteratorObj d)) = deque_list d"
    using deque_drain_from [OF assms, of "dq_first d" 0 "length (deque_list d)"] wf_dequeD(1) [OF assms]
    by (simp add: GetIteratorObj_def del: drain.simps)
  show "ContainersDeque_ForEach (ThisContainer d) (Some (\<lambda>v i (d, w). Inr (d, f v (unat i) w))) w =
      Some (Inr (d, visit_all f (deque_list d) w))"
    using foreach_visits [OF assms, of "\<lambda>v i (d, w). Inr (d, f v (unat i) w)" f w]
    by (auto simp: ContainersDeque_ForEach_def)
qed

theorem deque_iteration_witness:
  "ContainersDeque_ForEach (ThisContainer \<lparr>dq_elements = [JSInt 7, Hole, JSInt 5], dq_first = 2, dq_last = 1\<rparr>)
     (Some (\<lambda>v i (d, w). Inr (d, w @ [(v, unat i)]))) [] =
   Some (Inr (\<lparr>dq_elements = [JSInt 7, Hole, JSInt 5], dq_first = 2, dq_last = 1\<rparr>, [(JSInt 5, 0), (JSInt 7, 1)]))"
proof -
  let ?d = "\<lparr>dq_elements = [JSInt 7, Hole, JSInt 5], dq_first = 2, dq_last = 1\<rparr>"
  have "wf_deque ?d" "deque_list ?d = [JSInt 5, JSInt 7]"
    by (simp_all add: wf_deque_def pos_ok_def deque_list_def GetSize_def cap_def ring_def upt_rec)
  then show ?thesis using deque_iteration [of ?d 0 "\<lambda>v i w. w @ [(v, i)]" "[]"] by (simp add: visit_all_def upt_rec)
qed

text \<open>
  C23: access by index. \<open>GetProperty\<close> returns the value at an index within the deque and throws the
  documented error otherwise, \<open>SetProperty\<close> updates exactly that value or refuses, and \<open>Has\<close> finds a
  value exactly when it is in the content.
\<close>

theorem deque_access_exact:
  assumes wf: "wf_deque d"
  shows "GetProperty d (KeyInt i) =
      (if deque_list d = [] then Inl (BusinessError RANGE_ERROR (Msg ''Container is empty''))
       else if 0 \<le> i \<and> i < int (length (deque_list d)) then Inr (deque_list d ! nat i)
       else Inl (BusinessError RANGE_ERROR (RangeMsg ''index'' (int (length (deque_list d)) - 1) i))) \<and>
    (case SetProperty d (KeyInt i) v of (r, d') \<Rightarrow>
       wf_deque d' \<and> r = (0 \<le> i \<and> i < int (length (deque_list d))) \<and>
       deque_list d' = (if r then (deque_list d)[nat i := v] else deque_list d)) \<and>
    Has same d v = Some (\<exists>x \<in> set (deque_list d). same x v)"
proof -
  note D = wf_dequeD [OF wf]
  have sz: "sint (GetSize d) = int (length (deque_list d))"
    using D(3,5,8) sint_nat_small [of "GetSize d"] by simp
  have idx: "unat (word_of_int i :: u32) = nat i" if "0 \<le> i" "i < int (length (deque_list d))"
  proof (rule unat_word_of_int_small [OF that(1)])
    have "length (deque_list d) < 2 ^ 32" using D(3,5,8) by simp
    then show "i < 2 ^ 32" using that(2) by simp
  qed
  have "GetProperty d (KeyInt i) =
      (if deque_list d = [] then Inl (BusinessError RANGE_ERROR (Msg ''Container is empty''))
       else if 0 \<le> i \<and> i < int (length (deque_list d)) then Inr (deque_list d ! nat i)
       else Inl (BusinessError RANGE_ERROR (RangeMsg ''index'' (int (length (deque_list d)) - 1) i)))"
    using Get_correct [OF wf, of "word_of_int i"] idx by (auto simp: GetProperty_def Let_def sz not_le)
  moreover have "case SetProperty d (KeyInt i) v of (r, d') \<Rightarrow>
       wf_deque d' \<and> r = (0 \<le> i \<and> i < int (length (deque_list d))) \<and>
       deque_list d' = (if r then (deque_list d)[nat i := v] else deque_list d)"
    using Set_correct [OF wf, of "word_of_int i" v] idx wf by (auto simp: SetProperty_def Let_def sz not_le)
  ultimately show ?thesis using Has_correct [OF wf] by simp
qed

theorem deque_access_exact_witness:
  "GetProperty \<lparr>dq_elements = [JSInt 7, Hole, JSInt 5], dq_first = 2, dq_last = 1\<rparr> (KeyInt 1) = Inr (JSInt 7)"
proof -
  let ?d = "\<lparr>dq_elements = [JSInt 7, Hole, JSInt 5], dq_first = 2, dq_last = 1\<rparr>"
  have "wf_deque ?d" "deque_list ?d = [JSInt 5, JSInt 7]"
    by (simp_all add: wf_deque_def pos_ok_def deque_list_def GetSize_def cap_def ring_def upt_rec)
  then show ?thesis using deque_access_exact [of ?d 1] by simp
qed

end
