(* ===== verification/JSAPI_Queue.thy ===== *)
theory JSAPI_Queue
  imports JSAPI_Deque
begin

text \<open>
  The queue of ecmascript/js_api/js_api_queue.cpp: a ring buffer with a length of its own that
  grows by half, its iterator (js_api_queue_iterator.cpp) and the built-ins of
  ecmascript/containers/containers_queue.cpp. The part of its state that it shares with the deque
  is related to the deque, whose lemmas carry the proofs.
\<close>

section \<open>Operations\<close>

record JSAPIQueue =
  q_elements :: tagged_array
  q_length :: u32
  q_front :: u32
  q_tail :: u32

definition DEFAULT_CAPACITY_LENGTH :: nat where "DEFAULT_CAPACITY_LENGTH = 8"

definition ComputeCapacity :: "u32 \<Rightarrow> u32" where
  "ComputeCapacity oldCapacity =
     (let newCapacity = oldCapacity + drop_bit 1 oldCapacity
      in if newCapacity > of_nat DEFAULT_CAPACITY_LENGTH then newCapacity else of_nat DEFAULT_CAPACITY_LENGTH)"

definition GrowCapacity :: "JSAPIQueue \<Rightarrow> u32 \<Rightarrow> JSAPIQueue option" where
  "GrowCapacity obj capacity =
     (let front = q_front obj;
          tail = q_tail obj;
          oldElements = q_elements obj;
          oldLength = cap oldElements;
          newCapacity = ComputeCapacity capacity
      in if oldLength = 0 then
           Some (obj\<lparr>q_elements := CopyArray oldElements (unat oldLength) (unat newCapacity),
                     q_front := front, q_tail := tail\<rparr>)
         else if (tail + 1) mod oldLength = front then
           map_option (\<lambda>newElements. obj\<lparr>q_elements := newElements, q_front := 0, q_tail := oldLength - 1\<rparr>)
             (CopyQueue oldElements (unat newCapacity) front tail)
         else Some obj)"

definition Add :: "JSAPIQueue \<Rightarrow> js_value \<Rightarrow> JSAPIQueue option" where
  "Add queue val =
     (let len = q_length queue
      in map_option (\<lambda>queue.
           let tail = q_tail queue;
               queue = queue\<lparr>q_elements := (q_elements queue)[unat tail := val], q_length := len + 1\<rparr>;
               elementsSize = cap (q_elements queue)
           in queue\<lparr>q_tail := (tail + 1) mod elementsSize\<rparr>)
         (GrowCapacity queue (len + 1)))"

definition GetFirst :: "JSAPIQueue \<Rightarrow> js_value" where
  "GetFirst queue = (if q_length queue < 1 then Undefined else q_elements queue ! unat (q_front queue))"

definition Pop :: "JSAPIQueue \<Rightarrow> js_value \<times> JSAPIQueue" where
  "Pop queue =
     (let len = q_length queue
      in if len < 1 then (Undefined, queue)
         else let front = q_front queue;
                  val = q_elements queue ! unat front;
                  queue = queue\<lparr>q_elements := (q_elements queue)[unat front := Hole], q_length := len - 1\<rparr>;
                  elementsSize = cap (q_elements queue)
              in (val, queue\<lparr>q_front := (front + 1) mod elementsSize\<rparr>))"

definition GetSize :: "JSAPIQueue \<Rightarrow> u32" where
  "GetSize queue = q_length queue"

definition Get :: "JSAPIQueue \<Rightarrow> u32 \<Rightarrow> js_value outcome" where
  "Get queue index =
     (let len = GetSize queue
      in if index \<ge> len
         then Inl (BusinessError RANGE_ERROR (RangeMsg ''Get property index'' (int (unat (len - 1))) (int (unat index))))
         else let capacity = cap (q_elements queue);
                  curIndex = (q_front queue + index) mod capacity
              in Inr (q_elements queue ! unat curIndex))"

definition Set :: "JSAPIQueue \<Rightarrow> u32 \<Rightarrow> js_value \<Rightarrow> JSAPIQueue outcome" where
  "Set queue index val =
     (if q_length queue = 0 then Inl (BusinessError RANGE_ERROR (Msg ''Container is empty''))
      else if index \<ge> q_length queue
      then Inl (BusinessError RANGE_ERROR (RangeMsg ''Set property index'' (int (unat (q_length queue - 1))) (int (unat index))))
      else Inr (queue\<lparr>q_elements := (q_elements queue)[unat index := val]\<rparr>))"

definition Has :: "(js_value \<Rightarrow> js_value \<Rightarrow> bool) \<Rightarrow> JSAPIQueue \<Rightarrow> js_value \<Rightarrow> bool option" where
  "Has SameValue queue val =
     map_option snd (while_option (\<lambda>(index, found). \<not> found \<and> index \<noteq> q_tail queue)
       (has_step SameValue (q_elements queue) val) (q_front queue, False))"

definition OwnKeys :: "(JSAPIQueue \<Rightarrow> 'k) \<Rightarrow> JSAPIQueue \<Rightarrow> ('k \<times> JSAPIQueue) option" where
  "OwnKeys keys obj =
     (let len = q_length obj;
          newCapacity = ComputeCapacity (cap (q_elements obj))
      in map_option (\<lambda>newElements.
           let obj = obj\<lparr>q_front := 0, q_tail := len, q_elements := newElements\<rparr> in (keys obj, obj))
         (CopyQueue (q_elements obj) (unat newCapacity) (q_front obj) (q_tail obj)))"

definition OwnEnumKeys :: "(JSAPIQueue \<Rightarrow> 'k) \<Rightarrow> JSAPIQueue \<Rightarrow> ('k \<times> JSAPIQueue) option" where
  "OwnEnumKeys keys obj =
     (let len = q_length obj;
          newCapacity = ComputeCapacity (cap (q_elements obj))
      in map_option (\<lambda>newElements.
           let obj = obj\<lparr>q_front := 0, q_tail := len, q_elements := newElements\<rparr> in (keys obj, obj))
         (CopyQueue (q_elements obj) (unat newCapacity) (q_front obj) (q_tail obj)))"

definition GetOwnProperty :: "JSAPIQueue \<Rightarrow> u32 option \<Rightarrow> bool outcome" where
  "GetOwnProperty obj index =
     (case index of
        None \<Rightarrow> Inl (BusinessError TYPE_ERROR (Msg ''The type of index can not obtain attributes of no-number type.''))
      | Some index \<Rightarrow>
          let len = q_length obj
          in if len = 0 then Inl (BusinessError RANGE_ERROR (Msg ''Container is empty''))
             else if index \<ge> len
             then Inl (BusinessError RANGE_ERROR (RangeMsg ''index'' (int (unat (len - 1))) (int (unat index))))
             else bindO (Get obj index) (\<lambda>v. Inr True))"

definition GetProperty :: "JSAPIQueue \<Rightarrow> index_key \<Rightarrow> js_value outcome" where
  "GetProperty obj key =
     (let len = sint (GetSize obj)
      in case TryCastDoubleToInt32 key of
           KeyInt index \<Rightarrow>
             if index < 0 \<or> index \<ge> len then Inl (BusinessError RANGE_ERROR (RangeMsg ''index'' (len - 1) index))
             else Get obj (word_of_int index)
         | _ \<Rightarrow> Inl (BusinessError TYPE_ERROR (Msg ''The type of index must be small integer.'')))"

text \<open>\<open>index\<close> is the truncated number of the key.\<close>

definition SetProperty :: "JSAPIQueue \<Rightarrow> int \<Rightarrow> js_value \<Rightarrow> (bool \<times> JSAPIQueue) outcome" where
  "SetProperty obj index val =
     (let len = GetSize obj
      in if index < 0 \<or> (word_of_int index :: u32) \<ge> len then Inr (False, obj)
         else bindO (Set obj (word_of_int index) val) (\<lambda>obj. Inr (True, obj)))"

definition GetArrayLength :: "JSAPIQueue \<Rightarrow> u32" where
  "GetArrayLength queue =
     (let elementsSize = cap (q_elements queue)
      in (q_tail queue - q_front queue + elementsSize) mod elementsSize)"

definition GetNextPosition :: "JSAPIQueue \<Rightarrow> u32 \<Rightarrow> u32" where
  "GetNextPosition queue current = (current + 1) mod cap (q_elements queue)"

section \<open>Iterator and built-ins\<close>

record JSAPIQueueIterator =
  qit_over :: bool
  qit_next :: u32

definition NewJSAPIQueueIterator :: "JSAPIQueue \<Rightarrow> JSAPIQueueIterator" where
  "NewJSAPIQueueIterator queue = \<lparr>qit_over = False, qit_next = 0\<rparr>"

definition Next :: "JSAPIQueue \<Rightarrow> JSAPIQueueIterator \<Rightarrow> js_value outcome option \<times> JSAPIQueueIterator" where
  "Next queue iter =
     (if qit_over iter then (None, iter)
      else let index = qit_next iter;
               len = GetArrayLength queue
           in if index \<ge> len then (None, iter\<lparr>qit_over := True\<rparr>)
              else (Some (Get queue index), iter\<lparr>qit_next := index + 1\<rparr>))"

definition QueueConstructor :: "bool \<Rightarrow> JSAPIQueue outcome" where
  "QueueConstructor newTargetUndefined =
     (if newTargetUndefined then Inl (constructor_error ''Queue'')
      else Inr \<lparr>q_elements = NewTaggedArray DEFAULT_CAPACITY_LENGTH, q_length = 0, q_front = 0, q_tail = 0\<rparr>)"

definition ContainersQueue_Add :: "JSAPIQueue this_arg \<Rightarrow> js_value \<Rightarrow> (js_value \<times> JSAPIQueue) outcome option" where
  "ContainersQueue_Add self val =
     (case resolve_this ''add'' self of
        Inl e \<Rightarrow> Some (Inl e)
      | Inr queue \<Rightarrow> map_option (\<lambda>queue. Inr (JSTrue, queue)) (Add queue val))"

definition ContainersQueue_GetFirst :: "JSAPIQueue this_arg \<Rightarrow> js_value outcome" where
  "ContainersQueue_GetFirst self = bindO (resolve_this ''getFirst'' self) (\<lambda>queue. Inr (GetFirst queue))"

definition ContainersQueue_Pop :: "JSAPIQueue this_arg \<Rightarrow> (js_value \<times> JSAPIQueue) outcome" where
  "ContainersQueue_Pop self = bindO (resolve_this ''pop'' self) (\<lambda>queue. Inr (Pop queue))"

definition queue_foreach_step ::
  "(JSAPIQueue, 'w) callback \<Rightarrow> nat \<Rightarrow> u32 \<times> (JSAPIQueue \<times> 'w) outcome \<Rightarrow> u32 \<times> (JSAPIQueue \<times> 'w) outcome" where
  "queue_foreach_step callbackFn k s =
     (case s of
        (index, Inl e) \<Rightarrow> (index, Inl e)
      | (index, Inr (queue, w)) \<Rightarrow>
          (GetNextPosition queue index,
           bindO (Get queue index) (\<lambda>kValue. callbackFn kValue (of_nat k) (queue, w))))"

definition ContainersQueue_ForEach ::
  "JSAPIQueue this_arg \<Rightarrow> (JSAPIQueue, 'w) callback option \<Rightarrow> 'w \<Rightarrow> (JSAPIQueue \<times> 'w) outcome" where
  "ContainersQueue_ForEach thisHandle callbackFn w =
     bindO (resolve_this ''forEach'' thisHandle) (\<lambda>queue.
       let len = GetArrayLength queue
       in case callbackFn of
            None \<Rightarrow> Inl callback_error
          | Some fn \<Rightarrow> snd (for_up 0 (unat len) (queue_foreach_step fn) (0, Inr (queue, w))))"

definition ContainersQueue_GetIteratorObj :: "JSAPIQueue this_arg \<Rightarrow> JSAPIQueueIterator outcome" where
  "ContainersQueue_GetIteratorObj self =
     bindO (resolve_this ''Symbol.iterator'' self) (\<lambda>queue. Inr (NewJSAPIQueueIterator queue))"

definition ContainersQueue_GetSize :: "JSAPIQueue this_arg \<Rightarrow> u32 outcome" where
  "ContainersQueue_GetSize self = bindO (resolve_this ''getLength'' self) (\<lambda>queue. Inr (GetSize queue))"

section \<open>Content and invariant\<close>

definition as_deque :: "JSAPIQueue \<Rightarrow> JSAPIDeque" where
  "as_deque q = \<lparr>dq_elements = q_elements q, dq_first = q_front q, dq_last = q_tail q\<rparr>"

definition wf_queue :: "JSAPIQueue \<Rightarrow> bool" where
  "wf_queue q \<longleftrightarrow> wf_deque (as_deque q) \<and> q_length q = JSAPI_Deque.GetSize (as_deque q)"

definition queue_list :: "JSAPIQueue \<Rightarrow> js_value list" where
  "queue_list q = deque_list (as_deque q)"

lemma as_deque_simps [simp]:
  "dq_elements (as_deque q) = q_elements q" "dq_first (as_deque q) = q_front q" "dq_last (as_deque q) = q_tail q"
  by (simp_all add: as_deque_def)

lemma wf_queueD:
  assumes "wf_queue q"
  shows "wf_deque (as_deque q)" "unat (q_length q) = length (queue_list q)"
    "unat (q_length q) < length (q_elements q)" "length (q_elements q) \<le> 2 ^ 31" "q_elements q \<noteq> []"
    "q_length q = JSAPI_Deque.GetSize (as_deque q)" "cap (q_elements q) \<noteq> 0"
proof -
  show wf: "wf_deque (as_deque q)" and len: "q_length q = JSAPI_Deque.GetSize (as_deque q)"
    using assms by (simp_all add: wf_queue_def)
  show "unat (q_length q) = length (queue_list q)" "unat (q_length q) < length (q_elements q)"
    "length (q_elements q) \<le> 2 ^ 31" "q_elements q \<noteq> []"
    using wf_dequeD(3,4,5,8) [OF wf] len by (simp_all add: queue_list_def)
  then show "cap (q_elements q) \<noteq> 0" using unat_cap [of "q_elements q"] by auto
qed

text \<open>The stored length follows from the content.\<close>

lemma wf_queueI:
  assumes "wf_deque (as_deque q)" "unat (q_length q) = length (queue_list q)"
  shows "wf_queue q"
  using assms wf_dequeD(8) [OF assms(1)] by (simp add: wf_queue_def queue_list_def word_unat_eq_iff)

definition queue_limit :: nat where
  "queue_limit = 2 ^ 30"

lemma queue_capacity_bounds:
  assumes "unat c \<le> 2 ^ 30"
  shows "unat c < unat (ComputeCapacity c)" "unat (ComputeCapacity c) \<le> 2 ^ 31"
proof -
  have "unat (drop_bit 1 c) = unat c div 2" by (simp add: unat_u32_drop_bit)
  then have "unat (c + drop_bit 1 c) = unat c + unat c div 2" using assms by (simp add: unat_word_ariths)
  then show "unat c < unat (ComputeCapacity c)" "unat (ComputeCapacity c) \<le> 2 ^ 31"
    using assms by (auto simp: ComputeCapacity_def DEFAULT_CAPACITY_LENGTH_def Let_def word_less_nat_alt)
qed

lemma queue_copy:
  assumes wf: "wf_queue q" and m: "unat (q_length q) \<le> m"
  shows "CopyQueue (q_elements q) m (q_front q) (q_tail q) = Some (queue_list q @ replicate (m - unat (q_length q)) Hole)"
  using CopyDeque_correct [of "q_elements q" "q_front q" "q_tail q" "unat (q_length q)" m] wf_queueD(1,6) [OF wf] m
  by (simp add: CopyQueue_eq wf_deque_def queue_list_def deque_list_def JSAPI_Deque.GetSize_def Let_def)

section \<open>Correctness of the operations\<close>

lemma queue_add:
  assumes wf: "wf_queue q" and lim: "length (queue_list q) < queue_limit"
  shows "\<exists>q'. Add q v = Some q' \<and> wf_queue q' \<and> queue_list q' = queue_list q @ [v]"
proof -
  let ?els = "q_elements q" and ?n = "unat (q_length q)"
  note Q = wf_queueD [OF wf]
  have n1: "unat (q_length q + 1) = Suc ?n" using Q(3,4) by (simp add: unat_word_ariths)
  have full: "(q_tail q + 1) mod cap ?els = q_front q \<longleftrightarrow> Suc ?n = length ?els"
    using deque_full [OF Q(1)] Q(6) by auto
  show ?thesis
  proof (cases "Suc ?n = length ?els")
    case False
    let ?q = "q\<lparr>q_elements := ?els[unat (q_tail q) := v], q_length := q_length q + 1, q_tail := (q_tail q + 1) mod cap ?els\<rparr>"
    have add: "Add q v = Some ?q" using full False Q(7) by (simp add: Add_def GrowCapacity_def Let_def cap_def)
    have "InsertEnd (as_deque q) v = Some (as_deque ?q)"
      using full False by (simp add: InsertEnd_def Let_def cap_def as_deque_def)
    then have "wf_deque (as_deque ?q)" "queue_list ?q = queue_list q @ [v]"
      using InsertEnd_correct [OF Q(1), of v] lim by (auto simp: queue_list_def queue_limit_def deque_limit_def)
    then show ?thesis using add n1 Q(2) wf_queueI [of ?q] by simp
  next
    case True
    let ?m = "unat (ComputeCapacity (q_length q + 1))"
    have m: "length ?els < ?m" "?m \<le> 2 ^ 31"
      using queue_capacity_bounds [of "q_length q + 1"] True lim Q(2) unfolding n1 by (auto simp: queue_limit_def)
    let ?new = "queue_list q @ replicate (?m - ?n) Hole"
    have c: "CopyQueue ?els ?m (q_front q) (q_tail q) = Some ?new" using queue_copy [OF wf, of ?m] m True by simp
    have l: "unat (cap ?els - 1) = ?n" using True Q(4) unat_cap [of ?els] by (subst unat_sub) (auto simp: word_le_nat_alt)
    let ?q = "q\<lparr>q_elements := ?new[?n := v], q_length := q_length q + 1, q_front := 0, q_tail := (cap ?els - 1 + 1) mod cap ?new\<rparr>"
    have len: "length ?new = ?m" using m True Q(2) by simp
    have add: "Add q v = Some ?q"
      using full True c l Q(7) by (simp add: Add_def GrowCapacity_def Let_def cap_def len)
    have eq: "as_deque ?q = (as_deque q)\<lparr>dq_elements := ?new[?n := v], dq_first := 0,
        dq_last := (cap (dq_elements (as_deque q)) - 1 + 1) mod cap ?new\<rparr>" by (simp add: as_deque_def)
    have "wf_deque (as_deque ?q) \<and> deque_list (as_deque ?q) = deque_list (as_deque q) @ [v]"
      unfolding eq
      by (rule append_after_growth [OF Q(1), folded Q(6)]) (use True m len Q(2) in \<open>simp_all add: queue_list_def\<close>)
    then show ?thesis using add n1 Q(2) wf_queueI [of ?q] by (simp add: queue_list_def)
  qed
qed

lemma queue_pop:
  assumes wf: "wf_queue q"
  shows "wf_queue (snd (Pop q)) \<and> fst (Pop q) = fst (list_remove Undefined (queue_list q)) \<and>
    queue_list (snd (Pop q)) = snd (list_remove Undefined (queue_list q))"
proof (cases "q_length q = 0")
  case True
  then show ?thesis using wf wf_queueD(2) [OF wf] by (simp add: Pop_def list_remove_def word_less_nat_alt)
next
  case False
  note Q = wf_queueD [OF wf]
  have nz: "0 < unat (q_length q)" using False by (metis gr0I unat_eq_0)
  have p: "as_deque (snd (Pop q)) = snd (PopFirst (as_deque q))" "fst (Pop q) = fst (PopFirst (as_deque q))"
    "q_length (snd (Pop q)) = q_length q - 1"
    using nz wf_dequeD(7) [OF Q(1)] Q(6)
    by (simp_all add: Pop_def PopFirst_def Let_def word_less_nat_alt cap_def as_deque_def)
  note P = PopFirst_correct [OF Q(1)]
  have l: "queue_list (snd (Pop q)) = snd (list_remove Undefined (queue_list q))" using P by (simp add: queue_list_def p)
  obtain x xs where xs: "queue_list q = x # xs" using nz Q(2) by (cases "queue_list q") auto
  have "unat (q_length q - 1) = length xs" using nz Q(2) xs by (subst unat_sub) (auto simp: word_le_nat_alt)
  then have "wf_queue (snd (Pop q))" using P p l xs by (intro wf_queueI) (simp_all add: list_remove_def)
  then show ?thesis using l P p by (simp add: queue_list_def)
qed

lemma queue_get:
  assumes wf: "wf_queue q"
  shows "Get q i = (if unat i < length (queue_list q) then Inr (queue_list q ! unat i)
    else Inl (BusinessError RANGE_ERROR (RangeMsg ''Get property index'' (int (unat (q_length q - 1))) (int (unat i)))))"
  using JSAPI_Deque.Get_correct [of "as_deque q" i] wf_queueD(1,2) [OF wf]
  by (auto simp: Get_def GetSize_def word_le_nat_alt Let_def JSAPI_Deque.Get_def queue_list_def)

lemma queue_has:
  assumes wf: "wf_queue q"
  shows "Has same q v = Some (\<exists>x \<in> set (queue_list q). same x v)"
  using JSAPI_Deque.Has_correct [OF wf_queueD(1) [OF wf], of same v]
  by (simp add: Has_def JSAPI_Deque.Has_def queue_list_def)

lemma queue_own_keys:
  assumes wf: "wf_queue q" and small: "length (q_elements q) \<le> 2 ^ 30"
  obtains q' where "OwnKeys keys q = Some (keys q', q')" "wf_queue q'" "queue_list q' = queue_list q"
proof -
  let ?n = "unat (q_length q)" and ?m = "unat (ComputeCapacity (cap (q_elements q)))"
  note Q = wf_queueD [OF wf]
  have m: "length (q_elements q) < ?m" "?m \<le> 2 ^ 31"
    using queue_capacity_bounds [of "cap (q_elements q)"] small unat_cap [OF Q(4)] by simp_all
  let ?new = "queue_list q @ replicate (?m - ?n) Hole"
  let ?q = "q\<lparr>q_front := 0, q_tail := q_length q, q_elements := ?new\<rparr>"
  have c: "CopyQueue (q_elements q) ?m (q_front q) (q_tail q) = Some ?new" using queue_copy [OF wf, of ?m] m Q(3) by simp
  have len: "length ?new = ?m" "?n < ?m" using m Q(2,3) by simp_all
  have "wf_deque (as_deque ?q)" "deque_list (as_deque ?q) = ring ?new 0 ?n"
    using dequeI [of "as_deque ?q" ?n] len m by (simp_all add: pos_ok_def)
  moreover have "ring ?new 0 ?n = queue_list q" using len Q(2) by (simp add: ring_from_0)
  ultimately have "wf_queue ?q" "queue_list ?q = queue_list q"
    using Q(2) wf_queueI [of ?q] by (simp_all add: queue_list_def)
  moreover have "OwnKeys keys q = Some (keys ?q, ?q)" using c by (simp add: OwnKeys_def Let_def)
  ultimately show thesis using that [of ?q] by simp
qed

lemma wf_new_queue: "QueueConstructor False = Inr q \<Longrightarrow> wf_queue q \<and> queue_list q = []"
  by (auto simp: QueueConstructor_def wf_queue_def wf_deque_def pos_ok_def queue_list_def deque_list_def
      JSAPI_Deque.GetSize_def NewTaggedArray_def DEFAULT_CAPACITY_LENGTH_def cap_def as_deque_def)

interpretation queue_fifo: fifo_container wf_queue queue_list Add Pop Undefined queue_limit
  by unfold_locales (simp_all add: queue_pop container_spec_lengths, simp_all add: fifo_insert_def queue_add)

text \<open>\<open>Set\<close> writes the array slot \<open>index\<close>, whatever the front is.\<close>

lemma queue_set_slot:
  assumes wf: "wf_queue q" and i: "unat i < length (queue_list q)"
  defines "k \<equiv> (unat i + length (q_elements q) - unat (q_front q)) mod length (q_elements q)"
  obtains q' where "Set q i v = Inr q'" "wf_queue q'" "q_front q' = q_front q" "queue_list q' = (queue_list q)[k := v]"
proof -
  let ?c = "length (q_elements q)" and ?f = "unat (q_front q)" and ?n = "unat (q_length q)"
  note Q = wf_queueD [OF wf] and D = wf_dequeD [OF wf_queueD(1) [OF wf]]
  let ?q = "q\<lparr>q_elements := (q_elements q)[unat i := v]\<rparr>"
  have set: "Set q i v = Inr ?q" using i Q(2) by (auto simp: Set_def word_le_nat_alt)
  have lt: "?f < ?c" "k < ?c" using D(1) Q(5) by (simp_all add: k_def)
  have "(?f + k) mod ?c = (?f + (unat i + ?c - ?f)) mod ?c" unfolding k_def by (rule mod_add_right_eq)
  then have slot: "unat i = (?f + k) mod ?c" using lt(1) i Q(2,3) by simp
  have wfd: "wf_deque (as_deque ?q)" "deque_list (as_deque ?q) = ring ((q_elements q)[unat i := v]) ?f ?n"
    using dequeI [of "as_deque ?q" ?n] D(1,2,3,6) Q(3,6) by (simp_all add: pos_ok_def)
  have "ring ((q_elements q)[unat i := v]) ?f ?n = (queue_list q)[k := v]"
  proof (cases "k < ?n")
    case True
    then show ?thesis using ring_update [of k ?n "q_elements q" ?f v] Q(3,6) slot
      by (simp add: queue_list_def deque_list_def)
  next
    case False
    then show ?thesis using ring_update_outside [of ?n k "q_elements q" ?f v] lt slot Q(2,6)
      by (simp add: queue_list_def deque_list_def list_update_beyond)
  qed
  then have "queue_list ?q = (queue_list q)[k := v]" using wfd(2) by (simp add: queue_list_def)
  then show thesis using that [of ?q] set wfd(1) wf_queueI [of ?q] Q(2) by simp
qed

section \<open>Iteration\<close>

lemma queue_next_at:
  assumes wf: "wf_queue q"
  shows "Next q \<lparr>qit_over = False, qit_next = i\<rparr> =
    (if unat i < length (queue_list q) then (Some (Inr (queue_list q ! unat i)), \<lparr>qit_over = False, qit_next = i + 1\<rparr>)
     else (None, \<lparr>qit_over = True, qit_next = i\<rparr>))"
proof -
  have "GetArrayLength q = q_length q"
    using wf_queueD(6) [OF wf] by (simp add: GetArrayLength_def JSAPI_Deque.GetSize_def Let_def)
  then show ?thesis using queue_get [OF wf, of i] wf_queueD(2) [OF wf] by (simp add: Next_def Let_def word_le_nat_alt)
qed

interpretation queue_iterator:
  index_iterator wf_queue "\<lambda>q. map Inr (queue_list q)" Next "\<lambda>i. \<lparr>qit_over = False, qit_next = i\<rparr>"
proof unfold_locales
  fix q assume "wf_queue q"
  then show "length (map Inr (queue_list q)) < 2 ^ 32" using wf_queueD(2,3,4) [of q] by simp
qed (simp_all add: queue_next_at)

lemma queue_foreach_visits:
  assumes wf: "wf_queue q" and fn: "\<And>v i w. fn v i (q, w) = Inr (q, f v (unat i) w)"
  shows "ContainersQueue_ForEach (ThisContainer q) (Some fn) w = Inr (q, visit_all f (queue_list q) w)"
proof -
  note Q = wf_queueD [OF wf]
  let ?n = "length (queue_list q)"
  have len: "GetArrayLength q = q_length q"
    using Q(6) by (simp add: GetArrayLength_def JSAPI_Deque.GetSize_def Let_def)
  have "for_up 0 k (queue_foreach_step fn) (0, Inr (q, w)) =
      (of_nat k, Inr (q, fold (\<lambda>i. f (queue_list q ! i) i) [0..<k] w))" if "k \<le> ?n" for k
    using that
  proof (induction k)
    case (Suc k)
    then have u: "unat (of_nat k :: u32) = k" using Q(2,3,4) by (simp add: unat_of_nat)
    have "pos_ok (q_elements q) (of_nat k)" using u Suc.prems Q(2,3,4) by (simp add: pos_ok_def)
    then have "unat ((of_nat k + 1) mod cap (q_elements q)) = Suc k"
      using pos_next [of "q_elements q" "of_nat k"] u Suc.prems Q(2,3) by simp
    moreover have "unat (of_nat k + 1 :: u32) = Suc k" using u Suc.prems Q(2,3,4) by (simp add: unat_word_ariths)
    ultimately have "GetNextPosition q (of_nat k) = of_nat k + 1" by (simp add: GetNextPosition_def word_unat_eq_iff)
    then show ?case
      using Suc queue_get [OF wf, of "of_nat k"] u by (simp add: for_up_Suc queue_foreach_step_def fn)
  qed simp
  then show ?thesis using Q(2) by (simp add: ContainersQueue_ForEach_def len visit_all_def)
qed

section \<open>Theorems\<close>

text \<open>
  C24: the queue refines a list with first-in first-out access. Any sequence of additions and removals on
  a new queue returns what the list returns and leaves its content, through every growth of the ring.
\<close>

theorem queue_refines_list:
  assumes "QueueConstructor False = Inr q" "inserts ops \<le> queue_limit"
  shows "\<exists>outs q'. run Add Pop ops q = Some (outs, q') \<and> wf_queue q' \<and>
    run (\<lambda>xs v. Some (xs @ [v])) (list_remove Undefined) ops [] = Some (outs, queue_list q')"
  using queue_fifo.run_refines [of q ops] wf_new_queue [OF assms(1)] assms(2) by (simp add: fifo_insert_def)

theorem queue_refines_list_witness:
  "\<exists>q q'. QueueConstructor False = Inr q \<and>
     run Add Pop [InsertOp (JSInt 1), InsertOp (JSInt 2), RemoveOp] q = Some ([JSInt 1], q') \<and> queue_list q' = [JSInt 2]"
proof -
  obtain q where q: "QueueConstructor False = Inr q" by (simp add: QueueConstructor_def)
  show ?thesis
    using queue_refines_list [OF q, of "[InsertOp (JSInt 1), InsertOp (JSInt 2), RemoveOp]"] q
    by (auto simp: list_remove_def queue_limit_def)
qed

text \<open>
  order is preserved: values added to an empty queue are popped in the order of their addition, none
  lost and none duplicated.
\<close>

theorem queue_order:
  assumes "wf_queue q" "queue_list q = []" "length vs \<le> queue_limit"
  shows "\<exists>q'. run Add Pop (map InsertOp vs @ replicate (length vs) RemoveOp) q = Some (vs, q') \<and> wf_queue q' \<and> queue_list q' = []"
  using assms by (rule queue_fifo.fifo_order)

theorem queue_order_witness:
  "\<exists>q q'. run Add Pop [InsertOp Null, InsertOp (JSInt 2), RemoveOp, RemoveOp] q = Some ([Null, JSInt 2], q')"
proof -
  obtain q where "QueueConstructor False = Inr q" by (simp add: QueueConstructor_def)
  then have "wf_queue q" "queue_list q = []" using wf_new_queue by auto
  then show ?thesis using queue_order [of q "[Null, JSInt 2]"] by (auto simp: queue_limit_def)
qed

text \<open>
  C25: access by index. \<open>Get\<close> returns the value at an index or the documented error; \<open>Set\<close> writes the array
  slot of that number, which holds the value at the index only while the front is at slot 0: it changes
  the value at \<open>(i - front) mod capacity\<close>, if there is one.
\<close>

theorem queue_access_exact:
  assumes wf: "wf_queue q" and i: "unat i < length (queue_list q)"
  shows "Get q i = Inr (queue_list q ! unat i) \<and>
    (\<exists>q'. Set q i v = Inr q' \<and> wf_queue q' \<and> queue_list q' =
      (queue_list q)[(unat i + length (q_elements q) - unat (q_front q)) mod length (q_elements q) := v])"
  using queue_get [OF wf, of i] i queue_set_slot [OF wf i, of v] by metis

theorem queue_access_exact_witness:
  "let q = \<lparr>q_elements = [Hole, JSInt 1, JSInt 2, Hole], q_length = 2, q_front = 1, q_tail = 3\<rparr> in
   \<exists>q'. Set q 1 Null = Inr q' \<and> queue_list q = [JSInt 1, JSInt 2] \<and> queue_list q' = [Null, JSInt 2]"
proof -
  let ?q = "\<lparr>q_elements = [Hole, JSInt 1, JSInt 2, Hole], q_length = 2, q_front = 1, q_tail = 3\<rparr>"
  have "wf_queue ?q" and l: "queue_list ?q = [JSInt 1, JSInt 2]"
    by (simp_all add: wf_queue_def wf_deque_def pos_ok_def queue_list_def deque_list_def JSAPI_Deque.GetSize_def
        cap_def as_deque_def ring_def upt_rec)
  then show ?thesis using queue_access_exact [of ?q 1 Null] by auto
qed

text \<open>
  iteration is complete and ends: an iterator of an unchanged queue returns exactly its values in
  order, without error, and \<open>forEach\<close> calls the callback once for each value in order.
\<close>

theorem queue_iteration:
  assumes "wf_queue q"
  shows "fst (drain (Suc (length (queue_list q)) + k) (Next q) (NewJSAPIQueueIterator q)) = map Inr (queue_list q) \<and>
    ContainersQueue_ForEach (ThisContainer q) (Some (\<lambda>v i (q, w). Inr (q, f v (unat i) w))) w =
      Inr (q, visit_all f (queue_list q) w)"
  using queue_iterator.drain_all [OF assms]
    queue_foreach_visits [OF assms, of "\<lambda>v i (q, w). Inr (q, f v (unat i) w)" f w]
  by (simp add: NewJSAPIQueueIterator_def del: drain.simps)

theorem queue_iteration_witness:
  "let q = \<lparr>q_elements = [JSInt 2, Hole, JSInt 1], q_length = 2, q_front = 2, q_tail = 1\<rparr> in
   fst (drain 3 (Next q) (NewJSAPIQueueIterator q)) = [Inr (JSInt 1), Inr (JSInt 2)]"
proof -
  let ?q = "\<lparr>q_elements = [JSInt 2, Hole, JSInt 1], q_length = 2, q_front = 2, q_tail = 1\<rparr>"
  have wf: "wf_queue ?q" and l: "queue_list ?q = [JSInt 1, JSInt 2]"
    by (simp_all add: wf_queue_def wf_deque_def pos_ok_def queue_list_def deque_list_def JSAPI_Deque.GetSize_def
        cap_def as_deque_def ring_def upt_rec)
  have n: "Suc (length (queue_list ?q)) + 0 = 3" by (simp add: l)
  show ?thesis
    using conjunct1 [OF queue_iteration [OF wf, of 0]] unfolding n Let_def by (simp only: l list.map)
qed

end
