(* ===== verification/JSAPI_Stack.thy ===== *)
theory JSAPI_Stack
  imports Container_Base
begin

text \<open>
  The stack of ecmascript/js_api/js_api_stack.cpp: an array with the index of its top, its
  iterator (js_api_stack_iterator.cpp) and the built-ins of
  ecmascript/containers/containers_stack.cpp.
\<close>

section \<open>Operations\<close>

text \<open>\<open>st_top\<close> is the \<open>int\<close> field \<open>Top\<close>, -1 for the empty stack.\<close>

record JSAPIStack =
  st_elements :: tagged_array
  st_top :: int

definition DEFAULT_CAPACITY_LENGTH :: nat where "DEFAULT_CAPACITY_LENGTH = 10"

definition ComputeCapacity :: "u32 \<Rightarrow> u32" where
  "ComputeCapacity oldCapacity =
     (let newCapacity = oldCapacity + drop_bit 1 oldCapacity
      in if newCapacity > of_nat DEFAULT_CAPACITY_LENGTH then newCapacity else of_nat DEFAULT_CAPACITY_LENGTH)"

definition GrowCapacity :: "JSAPIStack \<Rightarrow> u32 \<Rightarrow> JSAPIStack" where
  "GrowCapacity obj capacity =
     (let oldElements = st_elements obj;
          oldLength = cap oldElements
      in if capacity < oldLength then obj
         else let newCapacity = ComputeCapacity capacity
              in obj\<lparr>st_elements := CopyArray oldElements (unat oldLength) (unat newCapacity)\<rparr>)"

definition Empty :: "JSAPIStack \<Rightarrow> bool" where
  "Empty stack \<longleftrightarrow> st_top stack = - 1"

definition Push :: "JSAPIStack \<Rightarrow> js_value \<Rightarrow> js_value \<times> JSAPIStack" where
  "Push stack val =
     (let top = st_top stack;
          stack = GrowCapacity stack (word_of_int (top + 1))
      in (val, stack\<lparr>st_elements := (st_elements stack)[nat (top + 1) := val], st_top := top + 1\<rparr>))"

definition Peek :: "JSAPIStack \<Rightarrow> js_value" where
  "Peek stack = (let top = st_top stack in if top = - 1 then Undefined else st_elements stack ! nat top)"

definition Pop :: "JSAPIStack \<Rightarrow> js_value \<times> JSAPIStack" where
  "Pop stack =
     (let top = st_top stack
      in if top = - 1 then (Undefined, stack)
         else let val = st_elements stack ! nat top
              in (val, stack\<lparr>st_elements := (st_elements stack)[nat top := Hole], st_top := top - 1\<rparr>))"

definition Search :: "JSAPIStack \<Rightarrow> js_value \<Rightarrow> int" where
  "Search stack val =
     (case find (\<lambda>i. val = st_elements stack ! i) [0..<nat (st_top stack + 1)] of
        Some i \<Rightarrow> int i
      | None \<Rightarrow> - 1)"

definition GetSize :: "JSAPIStack \<Rightarrow> int" where
  "GetSize stack = st_top stack"

definition Get :: "JSAPIStack \<Rightarrow> u32 \<Rightarrow> js_value" where
  "Get stack index = st_elements stack ! unat index"

definition Set :: "JSAPIStack \<Rightarrow> u32 \<Rightarrow> js_value \<Rightarrow> js_value \<times> JSAPIStack" where
  "Set stack index val =
     (let len = GetSize stack + 1
      in if index \<ge> word_of_int len then (Undefined, stack)
         else (Undefined, stack\<lparr>st_elements := (st_elements stack)[unat index := val]\<rparr>))"

definition Has :: "(js_value \<Rightarrow> js_value \<Rightarrow> bool) \<Rightarrow> JSAPIStack \<Rightarrow> js_value \<Rightarrow> bool" where
  "Has SameValue stack val =
     (let top = st_top stack
      in if top = - 1 then False
         else find (\<lambda>i. SameValue (st_elements stack ! i) val) [0..<nat (top + 1)] \<noteq> None)"

definition GetOwnProperty :: "JSAPIStack \<Rightarrow> u32 option \<Rightarrow> bool outcome" where
  "GetOwnProperty obj index =
     (case index of
        None \<Rightarrow> Inl (BusinessError TYPE_ERROR (Msg ''The type of index can not obtain attributes of no-number type.''))
      | Some index \<Rightarrow>
          let len = word_of_int (st_top obj + 1) :: u32
          in if len = 0 then Inl (BusinessError RANGE_ERROR (Msg ''Container is empty''))
             else if index \<ge> len
             then Inl (BusinessError RANGE_ERROR (RangeMsg ''index'' (int (unat (len - 1))) (int (unat index))))
             else Inr True)"

definition GetProperty :: "JSAPIStack \<Rightarrow> index_key \<Rightarrow> js_value outcome" where
  "GetProperty obj key =
     (let len = st_top obj + 1
      in if len = 0 then Inl (BusinessError RANGE_ERROR (Msg ''Container is empty''))
         else case TryCastDoubleToInt32 key of
           KeyInt index \<Rightarrow>
             if index < 0 \<or> index \<ge> len then Inl (BusinessError RANGE_ERROR (RangeMsg ''index'' (len - 1) index))
             else Inr (Get obj (word_of_int index))
         | _ \<Rightarrow> Inl (BusinessError TYPE_ERROR (Msg ''The type of index must be small integer.'')))"

definition SetProperty :: "JSAPIStack \<Rightarrow> index_key \<Rightarrow> js_value \<Rightarrow> bool \<times> JSAPIStack" where
  "SetProperty obj key val =
     (let len = st_top obj + 1
      in case TryCastDoubleToInt32 key of
           KeyInt index \<Rightarrow>
             if index < 0 \<or> index \<ge> len then (False, obj)
             else (True, snd (Set obj (word_of_int index) val))
         | _ \<Rightarrow> (False, obj))"

section \<open>Iterator and built-ins\<close>

record JSAPIStackIterator =
  sit_over :: bool
  sit_next :: u32

definition NewJSAPIStackIterator :: "JSAPIStack \<Rightarrow> JSAPIStackIterator" where
  "NewJSAPIStackIterator stack = \<lparr>sit_over = False, sit_next = 0\<rparr>"

definition Next :: "JSAPIStack \<Rightarrow> JSAPIStackIterator \<Rightarrow> js_value option \<times> JSAPIStackIterator" where
  "Next stack iter =
     (if sit_over iter then (None, iter)
      else let index = sit_next iter;
               len = word_of_int (GetSize stack + 1)
           in if index + 1 > len then (None, iter\<lparr>sit_over := True\<rparr>)
              else (Some (Get stack index), iter\<lparr>sit_next := index + 1\<rparr>))"

definition StackConstructor :: "bool \<Rightarrow> JSAPIStack outcome" where
  "StackConstructor newTargetUndefined =
     (if newTargetUndefined then Inl (constructor_error ''List'') else Inr \<lparr>st_elements = [], st_top = - 1\<rparr>)"

definition ContainersStack_IsEmpty :: "JSAPIStack this_arg \<Rightarrow> js_value outcome" where
  "ContainersStack_IsEmpty self = bindO (resolve_this ''isEmpty'' self) (\<lambda>stack. Inr (tagged_bool (Empty stack)))"

definition ContainersStack_Push :: "JSAPIStack this_arg \<Rightarrow> js_value \<Rightarrow> (js_value \<times> JSAPIStack) outcome" where
  "ContainersStack_Push self val = bindO (resolve_this ''push'' self) (\<lambda>stack. Inr (Push stack val))"

definition ContainersStack_Peek :: "JSAPIStack this_arg \<Rightarrow> js_value outcome" where
  "ContainersStack_Peek self = bindO (resolve_this ''peek'' self) (\<lambda>stack. Inr (Peek stack))"

definition ContainersStack_Locate :: "JSAPIStack this_arg \<Rightarrow> js_value \<Rightarrow> js_value outcome" where
  "ContainersStack_Locate self val = bindO (resolve_this ''locate'' self) (\<lambda>stack. Inr (JSInt (Search stack val)))"

definition ContainersStack_Pop :: "JSAPIStack this_arg \<Rightarrow> (js_value \<times> JSAPIStack) outcome" where
  "ContainersStack_Pop self = bindO (resolve_this ''pop'' self) (\<lambda>stack. Inr (Pop stack))"

definition stack_foreach_step ::
  "(JSAPIStack, 'w) callback \<Rightarrow> nat \<Rightarrow> (JSAPIStack \<times> 'w) outcome \<Rightarrow> (JSAPIStack \<times> 'w) outcome" where
  "stack_foreach_step callbackFn k st =
     bindO st (\<lambda>(stack, w). callbackFn (Get stack (of_nat k)) (of_nat k) (stack, w))"

definition ContainersStack_ForEach ::
  "JSAPIStack this_arg \<Rightarrow> (JSAPIStack, 'w) callback option \<Rightarrow> 'w \<Rightarrow> (JSAPIStack \<times> 'w) outcome" where
  "ContainersStack_ForEach thisHandle callbackFn w =
     bindO (resolve_this ''forEach'' thisHandle) (\<lambda>stack.
       let len = GetSize stack
       in case callbackFn of
            None \<Rightarrow> Inl callback_error
          | Some fn \<Rightarrow> for_up 0 (unat (word_of_int (len + 1) :: u32)) (stack_foreach_step fn) (Inr (stack, w)))"

definition ContainersStack_Iterator :: "JSAPIStack this_arg \<Rightarrow> JSAPIStackIterator outcome" where
  "ContainersStack_Iterator self =
     bindO (resolve_this ''Symbol.iterator'' self) (\<lambda>stack. Inr (NewJSAPIStackIterator stack))"

definition ContainersStack_GetLength :: "JSAPIStack this_arg \<Rightarrow> js_value outcome" where
  "ContainersStack_GetLength self = bindO (resolve_this ''getLength'' self) (\<lambda>stack. Inr (JSInt (GetSize stack + 1)))"

section \<open>Content and invariant\<close>

definition wf_stack :: "JSAPIStack \<Rightarrow> bool" where
  "wf_stack s \<longleftrightarrow> - 1 \<le> st_top s \<and> st_top s < int (length (st_elements s)) \<and> length (st_elements s) \<le> 2 ^ 31"

definition stack_list :: "JSAPIStack \<Rightarrow> js_value list" where
  "stack_list s = take (nat (st_top s + 1)) (st_elements s)"

definition stack_limit :: nat where
  "stack_limit = 2 ^ 30"

lemma wf_stackD:
  assumes "wf_stack s"
  shows "st_top s + 1 = int (length (stack_list s))" "nat (st_top s + 1) = length (stack_list s)"
    "length (stack_list s) \<le> length (st_elements s)" "length (st_elements s) \<le> 2 ^ 31"
    "st_top s = - 1 \<longleftrightarrow> stack_list s = []"
    "unat (word_of_int (st_top s + 1) :: u32) = length (stack_list s)"
proof -
  have b: "- 1 \<le> st_top s" "st_top s < int (length (st_elements s))" "length (st_elements s) \<le> 2 ^ 31"
    using assms by (simp_all add: wf_stack_def)
  show l: "st_top s + 1 = int (length (stack_list s))" using b by (simp add: stack_list_def)
  show "nat (st_top s + 1) = length (stack_list s)" using l by simp
  show "length (stack_list s) \<le> length (st_elements s)" by (simp add: stack_list_def)
  show "length (st_elements s) \<le> 2 ^ 31" by (rule b(3))
  show "st_top s = - 1 \<longleftrightarrow> stack_list s = []" using l by (cases "stack_list s") auto
  have "st_top s + 1 < 2 ^ 32" using b by simp
  then show "unat (word_of_int (st_top s + 1) :: u32) = length (stack_list s)"
    using unat_word_of_int_small [of "st_top s + 1"] l by simp
qed

lemma stack_take: "wf_stack s \<Longrightarrow> take (length (stack_list s)) (st_elements s) = stack_list s"
  using wf_stackD(2) [of s] by (metis stack_list_def)

lemma stack_capacity_bounds:
  assumes "unat c \<le> 2 ^ 30"
  shows "unat c < unat (ComputeCapacity c)" "unat (ComputeCapacity c) \<le> 2 ^ 31"
proof -
  have "unat (drop_bit 1 c) = unat c div 2" by (simp add: unat_u32_drop_bit)
  then have "unat (c + drop_bit 1 c) = unat c + unat c div 2" using assms by (simp add: unat_word_ariths)
  then show "unat c < unat (ComputeCapacity c)" "unat (ComputeCapacity c) \<le> 2 ^ 31"
    using assms by (auto simp: ComputeCapacity_def DEFAULT_CAPACITY_LENGTH_def Let_def word_less_nat_alt)
qed

lemma stack_grow:
  assumes wf: "wf_stack s" and lim: "length (stack_list s) < stack_limit"
  defines "g \<equiv> GrowCapacity s (word_of_int (st_top s + 1))"
  shows "st_top g = st_top s" "length (stack_list s) < length (st_elements g)" "length (st_elements g) \<le> 2 ^ 31"
    "take (length (stack_list s)) (st_elements g) = stack_list s"
proof -
  let ?n = "length (stack_list s)" and ?c = "word_of_int (st_top s + 1) :: u32"
  note S = wf_stackD [OF wf]
  show "st_top g = st_top s" by (simp add: g_def GrowCapacity_def Let_def)
  have less: "?c < cap (st_elements s) \<longleftrightarrow> ?n < length (st_elements s)"
    using S(6) unat_cap [OF S(4)] by (simp add: word_less_nat_alt)
  note tk = stack_take [OF wf]
  have "?n < length (st_elements g) \<and> length (st_elements g) \<le> 2 ^ 31 \<and> take ?n (st_elements g) = stack_list s"
  proof (cases "?n < length (st_elements s)")
    case True
    then show ?thesis using less S(4) tk by (simp add: g_def GrowCapacity_def Let_def)
  next
    case False
    then have n: "length (st_elements s) = ?n" using S(3) by simp
    have m: "?n < unat (ComputeCapacity ?c)" "unat (ComputeCapacity ?c) \<le> 2 ^ 31"
      using stack_capacity_bounds [of ?c] S(6) lim by (auto simp: stack_limit_def)
    then have "st_elements g = st_elements s @ replicate (unat (ComputeCapacity ?c) - ?n) Hole"
      using less False CopyArray_grow [of "st_elements s" "unat (ComputeCapacity ?c)"] n unat_cap [OF S(4)]
      by (simp add: g_def GrowCapacity_def Let_def)
    then show ?thesis using m n tk by simp
  qed
  then show "?n < length (st_elements g)" "length (st_elements g) \<le> 2 ^ 31" "take ?n (st_elements g) = stack_list s"
    by simp_all
qed

section \<open>Correctness of the operations\<close>

lemma stack_push:
  assumes wf: "wf_stack s" and lim: "length (stack_list s) < stack_limit"
  shows "wf_stack (snd (Push s v)) \<and> fst (Push s v) = v \<and> stack_list (snd (Push s v)) = stack_list s @ [v]"
proof -
  let ?n = "length (stack_list s)"
  note S = wf_stackD [OF wf] and G = stack_grow [OF wf lim]
  let ?g = "GrowCapacity s (word_of_int (st_top s + 1))"
  have P: "Push s v = (v, ?g\<lparr>st_elements := (st_elements ?g)[?n := v], st_top := int ?n\<rparr>)"
    unfolding Push_def Let_def S(1) nat_int ..
  have "nat (int ?n + 1) = Suc ?n" by simp
  then show ?thesis
    using G(2-4) unfolding P wf_stack_def stack_list_def [of "snd _"] by (simp add: take_Suc_conv_app_nth)
qed

lemma stack_pop:
  assumes wf: "wf_stack s"
  shows "wf_stack (snd (Pop s)) \<and> fst (Pop s) = fst (list_remove Undefined (rev (stack_list s))) \<and>
    rev (stack_list (snd (Pop s))) = snd (list_remove Undefined (rev (stack_list s)))"
proof (cases "stack_list s" rule: rev_cases)
  case Nil
  then show ?thesis using wf wf_stackD(5) [OF wf] by (simp add: Pop_def list_remove_def)
next
  case (snoc xs x)
  note S = wf_stackD [OF wf]
  have top: "st_top s = int (length xs)" using S(1) snoc by simp
  have els: "take (Suc (length xs)) (st_elements s) = xs @ [x]" using snoc top by (simp add: stack_list_def nat_add_distrib)
  have lt: "length xs < length (st_elements s)" using S(3) snoc by simp
  have "take (length xs) (st_elements s) = xs" "st_elements s ! length xs = x"
    using els lt by (simp_all add: take_Suc_conv_app_nth)
  then show ?thesis using snoc top lt S(4) by (simp add: Pop_def Let_def wf_stack_def stack_list_def list_remove_def)
qed

lemma stack_nth: "wf_stack s \<Longrightarrow> i < length (stack_list s) \<Longrightarrow> st_elements s ! i = stack_list s ! i"
  by (metis nth_take stack_take)

lemma stack_set_eq:
  assumes "wf_stack s"
  shows "Set s i v = (Undefined, if unat i < length (stack_list s) then s\<lparr>st_elements := (st_elements s)[unat i := v]\<rparr> else s)"
  unfolding Set_def GetSize_def Let_def word_le_nat_alt wf_stackD(6) [OF assms] by (rule if_split [THEN iffD2]) auto

lemma stack_set:
  assumes wf: "wf_stack s"
  shows "wf_stack (snd (Set s i v)) \<and> stack_list (snd (Set s i v)) = (stack_list s)[unat i := v]"
proof (cases "unat i < length (stack_list s)")
  case True
  have "stack_list (s\<lparr>st_elements := (st_elements s)[unat i := v]\<rparr>) = (stack_list s)[unat i := v]"
    using take_update_swap [of "nat (st_top s + 1)" "st_elements s"] by (simp add: stack_list_def)
  then show ?thesis using wf True by (simp add: stack_set_eq wf_stack_def)
next
  case False
  then show ?thesis using wf by (simp add: stack_set_eq list_update_beyond)
qed

lemma stack_peek: "wf_stack s \<Longrightarrow> Peek s = (if stack_list s = [] then Undefined else last (stack_list s))"
proof -
  assume wf: "wf_stack s"
  have "nat (st_top s) = length (stack_list s) - 1" using wf_stackD(1) [OF wf] by linarith
  then show ?thesis
    using wf_stackD(5) [OF wf] stack_nth [OF wf, of "length (stack_list s) - 1"] by (auto simp: Peek_def Let_def last_conv_nth)
qed

lemma find_index_list:
  assumes "\<And>i. i < length xs \<Longrightarrow> P i = Q (xs ! i)"
  shows "find P [0..<length xs] = (if \<exists>x \<in> set xs. Q x then Some (length (takeWhile (\<lambda>x. \<not> Q x) xs)) else None)"
proof (cases "\<exists>x \<in> set xs. Q x")
  case False
  then have "\<not> (\<exists>i \<in> set [0..<length xs]. P i)" using assms by auto
  then show ?thesis using False by (simp add: find_None_iff)
next
  case True
  let ?k = "length (takeWhile (\<lambda>x. \<not> Q x) xs)"
  have k: "?k < length xs" using True length_takeWhile_le [of "\<lambda>x. \<not> Q x" xs] takeWhile_eq_all_conv [of "\<lambda>x. \<not> Q x" xs]
      takeWhile_eq_take [of "\<lambda>x. \<not> Q x" xs] by (metis le_neq_implies_less take_all_iff order_refl)
  have "Q (xs ! ?k)" using nth_length_takeWhile [OF k] by simp
  moreover have "\<not> Q (xs ! j)" if "j < ?k" for j
    using nth_mem [OF that] takeWhile_nth [OF that] set_takeWhileD by fastforce
  ultimately have "find P [0..<length xs] = Some ?k"
    unfolding find_Some_iff using assms k by (intro exI [of _ ?k]) auto
  then show ?thesis using True by simp
qed

lemma stack_search:
  assumes wf: "wf_stack s"
  shows "Search s v = (if v \<in> set (stack_list s) then int (length (takeWhile (\<lambda>x. v \<noteq> x) (stack_list s))) else - 1)"
    "Has same s v \<longleftrightarrow> (\<exists>x \<in> set (stack_list s). same x v)"
  using find_index_list [of "stack_list s" "\<lambda>i. v = st_elements s ! i" "\<lambda>x. v = x"]
    find_index_list [of "stack_list s" "\<lambda>i. same (st_elements s ! i) v" "\<lambda>x. same x v"]
    stack_nth [OF wf] wf_stackD(2,5) [OF wf]
  by (auto simp: Search_def Has_def Let_def)

interpretation stack_lifo: lifo_container wf_stack "\<lambda>s. rev (stack_list s)" "\<lambda>s v. Some (snd (Push s v))" Pop Undefined stack_limit
  by unfold_locales (simp_all add: stack_push stack_pop container_spec_lengths, simp_all add: lifo_insert_def stack_push)

lemma wf_new_stack: "StackConstructor False = Inr s \<Longrightarrow> wf_stack s \<and> stack_list s = [] \<and> st_elements s = []"
  by (auto simp: StackConstructor_def wf_stack_def stack_list_def)

section \<open>Iteration\<close>

interpretation stack_iterator: index_iterator wf_stack stack_list Next "\<lambda>i. \<lparr>sit_over = False, sit_next = i\<rparr>"
proof unfold_locales
  fix s and i :: u32
  assume wf: "wf_stack s"
  let ?l = "word_of_int (GetSize s + 1) :: u32"
  have l: "unat ?l = length (stack_list s)" and small: "length (stack_list s) \<le> 2 ^ 31"
    using wf_stackD(3,4,6) [OF wf] by (simp_all add: GetSize_def)
  then show "length (stack_list s) < 2 ^ 32" by simp
  have i1: "unat (i + 1) = Suc (unat i)" if "unat i \<le> length (stack_list s)"
    using that small by (simp add: unat_word_ariths)
  show "Next s \<lparr>sit_over = False, sit_next = i\<rparr> = (Some (stack_list s ! unat i), \<lparr>sit_over = False, sit_next = i + 1\<rparr>)"
    if "unat i < length (stack_list s)"
    using that i1 l stack_nth [OF wf that] by (simp add: Next_def Let_def word_less_nat_alt Get_def)
  show "fst (Next s \<lparr>sit_over = False, sit_next = i\<rparr>) = None" if "unat i = length (stack_list s)"
    using that i1 l by (simp add: Next_def Let_def word_less_nat_alt)
qed

lemma stack_foreach_visits:
  assumes wf: "wf_stack s" and fn: "\<And>v i w. fn v i (s, w) = Inr (s, f v (unat i) w)"
  shows "ContainersStack_ForEach (ThisContainer s) (Some fn) w = Inr (s, visit_all f (stack_list s) w)"
proof -
  note S = wf_stackD [OF wf]
  have "stack_foreach_step fn k (Inr (s, w)) = Inr (s, f (stack_list s ! k) k w)" if "k < length (stack_list s)" for k w
  proof -
    have "unat (of_nat k :: u32) = k" using that S(3,4) by (simp add: unat_of_nat)
    then show ?thesis using stack_nth [OF wf that] by (simp add: stack_foreach_step_def fn Get_def)
  qed
  from for_up_visits [of "stack_list s" "stack_foreach_step fn" s f w, OF this] show ?thesis
    unfolding ContainersStack_ForEach_def GetSize_def Let_def resolve_this.simps bindO_simps option.case S(6) .
qed

section \<open>Reachable stacks\<close>

text \<open>
  The stacks that scripts can build: each step is a call that changes the stack, with at most
  \<open>n\<close> pushes before.
\<close>

inductive stack_reach :: "nat \<Rightarrow> JSAPIStack \<Rightarrow> bool" where
  new: "StackConstructor False = Inr s \<Longrightarrow> stack_reach 0 s"
| push: "stack_reach n s \<Longrightarrow> ContainersStack_Push (ThisContainer s) v = Inr (r, s') \<Longrightarrow> stack_reach (Suc n) s'"
| pop: "stack_reach n s \<Longrightarrow> ContainersStack_Pop (ThisContainer s) = Inr (r, s') \<Longrightarrow> stack_reach n s'"
| set_property: "stack_reach n s \<Longrightarrow> SetProperty s k v = (b, s') \<Longrightarrow> stack_reach n s'"

inductive_cases stack_reach_0E: "stack_reach 0 s"

text \<open>No slot above the top keeps a value: everything there is the hole.\<close>

definition clean_stack :: "JSAPIStack \<Rightarrow> bool" where
  "clean_stack s \<longleftrightarrow>
     st_elements s = stack_list s @ replicate (length (st_elements s) - length (stack_list s)) Hole"

lemma clean_stackI: "st_elements s = stack_list s @ replicate k Hole \<Longrightarrow> clean_stack s"
proof -
  assume e: "st_elements s = stack_list s @ replicate k Hole"
  have "length (st_elements s) = length (stack_list s) + k" by (subst e) simp
  then show "clean_stack s" unfolding clean_stack_def using e by simp
qed

lemma clean_grow:
  assumes wf: "wf_stack s" and lim: "length (stack_list s) < stack_limit" and cl: "clean_stack s"
  obtains k where "st_elements (GrowCapacity s (word_of_int (st_top s + 1))) = stack_list s @ replicate (Suc k) Hole"
proof -
  let ?c = "word_of_int (st_top s + 1) :: u32" and ?n = "length (stack_list s)"
  note S = wf_stackD [OF wf] and G = stack_grow [OF wf lim]
  let ?els = "st_elements (GrowCapacity s ?c)"
  have "\<exists>k. ?els = st_elements s @ replicate k Hole"
  proof (cases "?c < cap (st_elements s)")
    case True
    then show ?thesis by (intro exI [of _ 0]) (simp add: GrowCapacity_def Let_def)
  next
    case False
    then have n: "length (st_elements s) = ?n"
      using S(3,6) unat_cap [OF S(4)] by (simp add: word_less_nat_alt)
    have "?n < unat (ComputeCapacity ?c)"
      using stack_capacity_bounds(1) [of ?c] S(6) lim by (auto simp: stack_limit_def)
    then show ?thesis
      using False CopyArray_grow [of "st_elements s" "unat (ComputeCapacity ?c)"] n unat_cap [OF S(4)]
      by (auto simp: GrowCapacity_def Let_def)
  qed
  then obtain k where "?els = stack_list s @ replicate (length (st_elements s) - ?n) Hole @ replicate k Hole"
    using cl unfolding clean_stack_def by (metis append_assoc)
  then have e: "?els = stack_list s @ replicate (length (st_elements s) - ?n + k) Hole" by (simp add: replicate_add)
  then have "length (st_elements s) - ?n + k \<noteq> 0" using G(2) unfolding e by auto
  then show thesis using that e by (metis not0_implies_Suc)
qed

lemma clean_push:
  assumes wf: "wf_stack s" and lim: "length (stack_list s) < stack_limit" and cl: "clean_stack s"
  shows "clean_stack (snd (Push s v))"
proof -
  obtain k where k: "st_elements (GrowCapacity s (word_of_int (st_top s + 1))) = stack_list s @ replicate (Suc k) Hole"
    using clean_grow [OF assms] .
  have "st_elements (snd (Push s v)) = (stack_list s @ [v]) @ replicate k Hole"
    unfolding Push_def Let_def wf_stackD(2) [OF wf] snd_conv JSAPIStack.simps k by simp
  then show ?thesis using stack_push [OF wf lim, of v] by (intro clean_stackI [of _ k]) simp
qed

lemma clean_pop:
  assumes wf: "wf_stack s" and cl: "clean_stack s"
  shows "clean_stack (snd (Pop s))"
proof (cases "stack_list s" rule: rev_cases)
  case Nil
  then show ?thesis using cl wf_stackD(5) [OF wf] by (simp add: Pop_def)
next
  case (snoc xs x)
  obtain k where k: "st_elements s = xs @ x # replicate k Hole"
    using cl snoc unfolding clean_stack_def by (metis append_Cons append_assoc append_Nil)
  have top: "st_top s = int (length xs)" using wf_stackD(1) [OF wf] snoc by simp
  then have "st_elements (snd (Pop s)) = xs @ replicate (Suc k) Hole"
    by (simp add: Pop_def Let_def k list_update_append)
  moreover have "stack_list (snd (Pop s)) = xs"
    using stack_pop [OF wf] snoc by (simp add: list_remove_def)
  ultimately show ?thesis by (intro clean_stackI [of _ "Suc k"]) simp
qed

lemma clean_set:
  assumes wf: "wf_stack s" and cl: "clean_stack s"
  shows "clean_stack (snd (Set s i v))"
proof (cases "unat i < length (stack_list s)")
  case True
  obtain k where "st_elements s = stack_list s @ replicate k Hole" using cl clean_stack_def by blast
  then have "st_elements (snd (Set s i v)) = (stack_list s)[unat i := v] @ replicate k Hole"
    using True by (simp add: stack_set_eq [OF wf] list_update_append)
  then show ?thesis using stack_set [OF wf, of i v] by (intro clean_stackI [of _ k]) simp
qed (use cl in \<open>simp add: stack_set_eq [OF wf]\<close>)

lemma stack_set_property:
  assumes "wf_stack s" "clean_stack s" "SetProperty s k v = (b, s')"
  shows "wf_stack s' \<and> clean_stack s' \<and> length (stack_list s') = length (stack_list s)"
  using assms stack_set [OF assms(1)] clean_set [OF assms(1,2)]
  by (auto simp: SetProperty_def Let_def split: index_key.splits if_splits)

lemma stack_reach_inv:
  "stack_reach n s \<Longrightarrow> n \<le> stack_limit \<Longrightarrow> wf_stack s \<and> clean_stack s \<and> length (stack_list s) \<le> n"
proof (induction rule: stack_reach.induct)
  case (new s)
  then show ?case using wf_new_stack [OF new(1)] by (simp add: clean_stack_def)
next
  case (push n s v r s')
  then have "wf_stack s" "clean_stack s" "length (stack_list s) < stack_limit" "s' = snd (Push s v)"
    by (auto simp: ContainersStack_Push_def)
  then show ?case using stack_push [of s v] clean_push [of s v] push by simp
next
  case (pop n s r s')
  then have s: "wf_stack s" "clean_stack s" "s' = snd (Pop s)" by (auto simp: ContainersStack_Pop_def)
  then have "length (rev (stack_list s')) \<le> length (rev (stack_list s))"
    using stack_pop [of s] container_spec_lengths by metis
  then have "length (stack_list s') \<le> length (stack_list s)" by (simp only: length_rev)
  then show ?case using s stack_pop [of s] clean_pop [of s] pop by (metis order_trans)
next
  case (set_property n s k v b s')
  then show ?case using stack_set_property [of s k v b s'] by simp
qed

lemma stack_own_property:
  assumes wf: "wf_stack s"
  shows "GetOwnProperty s (Some i) = (if stack_list s = [] then Inl (BusinessError RANGE_ERROR (Msg ''Container is empty''))
    else if unat i < length (stack_list s) then Inr True
    else Inl (BusinessError RANGE_ERROR (RangeMsg ''index'' (int (length (stack_list s)) - 1) (int (unat i)))))"
proof -
  let ?l = "word_of_int (st_top s + 1) :: u32"
  note l = wf_stackD(6) [OF wf]
  have "?l = 0 \<longleftrightarrow> stack_list s = []" unfolding word_unat_eq_iff l by simp
  moreover have "int (unat (?l - 1)) = int (length (stack_list s)) - 1" if "stack_list s \<noteq> []"
    using that l by (subst unat_sub) (auto simp: word_le_nat_alt Suc_leI)
  ultimately show ?thesis by (auto simp: GetOwnProperty_def Let_def word_le_nat_alt l simp del: of_int_add)
qed

lemma stack_property:
  assumes wf: "wf_stack s" and i: "TryCastDoubleToInt32 key = KeyInt i"
  shows "GetProperty s key = (if stack_list s = [] then Inl (BusinessError RANGE_ERROR (Msg ''Container is empty''))
      else if 0 \<le> i \<and> i < int (length (stack_list s)) then Inr (stack_list s ! nat i)
      else Inl (BusinessError RANGE_ERROR (RangeMsg ''index'' (int (length (stack_list s)) - 1) i)))"
    "0 \<le> i \<Longrightarrow> i < int (length (stack_list s)) \<Longrightarrow>
      \<exists>s'. SetProperty s key v = (True, s') \<and> wf_stack s' \<and> stack_list s' = (stack_list s)[nat i := v]"
    "i < 0 \<or> int (length (stack_list s)) \<le> i \<Longrightarrow> SetProperty s key v = (False, s)"
proof -
  note S = wf_stackD [OF wf]
  have u: "unat (word_of_int i :: u32) = nat i" if "0 \<le> i" "i < int (length (stack_list s))"
    using that S(3,4) by (intro unat_word_of_int_small) simp_all
  show "GetProperty s key = (if stack_list s = [] then Inl (BusinessError RANGE_ERROR (Msg ''Container is empty''))
      else if 0 \<le> i \<and> i < int (length (stack_list s)) then Inr (stack_list s ! nat i)
      else Inl (BusinessError RANGE_ERROR (RangeMsg ''index'' (int (length (stack_list s)) - 1) i)))"
    unfolding GetProperty_def S(1) Let_def i using u stack_nth [OF wf, of "nat i"] by (auto simp: Get_def)
  show "\<exists>s'. SetProperty s key v = (True, s') \<and> wf_stack s' \<and> stack_list s' = (stack_list s)[nat i := v]"
    if "0 \<le> i" "i < int (length (stack_list s))"
    unfolding SetProperty_def S(1) Let_def i using that u stack_set [OF wf, of "word_of_int i" v] by auto
  show "SetProperty s key v = (False, s)" if "i < 0 \<or> int (length (stack_list s)) \<le> i"
    unfolding SetProperty_def S(1) Let_def i using that by auto
qed

section \<open>Theorems\<close>

text \<open>
  C26: the stack refines a list with last-in first-out access. Any sequence of pushes and pops on a new
  stack returns what the list returns and leaves its content, through every growth of the array.
\<close>

theorem stack_refines_list:
  assumes "StackConstructor False = Inr s" "inserts ops \<le> stack_limit"
  shows "\<exists>outs s'. run (\<lambda>s v. Some (snd (Push s v))) Pop ops s = Some (outs, s') \<and> wf_stack s' \<and>
    run (\<lambda>xs v. Some (v # xs)) (list_remove Undefined) ops [] = Some (outs, rev (stack_list s'))"
  using stack_lifo.run_refines [of s ops] wf_new_stack [OF assms(1)] assms(2) by (simp add: lifo_insert_def)

theorem stack_refines_list_witness:
  "\<exists>s s'. StackConstructor False = Inr s \<and>
     run (\<lambda>s v. Some (snd (Push s v))) Pop [InsertOp (JSInt 1), InsertOp (JSInt 2), RemoveOp] s = Some ([JSInt 2], s') \<and>
     rev (stack_list s') = [JSInt 1]"
proof -
  obtain s where s: "StackConstructor False = Inr s" by (simp add: StackConstructor_def)
  show ?thesis
    using stack_refines_list [OF s, of "[InsertOp (JSInt 1), InsertOp (JSInt 2), RemoveOp]"] s
    by (auto simp: list_remove_def stack_limit_def)
qed

text \<open>
  C27: a stack never keeps a value that was popped. In every stack that calls of the constructor, \<open>push\<close>,
  \<open>pop\<close> and property writes can build, in any order, the slots above the top hold the hole.
\<close>

theorem stack_no_retention:
  assumes "stack_reach n s" "n \<le> stack_limit"
  shows "wf_stack s \<and> (\<forall>j < length (st_elements s). length (stack_list s) \<le> j \<longrightarrow> st_elements s ! j = Hole)"
proof -
  have "wf_stack s" and c: "clean_stack s" using stack_reach_inv [OF assms] by simp_all
  obtain k where "st_elements s = stack_list s @ replicate k Hole" using c clean_stack_def by blast
  then have "st_elements s ! j = Hole" if "length (stack_list s) \<le> j" "j < length (st_elements s)" for j
    using that by (metis nth_append not_le length_append length_replicate less_diff_conv2 add.commute nth_replicate)
  then show ?thesis using \<open>wf_stack s\<close> by simp
qed

theorem stack_no_retention_witness:
  "\<exists>s. stack_reach 1 s \<and> stack_list s = [] \<and> 0 < length (st_elements s) \<and> st_elements s ! 0 = Hole"
proof -
  let ?s0 = "\<lparr>st_elements = [], st_top = - 1\<rparr>"
  let ?s1 = "snd (Push ?s0 (JSInt 7))"
  let ?s2 = "snd (Pop ?s1)"
  have r0: "stack_reach 0 ?s0" by (rule stack_reach.new) (simp add: StackConstructor_def)
  have r1: "stack_reach (Suc 0) ?s1"
    by (rule stack_reach.push [OF r0, of "JSInt 7" "fst (Push ?s0 (JSInt 7))"]) (simp add: ContainersStack_Push_def)
  have r2: "stack_reach (Suc 0) ?s2"
    by (rule stack_reach.pop [OF r1, of "fst (Pop ?s1)"]) (simp add: ContainersStack_Pop_def)
  have wf: "wf_stack ?s0" "stack_list ?s0 = []" by (simp_all add: wf_stack_def stack_list_def)
  have s1: "wf_stack ?s1" "stack_list ?s1 = [JSInt 7]"
    using stack_push [OF wf(1), of "JSInt 7"] wf(2) by (simp_all add: stack_limit_def)
  have "0 < length (st_elements ?s1)" using wf_stackD(3) [OF s1(1)] s1(2) by auto
  then have "stack_list ?s2 = []" "0 < length (st_elements ?s2)"
    using stack_pop [OF s1(1)] s1(2) by (simp_all add: list_remove_def, simp add: Pop_def Let_def)
  then show ?thesis using stack_no_retention [OF r2] r2 by (auto simp: stack_limit_def)
qed

text \<open>
  C28: queries are exact: \<open>peek\<close> returns the top or undefined, \<open>locate\<close> the first index of the value or -1,
  \<open>isEmpty\<close> and \<open>getLength\<close> tell the length, \<open>Has\<close> searches every value, and property access by index
  reads and writes exactly the value there or reports the range error with its bounds.
\<close>

theorem stack_access_exact:
  assumes wf: "wf_stack s" and i: "TryCastDoubleToInt32 key = KeyInt i"
  shows "ContainersStack_Peek (ThisContainer s) = Inr (if stack_list s = [] then Undefined else last (stack_list s)) \<and>
    ContainersStack_Locate (ThisContainer s) v =
      Inr (JSInt (if v \<in> set (stack_list s) then int (length (takeWhile (\<lambda>x. v \<noteq> x) (stack_list s))) else - 1)) \<and>
    ContainersStack_IsEmpty (ThisContainer s) = Inr (tagged_bool (stack_list s = [])) \<and>
    ContainersStack_GetLength (ThisContainer s) = Inr (JSInt (int (length (stack_list s)))) \<and>
    Has same s v = (\<exists>x \<in> set (stack_list s). same x v) \<and>
    GetProperty s key = (if stack_list s = [] then Inl (BusinessError RANGE_ERROR (Msg ''Container is empty''))
      else if 0 \<le> i \<and> i < int (length (stack_list s)) then Inr (stack_list s ! nat i)
      else Inl (BusinessError RANGE_ERROR (RangeMsg ''index'' (int (length (stack_list s)) - 1) i))) \<and>
    (\<exists>s'. SetProperty s key v = (0 \<le> i \<and> i < int (length (stack_list s)), s') \<and> wf_stack s' \<and>
       stack_list s' = (if 0 \<le> i then (stack_list s)[nat i := v] else stack_list s))"
proof (intro conjI)
  show "ContainersStack_Peek (ThisContainer s) = Inr (if stack_list s = [] then Undefined else last (stack_list s))"
    by (simp add: ContainersStack_Peek_def stack_peek [OF wf])
  show "\<exists>s'. SetProperty s key v = (0 \<le> i \<and> i < int (length (stack_list s)), s') \<and> wf_stack s' \<and>
       stack_list s' = (if 0 \<le> i then (stack_list s)[nat i := v] else stack_list s)"
    using stack_property(2,3) [OF wf i, of v] wf
    by (cases "0 \<le> i \<and> i < int (length (stack_list s))") (auto simp: list_update_beyond)
qed (simp_all add: ContainersStack_Locate_def ContainersStack_IsEmpty_def ContainersStack_GetLength_def Empty_def
    GetSize_def wf_stackD(1,5) [OF wf] stack_search [OF wf] stack_property(1) [OF wf i])

theorem stack_access_exact_witness:
  "let s = \<lparr>st_elements = [JSInt 1, JSInt 2, JSInt 2, Hole], st_top = 2\<rparr> in
   ContainersStack_Peek (ThisContainer s) = Inr (JSInt 2) \<and> ContainersStack_Locate (ThisContainer s) (JSInt 2) = Inr (JSInt 1)"
proof -
  let ?s = "\<lparr>st_elements = [JSInt 1, JSInt 2, JSInt 2, Hole], st_top = 2\<rparr>"
  have wf: "wf_stack ?s" and l: "stack_list ?s = [JSInt 1, JSInt 2, JSInt 2]"
    by (simp_all add: wf_stack_def stack_list_def numeral_3_eq_3)
  have k: "TryCastDoubleToInt32 (KeyInt 0) = KeyInt 0" by simp
  show ?thesis using stack_access_exact [OF wf k, of "JSInt 2" "(=)"] unfolding l by simp
qed

text \<open>
  iteration is complete and ends: an iterator of an unchanged stack returns exactly its values from
  the bottom to the top, and \<open>forEach\<close> calls the callback once for each of them in that order.
\<close>

theorem stack_iteration:
  assumes "wf_stack s"
  shows "fst (drain (Suc (length (stack_list s)) + k) (Next s) (NewJSAPIStackIterator s)) = stack_list s \<and>
    ContainersStack_ForEach (ThisContainer s) (Some (\<lambda>v i (s, w). Inr (s, f v (unat i) w))) w =
      Inr (s, visit_all f (stack_list s) w)"
  using stack_iterator.drain_all [OF assms]
    stack_foreach_visits [OF assms, of "\<lambda>v i (s, w). Inr (s, f v (unat i) w)" f w]
  by (simp add: NewJSAPIStackIterator_def del: drain.simps)

theorem stack_iteration_witness:
  "let s = \<lparr>st_elements = [JSInt 1, JSInt 2, Hole], st_top = 1\<rparr> in
   fst (drain 3 (Next s) (NewJSAPIStackIterator s)) = [JSInt 1, JSInt 2]"
proof -
  let ?s = "\<lparr>st_elements = [JSInt 1, JSInt 2, Hole], st_top = 1\<rparr>"
  have wf: "wf_stack ?s" and l: "stack_list ?s = [JSInt 1, JSInt 2]" by (simp_all add: wf_stack_def stack_list_def)
  have n: "Suc (length (stack_list ?s)) + 0 = 3" by (simp add: l)
  show ?thesis using conjunct1 [OF stack_iteration [OF wf, of 0]] unfolding n Let_def by (simp only: l)
qed

end
