(* ===== verification/Container_Map.thy ===== *)
theory Container_Map
  imports Container_Base
begin

text \<open>
  What the containers with sorted keys or hashes share: the binary search loop, the loops that
  move the slots of an array by one or more positions, and the contract of a finite map.
\<close>

unbundle bit_operations_syntax

section \<open>Binary search\<close>

text \<open>
  The search loop over the values \<open>val\<close> of the slots between \<open>low\<close> and \<open>high\<close>. The source takes
  the middle as \<open>(uint32_t)(low + high) >> 1\<close>, which is \<open>(low + high) div 2\<close> for \<open>int32\<close> bounds that
  are not negative (lemma \<open>middle_u32\<close>). The result is the position of the key, or
  \<open>-(low + 1)\<close> for the position \<open>low\<close> at which it would have to be inserted.
\<close>

function binary_search :: "(nat \<Rightarrow> 'a :: linorder) \<Rightarrow> 'a \<Rightarrow> int \<Rightarrow> int \<Rightarrow> int" where
  "binary_search val key low high =
     (if low \<le> high then
        let mid = (low + high) div 2;
            midVal = val (nat mid)
        in if midVal < key then binary_search val key (mid + 1) high
           else if midVal \<le> key then mid
           else binary_search val key low (mid - 1)
      else - (low + 1))"
  by pat_completeness auto
termination
  by (relation "measure (\<lambda>(val, key, low, high). nat (high - low + 1))") auto

declare binary_search.simps [simp del]

lemma middle_u32:
  assumes "0 \<le> low" "low < 2 ^ 31" "0 \<le> high" "high < 2 ^ 31"
  shows "sint (drop_bit 1 (word_of_int (low + high) :: u32)) = (low + high) div 2"
proof -
  have u: "unat (word_of_int (low + high) :: u32) = nat (low + high)"
    using assms by (intro unat_word_of_int_small) auto
  then have d: "unat (drop_bit 1 (word_of_int (low + high) :: u32)) = nat (low + high) div 2"
    by (simp add: unat_u32_drop_bit)
  then have "unat (drop_bit 1 (word_of_int (low + high) :: u32)) < 2 ^ 31" using assms by auto
  from sint_nat_small [OF this] show ?thesis using assms unfolding d by (simp add: nat_add_distrib zdiv_int)
qed

text \<open>\<open>bsearch_ok val n key r\<close>: \<open>r\<close> is a correct answer for the key among \<open>n\<close> slots.\<close>

definition bsearch_ok :: "(nat \<Rightarrow> 'a :: linorder) \<Rightarrow> nat \<Rightarrow> 'a \<Rightarrow> int \<Rightarrow> bool" where
  "bsearch_ok val n key r \<longleftrightarrow>
     (if 0 \<le> r then r < int n \<and> val (nat r) = key
      else nat (NOT r) \<le> n \<and> (\<forall>i < nat (NOT r). val i < key) \<and> (\<forall>i. nat (NOT r) \<le> i \<and> i < n \<longrightarrow> key < val i))"

lemma bsearch_ok_cong:
  assumes "\<And>i. i < n \<Longrightarrow> val i = val' i" "bsearch_ok val n key r"
  shows "bsearch_ok val' n key r"
  using assms by (auto simp: bsearch_ok_def split: if_splits)

lemma not_minus: "NOT (- (k + 1)) = (k :: int)"
  by (simp add: not_int_def)

lemma binary_search_ok:
  assumes sorted: "\<And>i j. i \<le> j \<Longrightarrow> j < n \<Longrightarrow> val i \<le> val j"
    and "0 \<le> low" "low \<le> int n" "high < int n" "low \<le> high + 1"
    and "\<And>i. i < nat low \<Longrightarrow> val i < key" "\<And>i. high < int i \<Longrightarrow> i < n \<Longrightarrow> key < val i"
  shows "bsearch_ok val n key (binary_search val key low high)"
  using assms(2-)
proof (induction "nat (high - low + 1)" arbitrary: low high rule: less_induct)
  case less
  let ?m = "(low + high) div 2"
  show ?case
  proof (cases "low \<le> high")
    case False
    then have h: "high = low - 1" using less.prems by simp
    then have r: "binary_search val key low high = - (low + 1)" using False by (simp add: binary_search.simps)
    show ?thesis using less.prems h unfolding bsearch_ok_def r not_minus by auto
  next
    case True
    have m: "low \<le> ?m" "?m \<le> high" using True by auto
    then have mn: "nat ?m < n" "0 \<le> ?m" using less.prems by auto
    consider "val (nat ?m) < key" | "val (nat ?m) = key" | "key < val (nat ?m)" by fastforce
    then show ?thesis
    proof cases
      case 1
      have "val i < key" if "i < nat (?m + 1)" for i
        using sorted [of i "nat ?m"] that mn 1 by fastforce
      then have "bsearch_ok val n key (binary_search val key (?m + 1) high)"
        using less.prems m mn by (intro less.hyps) auto
      then show ?thesis using 1 True by (simp add: binary_search.simps [of val key low])
    next
      case 2
      then have "binary_search val key low high = ?m" using True by (simp add: binary_search.simps [of val key low])
      then show ?thesis using 2 mn by (simp add: bsearch_ok_def)
    next
      case 3
      have "key < val i" if "?m - 1 < int i" "i < n" for i
        using sorted [of "nat ?m" i] that 3 by fastforce
      then have "bsearch_ok val n key (binary_search val key low (?m - 1))"
        using less.prems m mn by (intro less.hyps) auto
      moreover have "binary_search val key low high = binary_search val key low (?m - 1)"
        using True 3 [THEN less_not_sym] 3 [unfolded not_le [symmetric]] by (subst binary_search.simps) (simp add: Let_def)
      ultimately show ?thesis by simp
    qed
  qed
qed

corollary binary_search_array:
  assumes "\<And>i j. i \<le> j \<Longrightarrow> j < n \<Longrightarrow> val i \<le> val j"
  shows "bsearch_ok val n key (binary_search val key 0 (int n - 1))"
  by (rule binary_search_ok) (use assms in auto)

section \<open>Moving the slots of an array\<close>

text \<open>Every slot from \<open>fromIndex\<close> up to the last of \<open>sz\<close> slots moves up by one, the last one first.\<close>

definition shift_up :: "nat \<Rightarrow> nat \<Rightarrow> nat \<Rightarrow> tagged_array \<Rightarrow> tagged_array" where
  "shift_up sz fromIndex toIndex srcArray =
     for_up 0 (toIndex - fromIndex) (\<lambda>i a. let idx = sz - 1 - i in a[idx + 1 := a ! idx]) srcArray"

lemma shift_up_nth:
  assumes "p \<le> n" "n < length a"
  shows "length (shift_up n p n a) = length a \<and>
    (\<forall>i < length a. shift_up n p n a ! i = (if p < i \<and> i \<le> n then a ! (i - 1) else a ! i))"
proof -
  let ?I = "\<lambda>k b. length b = length a \<and>
    (\<forall>i < length a. b ! i = (if n - k < i \<and> i \<le> n then a ! (i - 1) else a ! i))"
  have "?I (n - p) (for_up 0 (n - p) (\<lambda>i a. let idx = n - 1 - i in a[idx + 1 := a ! idx]) a)"
  proof (rule for_up_inv [where I = ?I])
    show "?I 0 a" by auto
    show "?I (Suc k) (let idx = n - 1 - k in b[idx + 1 := b ! idx])" if "?I k b" "k < n - p" for k b
      using that assms by (auto simp: Let_def nth_list_update)
  qed simp_all
  then show ?thesis using assms by (simp add: shift_up_def)
qed

text \<open>Opening a gap at position \<open>p\<close> and writing \<open>v\<close> there inserts \<open>v\<close>.\<close>

lemma shift_up_insert:
  assumes "p \<le> n" "n < length a"
  shows "take (Suc n) ((shift_up n p n a)[p := v]) = take p (take n a) @ v # drop p (take n a)"
proof (rule nth_equalityI)
  note S = shift_up_nth [OF assms]
  show "length (take (Suc n) ((shift_up n p n a)[p := v])) = length (take p (take n a) @ v # drop p (take n a))"
    using S assms by simp
  fix i assume "i < length (take (Suc n) ((shift_up n p n a)[p := v]))"
  then have "i \<le> n" using S assms by auto
  then show "take (Suc n) ((shift_up n p n a)[p := v]) ! i = (take p (take n a) @ v # drop p (take n a)) ! i"
    using S assms by (auto simp: nth_append nth_list_update nth_Cons' not_less)
qed

text \<open>The slots from \<open>fromIndex\<close> on move down to \<open>toIndex\<close>, and the slots that become free get the hole.\<close>

definition shift_down :: "nat \<Rightarrow> nat \<Rightarrow> nat \<Rightarrow> tagged_array \<Rightarrow> tagged_array" where
  "shift_down sz fromIndex toIndex srcArray =
     (let moved = for_up 0 (sz - fromIndex) (\<lambda>i a. a[toIndex + i := a ! (fromIndex + i)]) srcArray
      in for_up 0 (fromIndex - toIndex) (\<lambda>i a. a[toIndex + (sz - fromIndex) + i := Hole]) moved)"

lemma shift_down_moved:
  assumes "t < f" "f \<le> n" "n \<le> length a"
  defines "b \<equiv> for_up 0 (n - f) (\<lambda>i a. a[t + i := a ! (f + i)]) a"
  shows "length b = length a" "take t b = take t a" "take (n - f) (drop t b) = drop f (take n a)" "drop n b = drop n a"
proof -
  let ?I = "\<lambda>k b. length b = length a \<and>
    (\<forall>i < length a. b ! i = (if t \<le> i \<and> i < t + k then a ! (i - t + f) else a ! i))"
  have "?I (n - f) b"
    unfolding b_def
  proof (rule for_up_inv [where I = ?I])
    show "?I 0 a" by auto
    show "?I (Suc k) (b[t + k := b ! (f + k)])" if "?I k b" "k < n - f" for k b
      using that assms by (auto simp: nth_list_update add.commute)
  qed simp_all
  then have b: "length b = length a" "\<And>i. i < length a \<Longrightarrow> b ! i = (if t \<le> i \<and> i < t + (n - f) then a ! (i - t + f) else a ! i)"
    by simp_all
  show "length b = length a" by (rule b(1))
  show "take t b = take t a" by (rule nth_equalityI) (use assms b in auto)
  show "take (n - f) (drop t b) = drop f (take n a)" by (rule nth_equalityI) (use assms b in \<open>auto simp: add.commute\<close>)
  show "drop n b = drop n a" by (rule nth_equalityI) (use assms b in auto)
qed

lemma shift_down_eq:
  assumes "t < f" "f \<le> n" "n \<le> length a"
  shows "take (n - (f - t)) (shift_down n f t a) = take t a @ drop f (take n a)"
    "length (shift_down n f t a) = length a"
proof -
  define b where "b = for_up 0 (n - f) (\<lambda>i a. a[t + i := a ! (f + i)]) a"
  note B = shift_down_moved [OF assms, folded b_def]
  let ?I = "\<lambda>k c. length c = length b \<and> take (t + (n - f)) c = take (t + (n - f)) b"
  have "?I (f - t) (for_up 0 (f - t) (\<lambda>i a. a[t + (n - f) + i := Hole]) b)"
    by (rule for_up_inv [where I = ?I]) auto
  moreover have "take (t + (n - f)) b = take t a @ drop f (take n a)"
    using B by (metis take_add)
  moreover have "n - (f - t) = t + (n - f)" using assms by simp
  ultimately show "take (n - (f - t)) (shift_down n f t a) = take t a @ drop f (take n a)"
    "length (shift_down n f t a) = length a"
    using B(1) by (simp_all add: shift_down_def b_def Let_def)
qed

section \<open>The contract of a map\<close>

datatype ('k, 'v) map_op = Put 'k 'v | Lookup 'k | Delete 'k

text \<open>Runs a sequence of operations and collects what the lookups and deletions return.\<close>

fun map_run ::
  "('s \<Rightarrow> 'k \<Rightarrow> 'v \<Rightarrow> 's) \<Rightarrow> ('s \<Rightarrow> 'k \<Rightarrow> 'v) \<Rightarrow> ('s \<Rightarrow> 'k \<Rightarrow> 'v \<times> 's) \<Rightarrow> ('k, 'v) map_op list \<Rightarrow> 's \<Rightarrow> 'v list \<times> 's" where
  "map_run put get del [] s = ([], s)"
| "map_run put get del (Put k v # ops) s = map_run put get del ops (put s k v)"
| "map_run put get del (Lookup k # ops) s = (let (outs, t) = map_run put get del ops s in (get s k # outs, t))"
| "map_run put get del (Delete k # ops) s =
     (let (v, s) = del s k; (outs, t) = map_run put get del ops s in (v # outs, t))"

definition lookup_or :: "'v \<Rightarrow> ('k \<rightharpoonup> 'v) \<Rightarrow> 'k \<Rightarrow> 'v" where
  "lookup_or none m k = (case m k of None \<Rightarrow> none | Some v \<Rightarrow> v)"

locale map_container =
  fixes inv :: "'s \<Rightarrow> bool" and content :: "'s \<Rightarrow> ('k \<rightharpoonup> 'v)"
    and put :: "'s \<Rightarrow> 'k \<Rightarrow> 'v \<Rightarrow> 's" and get :: "'s \<Rightarrow> 'k \<Rightarrow> 'v" and del :: "'s \<Rightarrow> 'k \<Rightarrow> 'v \<times> 's"
    and none :: 'v and limit :: nat
  assumes content_finite: "inv s \<Longrightarrow> finite (dom (content s))"
    and put_ok: "inv s \<Longrightarrow> card (dom (content s)) < limit \<Longrightarrow> inv (put s k v) \<and> content (put s k v) = (content s)(k \<mapsto> v)"
    and get_ok: "inv s \<Longrightarrow> get s k = lookup_or none (content s) k"
    and del_ok: "inv s \<Longrightarrow> inv (snd (del s k)) \<and> fst (del s k) = lookup_or none (content s) k \<and>
      content (snd (del s k)) = (content s)(k := None)"
begin

lemma map_run_refines:
  "inv s \<Longrightarrow> card (dom (content s)) + length ops \<le> limit \<Longrightarrow>
     let (outs, t) = map_run put get del ops s in inv t \<and>
       map_run (\<lambda>m k v. m(k \<mapsto> v)) (lookup_or none) (\<lambda>m k. (lookup_or none m k, m(k := None))) ops (content s) =
         (outs, content t)"
proof (induction ops arbitrary: s)
  case Nil
  then show ?case by simp
next
  case (Cons op ops)
  show ?case
  proof (cases op)
    case (Put k v)
    have "inv (put s k v)" "content (put s k v) = (content s)(k \<mapsto> v)"
      using put_ok [of s k v] Cons.prems by auto
    moreover have "card (dom ((content s)(k \<mapsto> v))) \<le> Suc (card (dom (content s)))"
      using content_finite [OF Cons.prems(1)] by (simp add: card_insert_if)
    ultimately show ?thesis using Cons.IH [of "put s k v"] Cons.prems(2) Put by (simp del: fun_upd_apply dom_fun_upd)
  next
    case (Lookup k)
    then show ?thesis using Cons.IH [of s] Cons.prems get_ok [of s k] by (simp add: case_prod_beta Let_def)
  next
    case (Delete k)
    have "card (dom (content s) - {k}) \<le> card (dom (content s))"
      by (rule card_mono [OF content_finite [OF Cons.prems(1)]]) blast
    then show ?thesis
      using Cons.IH [of "snd (del s k)"] Cons.prems del_ok [of s k] Delete
      by (simp add: case_prod_beta Let_def del: fun_upd_apply)
  qed
qed

end

section \<open>Maps given by a list of entries\<close>

lemma map_of_insert: "k \<notin> fst ` set xs \<Longrightarrow> map_of (xs @ (k, v) # ys) = (map_of (xs @ ys))(k \<mapsto> v)"
  by (induction xs) (auto simp: fun_upd_twist)

lemma map_of_slice:
  assumes "distinct (map fst (xs @ zs @ ys))"
  shows "map_of (xs @ ys) = map_of (xs @ zs @ ys) |` (- fst ` set zs)"
proof (rule ext)
  fix k
  show "map_of (xs @ ys) k = (map_of (xs @ zs @ ys) |` (- fst ` set zs)) k"
  proof (cases "k \<in> fst ` set zs")
    case True
    then have "k \<notin> fst ` set (xs @ ys)" using assms by auto
    then show ?thesis using True by (simp add: restrict_map_def map_of_eq_None_iff del: map_of_append)
  next
    case False
    then have "map_of zs k = None" by (simp add: map_of_eq_None_iff)
    then show ?thesis using False by (simp add: restrict_map_def map_add_def split: option.split)
  qed
qed

lemma map_of_remove:
  assumes "distinct (map fst (xs @ (k, v) # ys))"
  shows "map_of (xs @ ys) = (map_of (xs @ (k, v) # ys))(k := None)"
  using map_of_slice [of xs "[(k, v)]" ys] assms by (simp add: restrict_map_def fun_eq_iff)

lemma map_of_replace:
  assumes "p < length es" "fst (es ! p) = k" "distinct (map fst es)"
  shows "map_of (es[p := (k, v)]) = (map_of es)(k \<mapsto> v)"
proof -
  have es: "es = take p es @ (k, snd (es ! p)) # drop (Suc p) es" using assms(1,2) id_take_nth_drop [of p es] by (cases "es ! p") simp
  then have d: "k \<notin> fst ` set (take p es)" using assms(3) by (metis distinct_append disjoint_iff_not_equal list.set_intros(1) list.simps(9) list.set_map map_append fst_conv)
  have "es[p := (k, v)] = take p es @ (k, v) # drop (Suc p) es" using assms(1) by (rule upd_conv_take_nth_drop)
  then show ?thesis using map_of_insert [OF d, of v "drop (Suc p) es"] map_of_insert [OF d, of "snd (es ! p)" "drop (Suc p) es"] es
    by (metis fun_upd_upd)
qed

section \<open>Arguments and copies\<close>

definition small_int_arg :: "string \<Rightarrow> index_key \<Rightarrow> int outcome" where
  "small_int_arg name key =
     (case TryCastDoubleToInt32 key of
        KeyInt i \<Rightarrow> Inr i
      | _ \<Rightarrow> Inl (BusinessError TYPE_ERROR (Msg (''The type of '' @ name @ '' must be small integer.''))))"

definition NewAndCopyTaggedArray :: "tagged_array \<Rightarrow> nat \<Rightarrow> nat \<Rightarrow> tagged_array" where
  "NewAndCopyTaggedArray srcElements newLength oldLength =
     (if newLength = 0 then []
      else for_up oldLength newLength (\<lambda>i a. a[i := Hole])
        (take oldLength srcElements @ replicate (newLength - oldLength) Undefined))"

lemma NewAndCopyTaggedArray_same: "n \<le> length a \<Longrightarrow> NewAndCopyTaggedArray a n n = take n a"
  by (simp add: NewAndCopyTaggedArray_def)

definition empty_error :: container_error where
  "empty_error = BusinessError RANGE_ERROR (Msg ''Container is empty'')"

definition range_error :: "int \<Rightarrow> int \<Rightarrow> container_error" where
  "range_error bound index = BusinessError RANGE_ERROR (RangeMsg ''index'' bound index)"

text \<open>
  An insertion at position \<open>p\<close>: the array grows to the new capacity if the flag says so, the slots
  from \<open>p\<close> on move up, and the value is written.
\<close>

lemma insert_slot:
  assumes "p \<le> n" "n \<le> length a" "grow \<Longrightarrow> length a < c \<and> n < c" "\<not> grow \<Longrightarrow> n < length a"
  defines "g \<equiv> (if grow then CopyArray a (length a) c else a)"
  shows "take (Suc n) ((if p < n then shift_up n p n g else g)[p := v]) = take p (take n a) @ v # drop p (take n a)"
    "length ((if p < n then shift_up n p n g else g)[p := v]) = (if grow then c else length a)"
proof -
  have g: "n < length g" "length g = (if grow then c else length a)" "take n g = take n a"
    using assms by (auto simp: CopyArray_grow)
  have "(if p < n then shift_up n p n g else g) = shift_up n p n g" using assms(1) by (simp add: shift_up_def)
  then show "take (Suc n) ((if p < n then shift_up n p n g else g)[p := v]) = take p (take n a) @ v # drop p (take n a)"
    "length ((if p < n then shift_up n p n g else g)[p := v]) = (if grow then c else length a)"
    using shift_up_insert [OF assms(1) g(1), of v] shift_up_nth [OF assms(1) g(1)] g by simp_all
qed

end
