(* ===== verification/JSAPI_PlainArray.thy ===== *)
theory JSAPI_PlainArray
  imports Container_Map
begin

text \<open>
  The plain array of ecmascript/js_api/js_api_plain_array.cpp: a map with small integer keys, kept as
  an array of keys in ascending order and an array of values, its iterator
  (js_api_plain_array_iterator.cpp) and the built-ins of ecmascript/containers/containers_plainarray.cpp.
\<close>

unbundle bit_operations_syntax

section \<open>Operations\<close>

record JSAPIPlainArray =
  pa_keys :: tagged_array
  pa_values :: tagged_array
  pa_length :: u32

definition DEFAULT_CAPACITY_LENGTH :: nat where "DEFAULT_CAPACITY_LENGTH = 8"

text \<open>The number of a key slot; the source asserts that the slot holds one.\<close>

fun GetNumber :: "js_value \<Rightarrow> int" where
  "GetNumber (JSInt i) = i"
| "GetNumber _ = 0"

definition CreateSlot :: "nat \<Rightarrow> tagged_array" where
  "CreateSlot capacity = NewTaggedArray capacity"

definition BinarySearch :: "tagged_array \<Rightarrow> int \<Rightarrow> int \<Rightarrow> int \<Rightarrow> int" where
  "BinarySearch array fromIndex toIndex key =
     binary_search (\<lambda>mid. GetNumber (array ! mid)) key fromIndex (toIndex - 1)"

definition AdjustPrimitiveArray :: "u32 \<Rightarrow> tagged_array \<Rightarrow> int \<Rightarrow> int \<Rightarrow> tagged_array" where
  "AdjustPrimitiveArray sz srcArray fromIndex toIndex = shift_down (unat sz) (nat fromIndex) (nat toIndex) srcArray"

text \<open>
  \<open>young\<close> tells whether the array is young and not being marked. Both branches for it move the
  same slots, one of them past the write barrier.
\<close>

definition AdjustArray :: "bool \<Rightarrow> u32 \<Rightarrow> tagged_array \<Rightarrow> int \<Rightarrow> int \<Rightarrow> bool \<Rightarrow> tagged_array" where
  "AdjustArray young sz srcArray fromIndex toIndex direction =
     (if direction then shift_up (unat sz) (nat fromIndex) (nat toIndex) srcArray
      else if young then AdjustPrimitiveArray sz srcArray fromIndex toIndex
      else shift_down (unat sz) (nat fromIndex) (nat toIndex) srcArray)"

definition Add :: "JSAPIPlainArray \<Rightarrow> int \<Rightarrow> js_value \<Rightarrow> JSAPIPlainArray" where
  "Add obj key val =
     (let keyArray = pa_keys obj;
          valueArray = pa_values obj;
          sz = pa_length obj;
          index = BinarySearch keyArray 0 (sint sz) key
      in if index \<ge> 0 then
           obj\<lparr>pa_keys := keyArray[nat index := JSInt key], pa_values := valueArray[nat index := val]\<rparr>
         else
           let index = NOT index;
               capacity = cap valueArray;
               newCapacity = max (of_nat DEFAULT_CAPACITY_LENGTH) (push_bit 1 capacity);
               (keyArray, valueArray) =
                 (if sz + 1 \<ge> capacity
                  then (CopyArray keyArray (unat capacity) (unat newCapacity),
                        CopyArray valueArray (unat capacity) (unat newCapacity))
                  else (keyArray, valueArray));
               (keyArray, valueArray) =
                 (if index < sint sz
                  then (AdjustArray False sz keyArray index (sint sz) True,
                        AdjustArray False sz valueArray index (sint sz) True)
                  else (keyArray, valueArray))
           in obj\<lparr>pa_keys := keyArray[nat index := JSInt key], pa_values := valueArray[nat index := val],
                  pa_length := sz + 1\<rparr>)"

definition AdjustForward :: "bool \<Rightarrow> JSAPIPlainArray \<Rightarrow> int \<Rightarrow> int \<Rightarrow> JSAPIPlainArray" where
  "AdjustForward young obj index forwardSize =
     (let sz = pa_length obj
      in obj\<lparr>pa_keys := AdjustPrimitiveArray sz (pa_keys obj) (index + forwardSize) index,
             pa_values := AdjustArray young sz (pa_values obj) (index + forwardSize) index False,
             pa_length := sz - word_of_int forwardSize\<rparr>)"

definition Clear :: "JSAPIPlainArray \<Rightarrow> JSAPIPlainArray" where
  "Clear obj =
     (let sz = unat (pa_length obj);
          (keys, values) = for_up 0 sz (\<lambda>index (keys, values). (keys[index := Hole], values[index := Hole]))
            (pa_keys obj, pa_values obj)
      in obj\<lparr>pa_keys := keys, pa_values := values, pa_length := 0\<rparr>)"

text \<open>The test for the end of the range is in 32-bit arithmetic, which wraps around.\<close>

definition RemoveRangeFrom :: "bool \<Rightarrow> JSAPIPlainArray \<Rightarrow> int \<Rightarrow> int \<Rightarrow> (js_value \<times> JSAPIPlainArray) outcome" where
  "RemoveRangeFrom young obj index batchSize =
     (let sz = sint (pa_length obj)
      in if sz \<le> 0 then Inl empty_error
         else if index < 0 \<or> index \<ge> sz then Inl (range_error (sz - 1) index)
         else if batchSize < 1 then Inl (BusinessError RANGE_ERROR (RangeMsg ''size'' 0 batchSize))
         else let safeSize = (if sint (word_of_int (sz - (index + batchSize)) :: u32) < 0 then sz - index else batchSize)
              in Inr (JSInt safeSize, AdjustForward young obj index safeSize))"

definition Get :: "JSAPIPlainArray \<Rightarrow> int \<Rightarrow> js_value" where
  "Get obj key =
     (let index = BinarySearch (pa_keys obj) 0 (sint (pa_length obj)) key
      in if index < 0 then Undefined else pa_values obj ! nat index)"

definition Set :: "JSAPIPlainArray \<Rightarrow> u32 \<Rightarrow> js_value \<Rightarrow> js_value \<times> JSAPIPlainArray" where
  "Set obj index val = (Undefined, Add obj (int (unat index)) val)"

definition Has :: "JSAPIPlainArray \<Rightarrow> int \<Rightarrow> bool" where
  "Has obj key \<longleftrightarrow> \<not> BinarySearch (pa_keys obj) 0 (sint (pa_length obj)) key < 0"

definition GetOwnProperty :: "JSAPIPlainArray \<Rightarrow> int \<Rightarrow> bool outcome" where
  "GetOwnProperty obj key =
     (let sz = pa_length obj
      in if sz = 0 then Inl empty_error
         else let index = BinarySearch (pa_keys obj) 0 (sint sz) key
              in if index < 0 \<or> index \<ge> sint sz then Inl (range_error (int (unat (sz - 1))) index)
                 else Inr True)"

definition GetProperty :: "JSAPIPlainArray \<Rightarrow> index_key \<Rightarrow> js_value outcome" where
  "GetProperty obj key =
     (let sz = pa_length obj
      in if sz = 0 then Inl empty_error
         else bindO (small_int_arg ''index'' key) (\<lambda>keyVal.
           let index = BinarySearch (pa_keys obj) 0 (sint sz) keyVal
           in if index < 0 \<or> index \<ge> sint sz then Inl (range_error (int (unat (sz - 1))) index)
              else Inr (Get obj index)))"

definition SetProperty :: "JSAPIPlainArray \<Rightarrow> index_key \<Rightarrow> js_value \<Rightarrow> bool \<times> JSAPIPlainArray" where
  "SetProperty obj key val =
     (case TryCastDoubleToInt32 key of
        KeyInt keyVal \<Rightarrow>
          let sz = pa_length obj;
              index = BinarySearch (pa_keys obj) 0 (sint sz) keyVal
          in if index < 0 \<or> index \<ge> sint sz then (False, obj)
             else (True, snd (Set obj (word_of_int index) val))
      | _ \<Rightarrow> (False, obj))"

definition Clone :: "JSAPIPlainArray \<Rightarrow> JSAPIPlainArray" where
  "Clone obj =
     (let len = unat (pa_length obj)
      in \<lparr>pa_keys = NewAndCopyTaggedArray (pa_keys obj) len len,
          pa_values = NewAndCopyTaggedArray (pa_values obj) len len, pa_length = pa_length obj\<rparr>)"

definition GetIndexOfKey :: "JSAPIPlainArray \<Rightarrow> int \<Rightarrow> js_value" where
  "GetIndexOfKey obj key =
     (let index = BinarySearch (pa_keys obj) 0 (sint (pa_length obj)) key
      in if index < 0 then JSInt (- 1) else JSInt index)"

fun IsInt :: "js_value \<Rightarrow> bool" where
  "IsInt (JSInt i) = True"
| "IsInt _ = False"

definition index_or :: "nat option \<Rightarrow> js_value" where
  "index_or r = (case r of Some i \<Rightarrow> JSInt (int i) | None \<Rightarrow> JSInt (- 1))"

definition TryFastGetIndexOfValue :: "JSAPIPlainArray \<Rightarrow> tagged_array \<Rightarrow> js_value \<Rightarrow> js_value" where
  "TryFastGetIndexOfValue obj values val =
     index_or (find (\<lambda>i. IsInt (values ! i) \<and> values ! i = val) [0..<unat (pa_length obj)])"

definition GetIndexOfValue :: "(js_value \<Rightarrow> js_value \<Rightarrow> bool) \<Rightarrow> JSAPIPlainArray \<Rightarrow> js_value \<Rightarrow> js_value" where
  "GetIndexOfValue SameValue obj val =
     (let values = pa_values obj
      in if IsInt val then TryFastGetIndexOfValue obj values val
         else index_or (find (\<lambda>i. SameValue (values ! i) val) [0..<unat (pa_length obj)]))"

definition IsEmpty :: "JSAPIPlainArray \<Rightarrow> bool" where
  "IsEmpty obj \<longleftrightarrow> pa_length obj = 0"

definition GetKeyAt :: "JSAPIPlainArray \<Rightarrow> int \<Rightarrow> js_value" where
  "GetKeyAt obj index =
     (if index < 0 \<or> index \<ge> sint (pa_length obj) then Undefined else pa_keys obj ! nat index)"

definition GetValueAt :: "JSAPIPlainArray \<Rightarrow> int \<Rightarrow> js_value outcome" where
  "GetValueAt obj index =
     (let sz = pa_length obj
      in if sz = 0 then Inl empty_error
         else if index < 0 \<or> index \<ge> sint sz then Inl (range_error (int (unat (sz - 1))) index)
         else Inr (pa_values obj ! nat index))"

definition Remove :: "bool \<Rightarrow> JSAPIPlainArray \<Rightarrow> int \<Rightarrow> js_value \<times> JSAPIPlainArray" where
  "Remove young obj key =
     (let sz = pa_length obj;
          index = BinarySearch (pa_keys obj) 0 (sint sz) key
      in if index < 0 \<or> index \<ge> sint sz then (Undefined, obj)
         else (pa_values obj ! nat index, AdjustForward young obj index 1))"

definition RemoveAt :: "bool \<Rightarrow> JSAPIPlainArray \<Rightarrow> int \<Rightarrow> js_value \<times> JSAPIPlainArray" where
  "RemoveAt young obj seat =
     (if seat < 0 \<or> (word_of_int seat :: u32) \<ge> pa_length obj then (Undefined, obj)
      else (pa_values obj ! nat seat, AdjustForward young obj seat 1))"

definition SetValueAt :: "JSAPIPlainArray \<Rightarrow> int \<Rightarrow> js_value \<Rightarrow> JSAPIPlainArray outcome" where
  "SetValueAt obj seat val =
     (let sz = pa_length obj
      in if sz = 0 then Inl empty_error
         else if seat < 0 \<or> (word_of_int seat :: u32) \<ge> sz then Inl (range_error (int (unat (sz - 1))) seat)
         else Inr (obj\<lparr>pa_values := (pa_values obj)[nat seat := val]\<rparr>))"

text \<open>The text of a value, \<open>to_string\<close>, may fail; it is taken not to change the container.\<close>

definition string_part :: "(js_value \<Rightarrow> string outcome) \<Rightarrow> js_value \<Rightarrow> string outcome" where
  "string_part to_string v = (if v = Undefined \<or> v = Null then Inr [] else to_string v)"

definition to_string_step ::
  "(js_value \<Rightarrow> string outcome) \<Rightarrow> JSAPIPlainArray \<Rightarrow> nat \<Rightarrow> string outcome \<Rightarrow> string outcome" where
  "to_string_step to_string plainarray k st =
     bindO st (\<lambda>concatStr.
     bindO (GetValueAt plainarray (int k)) (\<lambda>v.
     bindO (string_part to_string v) (\<lambda>valueStr.
     bindO (string_part to_string (GetKeyAt plainarray (int k))) (\<lambda>nextStr.
       let nextStr = nextStr @ '':'' @ valueStr
       in Inr (if k > 0 then concatStr @ '','' @ nextStr else concatStr @ nextStr)))))"

definition ToString :: "(js_value \<Rightarrow> string outcome) \<Rightarrow> JSAPIPlainArray \<Rightarrow> string outcome" where
  "ToString to_string plainarray = for_up 0 (unat (pa_length plainarray)) (to_string_step to_string plainarray) (Inr [])"

text \<open>
  \<open>ForEach\<close> keeps the two arrays it starts with. The callback may change the container. Only \<open>Add\<close>
  replaces the arrays, by longer ones, so the arrays that are read are those of the container as
  long as their length is the same, and are no longer written afterwards.
\<close>

type_synonym 'w plain_callback =
  "js_value \<Rightarrow> js_value \<Rightarrow> JSAPIPlainArray \<times> 'w \<Rightarrow> (JSAPIPlainArray \<times> 'w) outcome"

definition plain_foreach_step ::
  "'w plain_callback \<Rightarrow> nat \<Rightarrow> ((tagged_array \<times> tagged_array) \<times> JSAPIPlainArray \<times> 'w) outcome \<Rightarrow>
     ((tagged_array \<times> tagged_array) \<times> JSAPIPlainArray \<times> 'w) outcome" where
  "plain_foreach_step callbackFn k st =
     bindO st (\<lambda>((keyArray, valueArray), plainarray, w).
     bindO (callbackFn (valueArray ! k) (keyArray ! k) (plainarray, w)) (\<lambda>(plainarray, w).
       Inr (if length (pa_keys plainarray) = length keyArray
            then (pa_keys plainarray, pa_values plainarray) else (keyArray, valueArray), plainarray, w)))"

definition ForEach :: "JSAPIPlainArray \<Rightarrow> 'w plain_callback \<Rightarrow> 'w \<Rightarrow> (JSAPIPlainArray \<times> 'w) outcome" where
  "ForEach plainarray callbackFn w =
     bindO (for_up 0 (unat (pa_length plainarray)) (plain_foreach_step callbackFn)
        (Inr ((pa_keys plainarray, pa_values plainarray), plainarray, w))) (\<lambda>(arrays, r). Inr r)"

section \<open>Iterator and built-ins\<close>

record JSAPIPlainArrayIterator =
  pit_over :: bool
  pit_next :: u32

definition NewJSAPIPlainArrayIterator :: "JSAPIPlainArray \<Rightarrow> JSAPIPlainArrayIterator" where
  "NewJSAPIPlainArrayIterator plainarray = \<lparr>pit_over = False, pit_next = 0\<rparr>"

definition Next ::
  "JSAPIPlainArray \<Rightarrow> JSAPIPlainArrayIterator \<Rightarrow> (js_value \<times> js_value) option \<times> JSAPIPlainArrayIterator" where
  "Next plainArray iter =
     (if pit_over iter then (None, iter)
      else let index = pit_next iter
           in if index \<ge> pa_length plainArray then (None, iter\<lparr>pit_over := True\<rparr>)
              else (Some (pa_keys plainArray ! unat index, pa_values plainArray ! unat index),
                    iter\<lparr>pit_next := index + 1\<rparr>))"

definition PlainArrayConstructor :: "bool \<Rightarrow> JSAPIPlainArray outcome" where
  "PlainArrayConstructor newTargetUndefined =
     (if newTargetUndefined then Inl (constructor_error ''PlainArray'')
      else Inr \<lparr>pa_keys = CreateSlot DEFAULT_CAPACITY_LENGTH, pa_values = CreateSlot DEFAULT_CAPACITY_LENGTH, pa_length = 0\<rparr>)"

definition ContainersPlainArray_Add :: "JSAPIPlainArray this_arg \<Rightarrow> index_key \<Rightarrow> js_value \<Rightarrow> (js_value \<times> JSAPIPlainArray) outcome" where
  "ContainersPlainArray_Add self key val =
     bindO (resolve_this ''add'' self) (\<lambda>array.
     bindO (small_int_arg ''key'' key) (\<lambda>key. Inr (Undefined, Add array key val)))"

definition ContainersPlainArray_Clear :: "JSAPIPlainArray this_arg \<Rightarrow> (js_value \<times> JSAPIPlainArray) outcome" where
  "ContainersPlainArray_Clear self = bindO (resolve_this ''clear'' self) (\<lambda>array. Inr (Undefined, Clear array))"

definition ContainersPlainArray_Clone :: "JSAPIPlainArray this_arg \<Rightarrow> JSAPIPlainArray outcome" where
  "ContainersPlainArray_Clone self = bindO (resolve_this ''clone'' self) (\<lambda>array. Inr (Clone array))"

definition ContainersPlainArray_Has :: "JSAPIPlainArray this_arg \<Rightarrow> index_key \<Rightarrow> js_value outcome" where
  "ContainersPlainArray_Has self val =
     bindO (resolve_this ''has'' self) (\<lambda>array.
     bindO (small_int_arg ''key'' val) (\<lambda>key. Inr (tagged_bool (Has array key))))"

definition ContainersPlainArray_Get :: "JSAPIPlainArray this_arg \<Rightarrow> index_key \<Rightarrow> js_value outcome" where
  "ContainersPlainArray_Get self key =
     bindO (resolve_this ''get'' self) (\<lambda>array.
     bindO (small_int_arg ''key'' key) (\<lambda>key. Inr (Get array key)))"

definition ContainersPlainArray_GetIteratorObj :: "JSAPIPlainArray this_arg \<Rightarrow> JSAPIPlainArrayIterator outcome" where
  "ContainersPlainArray_GetIteratorObj self =
     bindO (resolve_this ''Symbol.iterator'' self) (\<lambda>array. Inr (NewJSAPIPlainArrayIterator array))"

definition ContainersPlainArray_ForEach ::
  "JSAPIPlainArray this_arg \<Rightarrow> 'w plain_callback option \<Rightarrow> 'w \<Rightarrow> (JSAPIPlainArray \<times> 'w) outcome" where
  "ContainersPlainArray_ForEach thisHandle callbackFn w =
     bindO (resolve_this ''forEach'' thisHandle) (\<lambda>array.
       case callbackFn of None \<Rightarrow> Inl callback_error | Some fn \<Rightarrow> ForEach array fn w)"

definition ContainersPlainArray_ToString :: "(js_value \<Rightarrow> string outcome) \<Rightarrow> JSAPIPlainArray this_arg \<Rightarrow> string outcome" where
  "ContainersPlainArray_ToString to_string self =
     bindO (resolve_this ''toString'' self) (\<lambda>array. ToString to_string array)"

definition ContainersPlainArray_GetIndexOfKey :: "JSAPIPlainArray this_arg \<Rightarrow> index_key \<Rightarrow> js_value outcome" where
  "ContainersPlainArray_GetIndexOfKey self val =
     bindO (resolve_this ''getIndexOfKey'' self) (\<lambda>array.
     bindO (small_int_arg ''key'' val) (\<lambda>key. Inr (GetIndexOfKey array key)))"

definition ContainersPlainArray_GetIndexOfValue ::
  "(js_value \<Rightarrow> js_value \<Rightarrow> bool) \<Rightarrow> JSAPIPlainArray this_arg \<Rightarrow> js_value \<Rightarrow> js_value outcome" where
  "ContainersPlainArray_GetIndexOfValue SameValue self val =
     bindO (resolve_this ''getIndexOfValue'' self) (\<lambda>array. Inr (GetIndexOfValue SameValue array val))"

definition ContainersPlainArray_IsEmpty :: "JSAPIPlainArray this_arg \<Rightarrow> js_value outcome" where
  "ContainersPlainArray_IsEmpty self = bindO (resolve_this ''isEmpty'' self) (\<lambda>array. Inr (tagged_bool (IsEmpty array)))"

definition ContainersPlainArray_GetKeyAt :: "JSAPIPlainArray this_arg \<Rightarrow> index_key \<Rightarrow> js_value outcome" where
  "ContainersPlainArray_GetKeyAt self val =
     bindO (resolve_this ''getKeyAt'' self) (\<lambda>array.
     bindO (small_int_arg ''index'' val) (\<lambda>index. Inr (GetKeyAt array index)))"

definition ContainersPlainArray_Remove ::
  "bool \<Rightarrow> JSAPIPlainArray this_arg \<Rightarrow> index_key \<Rightarrow> (js_value \<times> JSAPIPlainArray) outcome" where
  "ContainersPlainArray_Remove young self key =
     bindO (resolve_this ''remove'' self) (\<lambda>array.
     bindO (small_int_arg ''key'' key) (\<lambda>key. Inr (Remove young array key)))"

definition ContainersPlainArray_RemoveAt ::
  "bool \<Rightarrow> JSAPIPlainArray this_arg \<Rightarrow> index_key \<Rightarrow> (js_value \<times> JSAPIPlainArray) outcome" where
  "ContainersPlainArray_RemoveAt young self index =
     bindO (resolve_this ''removeAt'' self) (\<lambda>array.
     bindO (small_int_arg ''index'' index) (\<lambda>index. Inr (RemoveAt young array index)))"

definition ContainersPlainArray_RemoveRangeFrom ::
  "bool \<Rightarrow> JSAPIPlainArray this_arg \<Rightarrow> index_key \<Rightarrow> index_key \<Rightarrow> (js_value \<times> JSAPIPlainArray) outcome" where
  "ContainersPlainArray_RemoveRangeFrom young self valueIndex valueSize =
     bindO (resolve_this ''removeRangeFrom'' self) (\<lambda>array.
     bindO (small_int_arg ''index'' valueIndex) (\<lambda>index.
     bindO (small_int_arg ''size'' valueSize) (\<lambda>sz. RemoveRangeFrom young array index sz)))"

text \<open>The result of \<open>SetValueAt\<close> is not looked at; its error stays pending and is thrown.\<close>

definition ContainersPlainArray_SetValueAt ::
  "JSAPIPlainArray this_arg \<Rightarrow> index_key \<Rightarrow> js_value \<Rightarrow> (js_value \<times> JSAPIPlainArray) outcome" where
  "ContainersPlainArray_SetValueAt self index val =
     bindO (resolve_this ''setValueAt'' self) (\<lambda>array.
     bindO (small_int_arg ''index'' index) (\<lambda>index.
     bindO (SetValueAt array index val) (\<lambda>array. Inr (Undefined, array))))"

definition ContainersPlainArray_GetValueAt :: "JSAPIPlainArray this_arg \<Rightarrow> index_key \<Rightarrow> js_value outcome" where
  "ContainersPlainArray_GetValueAt self idx =
     bindO (resolve_this ''getValueAt'' self) (\<lambda>array.
     bindO (small_int_arg ''index'' idx) (\<lambda>index. GetValueAt array index))"

definition ContainersPlainArray_GetSize :: "JSAPIPlainArray this_arg \<Rightarrow> u32 outcome" where
  "ContainersPlainArray_GetSize self = bindO (resolve_this ''getLength'' self) (\<lambda>array. Inr (pa_length array))"

section \<open>Content and invariant\<close>

definition plain_size :: "JSAPIPlainArray \<Rightarrow> nat" where
  "plain_size p = unat (pa_length p)"

definition plain_keys :: "JSAPIPlainArray \<Rightarrow> int list" where
  "plain_keys p = map GetNumber (take (plain_size p) (pa_keys p))"

definition plain_entries :: "JSAPIPlainArray \<Rightarrow> (int \<times> js_value) list" where
  "plain_entries p = zip (plain_keys p) (take (plain_size p) (pa_values p))"

definition plain_map :: "JSAPIPlainArray \<Rightarrow> int \<rightharpoonup> js_value" where
  "plain_map p = map_of (plain_entries p)"

text \<open>The keys are small integers in ascending order, without duplicates.\<close>

definition wf_plain :: "JSAPIPlainArray \<Rightarrow> bool" where
  "wf_plain p \<longleftrightarrow> length (pa_keys p) = length (pa_values p) \<and> plain_size p \<le> length (pa_keys p) \<and>
     length (pa_keys p) \<le> 2 ^ 31 \<and> plain_size p < 2 ^ 31 \<and>
     take (plain_size p) (pa_keys p) = map JSInt (plain_keys p) \<and> sorted_wrt (<) (plain_keys p)"

definition plain_limit :: nat where
  "plain_limit = 2 ^ 30"

lemma wf_plainD:
  assumes "wf_plain p"
  shows "length (pa_keys p) = length (pa_values p)" "plain_size p \<le> length (pa_keys p)" "length (pa_keys p) \<le> 2 ^ 31"
    "take (plain_size p) (pa_keys p) = map JSInt (plain_keys p)" "sorted_wrt (<) (plain_keys p)"
    "length (plain_keys p) = plain_size p" "sint (pa_length p) = int (plain_size p)" "length (plain_entries p) = plain_size p"
    "map fst (plain_entries p) = plain_keys p" "distinct (plain_keys p)"
  using assms sint_nat_small [of "pa_length p"] strict_sorted_iff [of "plain_keys p"]
  by (auto simp: wf_plain_def plain_keys_def plain_entries_def plain_size_def)

lemma plain_key_at: "wf_plain p \<Longrightarrow> i < plain_size p \<Longrightarrow> pa_keys p ! i = JSInt (plain_keys p ! i)"
  using wf_plainD(4,6) [of p] by (metis nth_map nth_take)

lemma plain_entry_at:
  "wf_plain p \<Longrightarrow> i < plain_size p \<Longrightarrow> plain_entries p ! i = (plain_keys p ! i, pa_values p ! i)"
  using wf_plainD(1,2,6) [of p] by (simp add: plain_entries_def)

lemma plain_map_at: "wf_plain p \<Longrightarrow> i < plain_size p \<Longrightarrow> plain_map p (plain_keys p ! i) = Some (pa_values p ! i)"
  using plain_entry_at [of p i] wf_plainD(8,9,10) [of p] unfolding plain_map_def
  by (metis map_of_eq_Some_iff nth_mem)

lemma plain_map_None: "wf_plain p \<Longrightarrow> plain_map p k = None \<longleftrightarrow> k \<notin> set (plain_keys p)"
  using wf_plainD(9) [of p] unfolding plain_map_def map_of_eq_None_iff by (metis list.set_map)

lemma plain_dom:
  assumes "wf_plain p"
  shows "dom (plain_map p) = set (plain_keys p)" "finite (dom (plain_map p))" "card (dom (plain_map p)) = plain_size p"
proof -
  show d: "dom (plain_map p) = set (plain_keys p)" using plain_map_None [OF assms] by (auto simp: dom_def)
  show "finite (dom (plain_map p))" "card (dom (plain_map p)) = plain_size p"
    unfolding d using wf_plainD(6,10) [OF assms] by (simp_all add: distinct_card)
qed

section \<open>Search\<close>

lemma plain_search_ok:
  assumes "wf_plain p"
  shows "bsearch_ok (\<lambda>i. plain_keys p ! i) (plain_size p) key (BinarySearch (pa_keys p) 0 (sint (pa_length p)) key)"
proof -
  note W = wf_plainD [OF assms]
  have "bsearch_ok (\<lambda>i. GetNumber (pa_keys p ! i)) (plain_size p) key
      (binary_search (\<lambda>i. GetNumber (pa_keys p ! i)) key 0 (int (plain_size p) - 1))"
  proof (rule binary_search_array)
    fix i j assume "i \<le> j" "j < plain_size p"
    then show "GetNumber (pa_keys p ! i) \<le> GetNumber (pa_keys p ! j)"
      using sorted_wrt_nth_less [OF W(5), of i j] plain_key_at [OF assms] W(6) by (cases "i = j") simp_all
  qed
  then show ?thesis
    unfolding BinarySearch_def W(7) by (rule bsearch_ok_cong [rotated]) (simp add: plain_key_at [OF assms])
qed

text \<open>The two results of a search: the position of the key, or the position for an insertion.\<close>

lemma plain_search:
  assumes wf: "wf_plain p"
  obtains (found) i where "i < plain_size p" "plain_keys p ! i = key" "BinarySearch (pa_keys p) 0 (sint (pa_length p)) key = int i"
      "plain_map p key = Some (pa_values p ! i)"
  | (missing) i where "i \<le> plain_size p" "BinarySearch (pa_keys p) 0 (sint (pa_length p)) key < 0"
      "NOT (BinarySearch (pa_keys p) 0 (sint (pa_length p)) key) = int i" "plain_map p key = None"
      "\<forall>j < i. plain_keys p ! j < key" "\<forall>j. i \<le> j \<and> j < plain_size p \<longrightarrow> key < plain_keys p ! j"
proof -
  let ?r = "BinarySearch (pa_keys p) 0 (sint (pa_length p)) key"
  note ok = plain_search_ok [OF wf, of key, unfolded bsearch_ok_def]
  show thesis
  proof (cases "0 \<le> ?r")
    case True
    then have "nat ?r < plain_size p" "plain_keys p ! nat ?r = key" using ok by auto
    then show ?thesis using found [of "nat ?r"] True plain_map_at [OF wf, of "nat ?r"] by simp
  next
    case False
    let ?i = "nat (NOT ?r)"
    have i: "?i \<le> plain_size p" "\<forall>j < ?i. plain_keys p ! j < key" "\<forall>j. ?i \<le> j \<and> j < plain_size p \<longrightarrow> key < plain_keys p ! j"
      using ok False by auto
    have "plain_keys p ! j \<noteq> key" if "j < plain_size p" for j using i that by (metis not_le order_less_irrefl)
    then have "plain_map p key = None"
      using plain_map_None [OF wf] wf_plainD(6) [OF wf] by (metis in_set_conv_nth)
    moreover have "NOT ?r = int ?i" using False by (simp add: not_int_def)
    ultimately show ?thesis using missing [of ?i] i False by simp
  qed
qed

lemma plain_find:
  assumes wf: "wf_plain p" and i: "i < plain_size p"
  shows "BinarySearch (pa_keys p) 0 (sint (pa_length p)) (plain_keys p ! i) = int i"
  using wf
proof (cases rule: plain_search [of p "plain_keys p ! i"])
  case (found j)
  then show ?thesis using i wf_plainD(6,10) [OF wf] nth_eq_iff_index_eq by metis
next
  case (missing j)
  then show ?thesis using plain_map_at [OF wf i] by simp
qed

lemma plain_get: "wf_plain p \<Longrightarrow> Get p key = lookup_or Undefined (plain_map p) key"
  by (erule plain_search [of p key]) (simp_all add: Get_def lookup_or_def)

lemma plain_has: "wf_plain p \<Longrightarrow> Has p key \<longleftrightarrow> key \<in> dom (plain_map p)"
  by (erule plain_search [of p key]) (auto simp: Has_def)

section \<open>Insertion\<close>

lemma plain_arrays:
  assumes "take (plain_size p) (pa_keys p) = map JSInt ks"
  shows "plain_keys p = ks" "plain_entries p = zip ks (take (plain_size p) (pa_values p))"
  using assms by (simp_all add: plain_keys_def plain_entries_def comp_def)

lemma plain_wfI:
  assumes "take (plain_size p) (pa_keys p) = map JSInt ks" "sorted_wrt (<) ks" "length (pa_keys p) = length (pa_values p)"
    "plain_size p \<le> length (pa_keys p)" "length (pa_keys p) \<le> 2 ^ 31" "plain_size p < 2 ^ 31"
  shows "wf_plain p"
  using assms plain_arrays(1) [OF assms(1)] by (simp add: wf_plain_def)

lemma plain_add_found:
  fixes v :: js_value
  assumes wf: "wf_plain p" and i: "i < plain_size p" "plain_keys p ! i = key"
  defines "q \<equiv> p\<lparr>pa_keys := (pa_keys p)[i := JSInt key], pa_values := (pa_values p)[i := v]\<rparr>"
  shows "wf_plain q \<and> plain_map q = (plain_map p)(key \<mapsto> v) \<and> plain_keys q = plain_keys p"
proof -
  note W = wf_plainD [OF wf]
  have n: "plain_size q = plain_size p" by (simp add: q_def plain_size_def)
  have "(pa_keys p)[i := JSInt key] = pa_keys p" using plain_key_at [OF wf i(1)] i(2) by (metis list_update_id)
  then have k: "take (plain_size q) (pa_keys q) = map JSInt (plain_keys p)" unfolding n by (simp add: q_def W(4))
  have v: "take (plain_size q) (pa_values q) = (take (plain_size p) (pa_values p))[i := v]"
    unfolding n by (simp add: q_def take_update_swap)
  have "wf_plain q" by (rule plain_wfI [OF k W(5)]) (use wf n in \<open>simp_all add: q_def wf_plain_def\<close>)
  moreover have "plain_entries q = (plain_entries p)[i := (key, v)]"
    unfolding plain_arrays(2) [OF k] v plain_entries_def [of p]
    using update_zip [of "plain_keys p" _ i "(key, v)"] list_update_id [of "plain_keys p" i] i(2) by simp
  moreover have "map_of ((plain_entries p)[i := (key, v)]) = (plain_map p)(key \<mapsto> v)"
    unfolding plain_map_def
    by (rule map_of_replace) (use i W plain_entry_at [OF wf i(1)] in \<open>simp_all\<close>)
  ultimately show ?thesis using plain_arrays(1) [OF k] by (simp add: plain_map_def)
qed

lemma sorted_insert_at:
  fixes ks :: "'a :: linorder list"
  assumes "sorted_wrt (<) ks" "\<forall>j < i. ks ! j < key" "\<forall>j. i \<le> j \<and> j < length ks \<longrightarrow> key < ks ! j" "i \<le> length ks"
  shows "sorted_wrt (<) (take i ks @ key # drop i ks)"
proof -
  have "\<forall>x \<in> set (take i ks). x < key" "\<forall>x \<in> set (drop i ks). key < x"
    using assms(2-4) by (auto simp: in_set_conv_nth)
  then show ?thesis using assms(1) by (auto simp: sorted_wrt_append sorted_wrt_take sorted_wrt_drop intro: less_trans)
qed

lemma plain_insert:
  assumes wf: "wf_plain p" and i: "i \<le> plain_size p" "\<forall>j < i. plain_keys p ! j < key"
    "\<forall>j. i \<le> j \<and> j < plain_size p \<longrightarrow> key < plain_keys p ! j"
    and q: "plain_size q = Suc (plain_size p)" "length (pa_keys q) = length (pa_values q)" "length (pa_keys q) \<le> 2 ^ 31"
      "plain_size q < 2 ^ 31" "plain_size q \<le> length (pa_keys q)"
      "take (plain_size q) (pa_keys q) =
        take i (take (plain_size p) (pa_keys p)) @ JSInt key # drop i (take (plain_size p) (pa_keys p))"
      "take (plain_size q) (pa_values q) =
        take i (take (plain_size p) (pa_values p)) @ v # drop i (take (plain_size p) (pa_values p))"
  shows "wf_plain q \<and> plain_map q = (plain_map p)(key \<mapsto> v) \<and> plain_keys q = take i (plain_keys p) @ key # drop i (plain_keys p)"
proof -
  note W = wf_plainD [OF wf]
  let ?ks = "take i (plain_keys p) @ key # drop i (plain_keys p)"
  have k: "take (plain_size q) (pa_keys q) = map JSInt ?ks" unfolding q(6) W(4) by (simp add: take_map drop_map)
  have s: "sorted_wrt (<) ?ks" by (rule sorted_insert_at [OF W(5) i(2)]) (use i(1,3) W(6) in auto)
  have wq: "wf_plain q" by (rule plain_wfI [OF k s q(2,5,3,4)])
  have key: "key \<notin> set (plain_keys p)"
    using i W(6) by (metis in_set_conv_nth leI order_less_irrefl)
  have "plain_entries q = take i (plain_entries p) @ (key, v) # drop i (plain_entries p)"
    unfolding plain_arrays(2) [OF k] q(7) plain_entries_def [of p] using i(1) W(1,2,6)
    by (simp add: take_zip drop_zip zip_append)
  moreover have "key \<notin> fst ` set (take i (plain_entries p))"
    using key W(9) set_take_subset [of i "plain_entries p"] by (metis image_mono list.set_map subsetD)
  ultimately have "plain_map q = (map_of (take i (plain_entries p) @ drop i (plain_entries p)))(key \<mapsto> v)"
    unfolding plain_map_def using map_of_insert by metis
  then show ?thesis using wq plain_arrays(1) [OF k] by (simp add: plain_map_def)
qed

lemma plain_capacity:
  assumes "length a \<le> 2 ^ 30"
  shows "unat (max (of_nat DEFAULT_CAPACITY_LENGTH) (push_bit 1 (cap a))) = max 8 (2 * length a)"
proof -
  have "unat (push_bit 1 (cap a)) = 2 * length a"
    using assms unat_cap [of a] by (simp add: push_bit_eq_mult unat_word_ariths)
  then show ?thesis by (simp add: max_def DEFAULT_CAPACITY_LENGTH_def word_le_nat_alt)
qed

lemma plain_add_missing:
  fixes v :: js_value
  assumes wf: "wf_plain p" and lim: "plain_size p < plain_limit" and i: "i \<le> plain_size p"
    and "BinarySearch (pa_keys p) 0 (sint (pa_length p)) key < 0"
      "NOT (BinarySearch (pa_keys p) 0 (sint (pa_length p)) key) = int i"
  defines "q \<equiv> Add p key v" and "n \<equiv> plain_size p"
  shows "plain_size q = Suc n" "length (pa_keys q) = length (pa_values q)" "length (pa_keys q) \<le> 2 ^ 31"
    "plain_size q \<le> length (pa_keys q)"
    "take (plain_size q) (pa_keys q) = take i (take n (pa_keys p)) @ JSInt key # drop i (take n (pa_keys p))"
    "take (plain_size q) (pa_values q) = take i (take n (pa_values p)) @ v # drop i (take n (pa_values p))"
proof -
  note W = wf_plainD [OF wf]
  let ?c = "length (pa_values p)" and ?grow = "length (pa_values p) \<le> Suc n"
  let ?new = "max 8 (2 * length (pa_values p))"
  let ?ins = "\<lambda>a v. (let g = if ?grow then CopyArray a (length a) ?new else a
    in (if i < n then shift_up n i n g else g)[i := v])"
  have capu: "unat (cap (pa_values p)) = ?c" using unat_cap [of "pa_values p"] W(1,3) by simp
  have su: "unat (pa_length p + 1) = Suc n"
    using lim by (simp add: n_def plain_size_def plain_limit_def unat_word_ariths)
  have grow: "pa_length p + 1 \<ge> cap (pa_values p) \<longleftrightarrow> ?grow" by (simp add: word_le_nat_alt capu su)
  have newc: "unat (max (of_nat DEFAULT_CAPACITY_LENGTH) (push_bit 1 (cap (pa_values p)))) = ?new" if ?grow
    using that lim by (intro plain_capacity) (simp add: n_def plain_limit_def)
  define r where "r = BinarySearch (pa_keys p) 0 (sint (pa_length p)) key"
  have r: "\<not> 0 \<le> r" "NOT r = int i" using assms by (simp_all add: r_def)
  have "sint (pa_length p) = int n" "unat (pa_length p) = n" by (simp_all add: W(7) n_def plain_size_def)
  then have q: "q = p\<lparr>pa_keys := ?ins (pa_keys p) (JSInt key), pa_values := ?ins (pa_values p) v, pa_length := pa_length p + 1\<rparr>"
    unfolding q_def Add_def r_def [symmetric] r(2) Let_def grow using r(1) newc
    by (auto simp: AdjustArray_def W(1) capu)
  show sz: "plain_size q = Suc n" using su by (simp add: q plain_size_def)
  have b: "?grow \<Longrightarrow> ?c < ?new \<and> n < ?new" "\<not> ?grow \<Longrightarrow> n < ?c" "i \<le> n" "n \<le> ?c"
    using i W(1,2) by (auto simp: n_def)
  have kv: "pa_keys q = ?ins (pa_keys p) (JSInt key)" "pa_values q = ?ins (pa_values p) v" by (simp_all add: q)
  note K = insert_slot [of i n "pa_keys p" ?grow ?new "JSInt key", unfolded W(1), OF b(3,4,1,2)]
    and V = insert_slot [of i n "pa_values p" ?grow ?new v, OF b(3,4,1,2)]
  have len: "length (pa_keys q) = (if ?grow then ?new else ?c)" unfolding kv Let_def W(1) by (rule K(2))
  have "length (pa_values q) = (if ?grow then ?new else ?c)" unfolding kv Let_def by (rule V(2))
  then show "length (pa_keys q) = length (pa_values q)" unfolding len by simp
  show "length (pa_keys q) \<le> 2 ^ 31" unfolding len using W(1,3) lim by (simp add: plain_limit_def n_def)
  show "plain_size q \<le> length (pa_keys q)" unfolding len sz using b by auto
  show "take (plain_size q) (pa_keys q) = take i (take n (pa_keys p)) @ JSInt key # drop i (take n (pa_keys p))"
    unfolding sz kv Let_def W(1) by (rule K(1))
  show "take (plain_size q) (pa_values q) = take i (take n (pa_values p)) @ v # drop i (take n (pa_values p))"
    unfolding sz kv Let_def by (rule V(1))
qed

lemma plain_add:
  assumes wf: "wf_plain p" and lim: "plain_size p < plain_limit"
  shows "wf_plain (Add p key v) \<and> plain_map (Add p key v) = (plain_map p)(key \<mapsto> v)"
  using wf
proof (cases rule: plain_search [of p key])
  case (found i)
  then have "Add p key v = p\<lparr>pa_keys := (pa_keys p)[i := JSInt key], pa_values := (pa_values p)[i := v]\<rparr>"
    by (simp add: Add_def Let_def)
  then show ?thesis using plain_add_found [OF wf found(1,2), of v] by simp
next
  case (missing i)
  note A = plain_add_missing [OF wf lim missing(1,2,3), of v]
  have "plain_size (Add p key v) < 2 ^ 31" using A(1) lim by (simp add: plain_limit_def)
  then show ?thesis using plain_insert [OF wf missing(1,5,6) A(1-3) _ A(4-6)] by simp
qed

section \<open>Removal\<close>

lemma take_slice_drop: "xs = take i xs @ take m (drop i xs) @ drop (i + m) xs"
  by (metis append_take_drop_id drop_drop add.commute)

lemma sorted_drop_slice: "sorted_wrt R ks \<Longrightarrow> sorted_wrt R (take i ks @ drop (i + m) ks)"
proof -
  assume "sorted_wrt R ks"
  then have "sorted_wrt R (take i ks @ take m (drop i ks) @ drop (i + m) ks)" using take_slice_drop [of ks i m] by simp
  then show ?thesis by (simp add: sorted_wrt_append)
qed

lemma plain_forward:
  fixes young :: bool
  assumes wf: "wf_plain p" and m: "0 < m" "i + m \<le> plain_size p"
  defines "q \<equiv> AdjustForward young p (int i) (int m)"
  shows "wf_plain q" "plain_keys q = take i (plain_keys p) @ drop (i + m) (plain_keys p)"
    "plain_entries q = take i (plain_entries p) @ drop (i + m) (plain_entries p)"
proof -
  note W = wf_plainD [OF wf]
  let ?n = "plain_size p" and ?down = "\<lambda>a. shift_down (plain_size p) (i + m) i a"
  have q: "q = p\<lparr>pa_keys := ?down (pa_keys p), pa_values := ?down (pa_values p), pa_length := pa_length p - of_nat m\<rparr>"
    by (simp add: q_def AdjustForward_def AdjustPrimitiveArray_def AdjustArray_def Let_def plain_size_def nat_int_add)
  have um: "unat (of_nat m :: u32) = m"
    using m(2) wf by (simp add: unat_of_nat wf_plain_def)
  have n: "plain_size q = ?n - m"
    using m um by (simp add: q plain_size_def) (subst unat_sub; simp add: word_le_nat_alt plain_size_def)
  have lt: "i < i + m" "i + m \<le> ?n" "?n \<le> length (pa_keys p)" "?n \<le> length (pa_values p)" using m W(1,2) by auto
  note K = shift_down_eq [OF lt(1-3)] and V = shift_down_eq [OF lt(1,2,4)]
  have arr: "pa_keys q = ?down (pa_keys p)" "pa_values q = ?down (pa_values p)" by (simp_all add: q)
  have down: "take (?n - m) (?down a) = take i (take ?n a) @ drop (i + m) (take ?n a)" if "?n \<le> length a" for a
    using shift_down_eq(1) [OF lt(1,2) that] lt(1,2) by (simp add: min_absorb1)
  have k: "take (plain_size q) (pa_keys q) = map JSInt (take i (plain_keys p) @ drop (i + m) (plain_keys p))"
    unfolding n arr down [OF lt(3)] W(4) by (simp add: take_map drop_map)
  show "plain_keys q = take i (plain_keys p) @ drop (i + m) (plain_keys p)" by (rule plain_arrays(1) [OF k])
  show "wf_plain q"
    by (rule plain_wfI [OF k sorted_drop_slice [OF W(5)]]) (use W lt m wf in \<open>auto simp: n arr K(2) V(2) wf_plain_def\<close>)
  have "take (plain_size q) (pa_values q) = take i (take ?n (pa_values p)) @ drop (i + m) (take ?n (pa_values p))"
    unfolding n arr by (rule down [OF lt(4)])
  then show "plain_entries q = take i (plain_entries p) @ drop (i + m) (plain_entries p)"
    unfolding plain_arrays(2) [OF k] plain_entries_def [of p] using W(1,2,6) by (simp add: take_zip drop_zip)
qed

lemma plain_remove_slice:
  assumes wf: "wf_plain p" and m: "0 < m" "i + m \<le> plain_size p"
  shows "plain_map (AdjustForward young p (int i) (int m)) = plain_map p |` (- set (take m (drop i (plain_keys p))))"
proof -
  note W = wf_plainD [OF wf]
  let ?es = "plain_entries p"
  have es: "?es = take i ?es @ take m (drop i ?es) @ drop (i + m) ?es"
    by (rule take_slice_drop)
  have "distinct (map fst (take i ?es @ take m (drop i ?es) @ drop (i + m) ?es))" using W(9,10) es by metis
  then have "map_of (take i ?es @ drop (i + m) ?es) = map_of ?es |` (- fst ` set (take m (drop i ?es)))"
    using map_of_slice es by metis
  moreover have "fst ` set (take m (drop i ?es)) = set (take m (drop i (plain_keys p)))"
    unfolding W(9) [symmetric] by (simp add: take_map drop_map)
  ultimately show ?thesis using plain_forward(3) [OF wf m] by (simp add: plain_map_def)
qed

lemma plain_remove_one:
  fixes young :: bool
  assumes wf: "wf_plain p" and i: "i < plain_size p"
  defines "q \<equiv> AdjustForward young p (int i) 1"
  shows "wf_plain q" "plain_map q = (plain_map p)(plain_keys p ! i := None)"
proof -
  have m: "0 < (1 :: nat)" "i + 1 \<le> plain_size p" using i by auto
  show "wf_plain q" using plain_forward(1) [OF wf m] by (simp add: q_def)
  have "take 1 (drop i (plain_keys p)) = [plain_keys p ! i]"
    using i wf_plainD(6) [OF wf] by (simp add: take_Suc_conv_app_nth)
  then show "plain_map q = (plain_map p)(plain_keys p ! i := None)"
    using plain_remove_slice [OF wf m] by (auto simp: q_def restrict_map_def fun_eq_iff)
qed

lemma plain_remove:
  assumes wf: "wf_plain p"
  shows "wf_plain (snd (Remove young p key)) \<and> fst (Remove young p key) = lookup_or Undefined (plain_map p) key \<and>
    plain_map (snd (Remove young p key)) = (plain_map p)(key := None)"
  using wf
proof (cases rule: plain_search [of p key])
  case (found i)
  then have "Remove young p key = (pa_values p ! i, AdjustForward young p (int i) 1)"
    using wf_plainD(7) [OF wf] by (simp add: Remove_def Let_def)
  then show ?thesis using plain_remove_one [OF wf found(1)] found by (simp add: lookup_or_def)
next
  case (missing i)
  then have "Remove young p key = (Undefined, p)" by (simp add: Remove_def Let_def)
  moreover have "(plain_map p)(key := None) = plain_map p" using missing(4) by auto
  ultimately show ?thesis using wf missing(4) by (simp add: lookup_or_def)
qed

interpretation plain: map_container wf_plain plain_map Add Get "Remove young" Undefined plain_limit
  for young
  by unfold_locales (use plain_dom plain_add plain_get plain_remove in auto)

lemma wf_new_plain: "PlainArrayConstructor False = Inr p \<Longrightarrow> wf_plain p \<and> plain_map p = Map.empty \<and> plain_size p = 0"
  by (auto simp: PlainArrayConstructor_def wf_plain_def plain_size_def plain_keys_def plain_map_def plain_entries_def
      CreateSlot_def NewTaggedArray_def DEFAULT_CAPACITY_LENGTH_def)



lemma plain_clone:
  assumes "wf_plain p"
  shows "wf_plain (Clone p) \<and> plain_entries (Clone p) = plain_entries p"
proof -
  note W = wf_plainD [OF assms]
  have c: "pa_keys (Clone p) = take (plain_size p) (pa_keys p)" "pa_values (Clone p) = take (plain_size p) (pa_values p)"
    "plain_size (Clone p) = plain_size p"
    using W(1,2) by (simp_all add: Clone_def Let_def plain_size_def NewAndCopyTaggedArray_same)
  then have k: "take (plain_size (Clone p)) (pa_keys (Clone p)) = map JSInt (plain_keys p)" using W(4,6) by simp
  have "wf_plain (Clone p)" by (rule plain_wfI [OF k W(5)]) (use assms c W(6) in \<open>auto simp: wf_plain_def\<close>)
  then show ?thesis unfolding plain_arrays(2) [OF k] by (simp add: c plain_entries_def)
qed

lemma plain_size_pos: "wf_plain p \<Longrightarrow> pa_length p = 0 \<longleftrightarrow> plain_size p = 0"
  by (simp add: plain_size_def unat_eq_0)

lemma plain_last_index: "0 < plain_size p \<Longrightarrow> int (unat (pa_length p - 1)) = int (plain_size p) - 1"
proof -
  assume "0 < plain_size p"
  then have "1 \<le> pa_length p" by (simp add: plain_size_def word_le_nat_alt)
  then have "unat (pa_length p - 1) = plain_size p - 1" by (simp add: unat_sub plain_size_def)
  then show ?thesis using \<open>0 < plain_size p\<close> by simp
qed

interpretation plain_iterator: index_iterator wf_plain
  "\<lambda>p. map (\<lambda>(k, v). (JSInt k, v)) (plain_entries p)" Next "\<lambda>i. \<lparr>pit_over = False, pit_next = i\<rparr>"
proof unfold_locales
  fix p and i :: u32
  assume wf: "wf_plain p"
  note W = wf_plainD [OF wf]
  let ?es = "map (\<lambda>(k, v). (JSInt k, v)) (plain_entries p)"
  show "length ?es < 2 ^ 32" using wf W(8) by (simp add: wf_plain_def)
  show "Next p \<lparr>pit_over = False, pit_next = i\<rparr> = (Some (?es ! unat i), \<lparr>pit_over = False, pit_next = i + 1\<rparr>)"
    if "unat i < length ?es"
  proof -
    have i: "unat i < plain_size p" using that W(8) by simp
    then have "\<not> pa_length p \<le> i" by (simp add: plain_size_def word_le_nat_alt)
    then show ?thesis using i W(8) plain_entry_at [OF wf i] plain_key_at [OF wf i] by (simp add: Next_def Let_def)
  qed
  show "fst (Next p \<lparr>pit_over = False, pit_next = i\<rparr>) = None" if "unat i = length ?es"
    using that W(8) by (simp add: Next_def Let_def plain_size_def word_le_nat_alt)
qed

lemma plain_foreach_loop:
  assumes wf: "wf_plain p" and fn: "\<And>v k w. fn v k (p, w) = Inr (p, f v k w)" and n: "n \<le> plain_size p"
  shows "for_up 0 n (plain_foreach_step fn) (Inr ((pa_keys p, pa_values p), p, w)) =
    Inr ((pa_keys p, pa_values p), p, fold (\<lambda>(k, v). f v (JSInt k)) (take n (plain_entries p)) w)"
  using n
proof (induction n)
  case (Suc n)
  then have e: "take (Suc n) (plain_entries p) = take n (plain_entries p) @ [(plain_keys p ! n, pa_values p ! n)]"
    using wf_plainD(8) [OF wf] plain_entry_at [OF wf, of n] by (simp add: take_Suc_conv_app_nth)
  show ?case using Suc plain_key_at [OF wf, of n] by (simp add: for_up_Suc plain_foreach_step_def fn e)
qed simp

lemma plain_foreach:
  assumes "wf_plain p" "\<And>v k w. fn v k (p, w) = Inr (p, f v k w)"
  shows "ForEach p fn w = Inr (p, fold (\<lambda>(k, v). f v (JSInt k)) (plain_entries p) w)"
  using plain_foreach_loop [of p fn f, OF assms order_refl, of w] wf_plainD(8) [OF assms(1)]
  by (simp add: ForEach_def plain_size_def)

section \<open>Theorems\<close>

text \<open>
  C29: the plain array refines a finite map. Any sequence of \<open>add\<close>, \<open>get\<close> and \<open>remove\<close> on a new plain
  array returns what the map returns and leaves its content, through every growth of the two arrays
  and every move of their slots.
\<close>

theorem plain_refines_map:
  assumes "PlainArrayConstructor False = Inr p" "length ops \<le> plain_limit"
  shows "\<exists>outs q. map_run Add Get (Remove young) ops p = (outs, q) \<and> wf_plain q \<and>
    map_run (\<lambda>m k v. m(k \<mapsto> v)) (lookup_or Undefined) (\<lambda>m k. (lookup_or Undefined m k, m(k := None))) ops Map.empty =
      (outs, plain_map q)"
  using plain.map_run_refines [of p ops young] wf_new_plain [OF assms(1)] assms(2) by (auto simp: Let_def)

theorem plain_refines_map_witness:
  "\<exists>p outs q. PlainArrayConstructor False = Inr p \<and>
     map_run Add Get (Remove True) [Put 5 (JSInt 1), Put (- 3) Null, Lookup 5, Delete 5, Lookup 5] p = (outs, q) \<and>
     outs = [JSInt 1, JSInt 1, Undefined] \<and> plain_map q = [- 3 \<mapsto> Null]"
proof -
  obtain p where p: "PlainArrayConstructor False = Inr p" by (simp add: PlainArrayConstructor_def)
  let ?ops = "[Put 5 (JSInt 1), Put (- 3) Null, Lookup 5, Delete 5, Lookup 5]"
  obtain outs q where q: "map_run Add Get (Remove True) ?ops p = (outs, q)"
    "map_run (\<lambda>m k v. m(k \<mapsto> v)) (lookup_or Undefined) (\<lambda>m k. (lookup_or Undefined m k, m(k := None))) ?ops Map.empty =
      (outs, plain_map q)"
    using plain_refines_map [OF p, of ?ops True] by (auto simp: plain_limit_def)
  then have "outs = [JSInt 1, JSInt 1, Undefined]" "plain_map q = [- 3 \<mapsto> Null]"
    by (auto simp: lookup_or_def fun_eq_iff)
  then show ?thesis using p q(1) by blast
qed



text \<open>
  C31: property access does not address entries by their keys. For a key that is in the plain array
  at position \<open>i\<close>, reading the property returns the value of the key \<open>i\<close>, and writing it sets the value of
  the key \<open>i\<close>, or adds such an entry; both are what the key asks for only if it equals its position.
\<close>

theorem plain_property_by_position:
  assumes wf: "wf_plain p" and i: "i < plain_size p" and lim: "plain_size p < plain_limit"
  shows "GetProperty p (KeyInt (plain_keys p ! i)) = Inr (lookup_or Undefined (plain_map p) (int i)) \<and>
    (\<exists>q. SetProperty p (KeyInt (plain_keys p ! i)) v = (True, q) \<and> wf_plain q \<and> plain_map q = (plain_map p)(int i \<mapsto> v))"
proof -
  note W = wf_plainD [OF wf]
  note r = plain_find [OF wf i, unfolded W(7)]
  have g: "GetProperty p (KeyInt (plain_keys p ! i)) = Inr (Get p (int i))"
    using i plain_size_pos [OF wf] unfolding GetProperty_def Let_def small_int_arg_def by (simp add: r W(7))
  have u: "int (unat (word_of_int (int i) :: u32)) = int i" using i wf by (simp add: wf_plain_def unat_of_nat)
  have s: "SetProperty p (KeyInt (plain_keys p ! i)) v = (True, Add p (int i) v)"
    using i u unfolding SetProperty_def Let_def Set_def by (simp add: r W(7))
  show ?thesis using g s plain_get [OF wf] plain_add [OF wf lim, of "int i" v] by simp
qed

theorem plain_property_by_position_witness:
  "let p = \<lparr>pa_keys = [JSInt 7, Hole], pa_values = [JSTrue, Hole], pa_length = 1\<rparr> in
   Get p 7 = JSTrue \<and> GetProperty p (KeyInt 7) = Inr Undefined"
proof -
  let ?p = "\<lparr>pa_keys = [JSInt 7, Hole], pa_values = [JSTrue, Hole], pa_length = 1\<rparr>"
  have n: "plain_size ?p = 1" by (simp add: plain_size_def)
  have wf: "wf_plain ?p" and k: "plain_keys ?p = [7]" and m: "plain_map ?p = [7 \<mapsto> JSTrue]"
    by (simp_all add: wf_plain_def plain_keys_def plain_map_def plain_entries_def n)
  show ?thesis
    using plain_property_by_position [OF wf, of 0 Null] plain_get [OF wf, of 7] unfolding n k m Let_def
    by (simp add: plain_limit_def lookup_or_def)
qed

text \<open>
  C32: positions and keys agree. The entry at a position is found again by its key, \<open>getKeyAt\<close>,
  \<open>getValueAt\<close>, \<open>getIndexOfKey\<close> and \<open>get\<close> describe the same entries, \<open>clone\<close> copies them all, and the iterator and
  \<open>forEach\<close> visit exactly them in ascending order of the keys.
\<close>

theorem plain_positions_agree:
  assumes wf: "wf_plain p"
  shows "(\<forall>i < plain_size p. let (k, v) = plain_entries p ! i in
      GetKeyAt p (int i) = JSInt k \<and> GetValueAt p (int i) = Inr v \<and> GetIndexOfKey p k = JSInt (int i) \<and> Get p k = v) \<and>
    sorted_wrt (<) (map fst (plain_entries p)) \<and> plain_entries (Clone p) = plain_entries p \<and>
    fst (drain (Suc (plain_size p) + m) (Next p) (NewJSAPIPlainArrayIterator p)) =
      map (\<lambda>(k, v). (JSInt k, v)) (plain_entries p) \<and>
    ContainersPlainArray_ForEach (ThisContainer p) (Some (\<lambda>v k (p, w). Inr (p, f v k w))) w =
      Inr (p, fold (\<lambda>(k, v). f v (JSInt k)) (plain_entries p) w)"
proof (intro conjI allI impI)
  note W = wf_plainD [OF wf]
  fix i assume i: "i < plain_size p"
  show "let (k, v) = plain_entries p ! i in
      GetKeyAt p (int i) = JSInt k \<and> GetValueAt p (int i) = Inr v \<and> GetIndexOfKey p k = JSInt (int i) \<and> Get p k = v"
    using i plain_entry_at [OF wf i] plain_key_at [OF wf i] plain_find [OF wf i] plain_size_pos [OF wf] W(7)
    by (simp add: GetKeyAt_def GetValueAt_def GetIndexOfKey_def Let_def Get_def)
next
  show "sorted_wrt (<) (map fst (plain_entries p))" using wf_plainD(5,9) [OF wf] by simp
  show "plain_entries (Clone p) = plain_entries p" using plain_clone [OF wf] by simp
  show "fst (drain (Suc (plain_size p) + m) (Next p) (NewJSAPIPlainArrayIterator p)) = map (\<lambda>(k, v). (JSInt k, v)) (plain_entries p)"
    using plain_iterator.drain_all [OF wf, of m] wf_plainD(8) [OF wf] by (simp add: NewJSAPIPlainArrayIterator_def del: drain.simps)
  show "ContainersPlainArray_ForEach (ThisContainer p) (Some (\<lambda>v k (p, w). Inr (p, f v k w))) w =
      Inr (p, fold (\<lambda>(k, v). f v (JSInt k)) (plain_entries p) w)"
    using plain_foreach [OF wf, of "\<lambda>v k (p, w). Inr (p, f v k w)" f w] by (simp add: ContainersPlainArray_ForEach_def)
qed

theorem plain_positions_agree_witness:
  "let p = \<lparr>pa_keys = [JSInt 1, JSInt 4, Hole], pa_values = [Null, JSTrue, Hole], pa_length = 2\<rparr> in
   GetIndexOfKey p 4 = JSInt 1 \<and> fst (drain 3 (Next p) (NewJSAPIPlainArrayIterator p)) = [(JSInt 1, Null), (JSInt 4, JSTrue)]"
proof -
  let ?p = "\<lparr>pa_keys = [JSInt 1, JSInt 4, Hole], pa_values = [Null, JSTrue, Hole], pa_length = 2\<rparr>"
  have n: "plain_size ?p = 2" by (simp add: plain_size_def)
  have wf: "wf_plain ?p" and l: "plain_entries ?p = [(1, Null), (4, JSTrue)]"
    by (simp_all add: wf_plain_def plain_keys_def plain_entries_def n)
  have s: "Suc (plain_size ?p) + 0 = 3" by (simp add: n)
  note P = plain_positions_agree [OF wf, of 0 "\<lambda>v k w. w" "()", unfolded s l n]
  have "GetIndexOfKey ?p 4 = JSInt 1" using spec [OF conjunct1 [OF P], of 1] by simp
  then show ?thesis using P unfolding Let_def by (simp del: drain.simps)
qed

end
