(* ===== verification/JSAPI_LightWeightSet.thy ===== *)
theory JSAPI_LightWeightSet
  imports JSAPI_PlainArray
begin

text \<open>
  The set of ecmascript/js_api/js_api_lightweightset.cpp: an array of hashes in ascending order and an
  array of the values, its iterator (js_api_lightweightset_iterator.cpp) and the built-ins of
  ecmascript/containers/containers_lightweightset.cpp. The array of the values may be shared with
  the script arrays that \<open>toArray\<close> returned, so it is kept in a store of arrays.
\<close>

unbundle bit_operations_syntax

section \<open>State\<close>

text \<open>
  A store of value arrays, each with the flag that it is copied on write (\<open>IsCOWArray\<close>). An address is
  a position in the store.
\<close>

type_synonym array_store = "(bool \<times> tagged_array) list"

record JSAPILightWeightSet =
  lw_hashes :: tagged_array
  lw_values :: nat
  lw_length :: u32

type_synonym lw_state = "JSAPILightWeightSet \<times> array_store"

definition values_of :: "lw_state \<Rightarrow> tagged_array" where
  "values_of st = (case st of (obj, h) \<Rightarrow> snd (h ! lw_values obj))"

definition is_cow :: "lw_state \<Rightarrow> bool" where
  "is_cow st = (case st of (obj, h) \<Rightarrow> fst (h ! lw_values obj))"

text \<open>Writing the array in place, and giving the set a new array.\<close>

definition write_values :: "tagged_array \<Rightarrow> lw_state \<Rightarrow> lw_state" where
  "write_values a st = (case st of (obj, h) \<Rightarrow> (obj, h[lw_values obj := (fst (h ! lw_values obj), a)]))"

definition SetValues :: "bool \<Rightarrow> tagged_array \<Rightarrow> lw_state \<Rightarrow> lw_state" where
  "SetValues cow a st = (case st of (obj, h) \<Rightarrow> (obj\<lparr>lw_values := length h\<rparr>, h @ [(cow, a)]))"


section \<open>Operations\<close>


definition CheckAndCopyValues :: "lw_state \<Rightarrow> lw_state" where
  "CheckAndCopyValues st =
     (if is_cow st
      then let values = values_of st in SetValues False (CopyArray values (length values) (length values)) st
      else st)"

text \<open>
  A slot of the array of hashes holds the hash as a number; \<open>Hash\<close> is an argument of the operations,
  because the hash of a string or an object is found outside of this component.
\<close>

definition hash_at :: "tagged_array \<Rightarrow> nat \<Rightarrow> u32" where
  "hash_at hashArray i = word_of_int (GetNumber (hashArray ! i))"

definition hash_value :: "u32 \<Rightarrow> js_value" where
  "hash_value hashCode = JSInt (uint hashCode)"

definition BinarySearchHashes :: "lw_state \<Rightarrow> u32 \<Rightarrow> int \<Rightarrow> int" where
  "BinarySearchHashes st hash sz = binary_search (\<lambda>mid. hash_at (lw_hashes (fst st)) mid) hash 0 (sz - 1)"

text \<open>The two loops over the slots with the same hash: upwards, then downwards from the slot below.\<close>

function search_right ::
  "(nat \<Rightarrow> bool) \<Rightarrow> (nat \<Rightarrow> bool) \<Rightarrow> nat \<Rightarrow> nat \<Rightarrow> nat + nat" where
  "search_right same_hash same_value sz right =
     (if right < sz \<and> same_hash right then
        if same_value right then Inl right else search_right same_hash same_value sz (right + 1)
      else Inr right)"
  by pat_completeness auto
termination
  by (relation "measure (\<lambda>(same_hash, same_value, sz, right). sz - right)") auto

declare search_right.simps [simp del]

primrec search_left :: "(nat \<Rightarrow> bool) \<Rightarrow> (nat \<Rightarrow> bool) \<Rightarrow> nat \<Rightarrow> nat option" where
  "search_left same_hash same_value 0 = None"
| "search_left same_hash same_value (Suc left) =
     (if same_hash left then if same_value left then Some left else search_left same_hash same_value left else None)"

definition GetHashIndex ::
  "(js_value \<Rightarrow> u32) \<Rightarrow> (js_value \<Rightarrow> js_value \<Rightarrow> bool) \<Rightarrow> lw_state \<Rightarrow> js_value \<Rightarrow> int \<Rightarrow> int" where
  "GetHashIndex Hash SameValue st val sz =
     (let hashCode = Hash val;
          index = BinarySearchHashes st hashCode sz
      in if index < 0 then index
         else let same_value = (\<lambda>i. SameValue (values_of st ! i) val);
                  same_hash = (\<lambda>i. hash_at (lw_hashes (fst st)) i = hashCode)
              in if index < sz \<and> same_value (nat index) then index
                 else case search_right same_hash same_value (nat sz) (nat index) of
                   Inl i \<Rightarrow> int i
                 | Inr right \<Rightarrow> (case search_left same_hash same_value (nat index) of
                       Some left \<Rightarrow> int left
                     | None \<Rightarrow> - int right))"

definition AdjustArray :: "u32 \<Rightarrow> tagged_array \<Rightarrow> nat \<Rightarrow> nat \<Rightarrow> bool \<Rightarrow> tagged_array" where
  "AdjustArray sz srcArray fromIndex toIndex direction =
     (if direction then shift_up (unat sz) fromIndex toIndex srcArray
      else for_up 0 (unat sz - fromIndex)
        (\<lambda>i a. if fromIndex + i < unat sz then a[toIndex + i := a ! (fromIndex + i)] else a[toIndex + i := Hole]) srcArray)"

definition Add ::
  "(js_value \<Rightarrow> u32) \<Rightarrow> (js_value \<Rightarrow> js_value \<Rightarrow> bool) \<Rightarrow> lw_state \<Rightarrow> js_value \<Rightarrow> bool \<times> lw_state" where
  "Add Hash SameValue st val =
     (let st = CheckAndCopyValues st;
          hashCode = Hash val;
          sz = lw_length (fst st);
          index = GetHashIndex Hash SameValue st val (sint sz)
      in if index \<ge> 0 then (False, st)
         else
           let index = NOT index;
               hashArray = lw_hashes (fst st);
               capacity = cap hashArray;
               (hashArray, st) =
                 (if sint sz + 1 \<ge> sint capacity
                  then let newCapacity = push_bit 1 capacity;
                           hashArray = CopyArray hashArray (unat capacity) (unat newCapacity)
                       in (hashArray, SetValues False (CopyArray (values_of st) (unat capacity) (unat newCapacity)) st)
                  else (hashArray, st));
               valueArray = values_of st;
               (hashArray, valueArray) =
                 (if index < sint sz
                  then (AdjustArray sz hashArray (nat index) (unat sz) True, AdjustArray sz valueArray (nat index) (unat sz) True)
                  else (hashArray, valueArray));
               (obj, h) = write_values (valueArray[nat index := val]) st
           in (True, obj\<lparr>lw_hashes := hashArray[nat index := hash_value hashCode], lw_length := sz + 1\<rparr>, h))"

definition Get :: "lw_state \<Rightarrow> u32 \<Rightarrow> js_value" where
  "Get st index = values_of st ! unat index"

definition GetValueAt :: "lw_state \<Rightarrow> int \<Rightarrow> js_value" where
  "GetValueAt st index =
     (if index < 0 \<or> index \<ge> sint (lw_length (fst st)) then Undefined else values_of st ! nat index)"

definition GetHashAt :: "lw_state \<Rightarrow> int \<Rightarrow> js_value" where
  "GetHashAt st index =
     (if index < 0 \<or> index \<ge> sint (lw_length (fst st)) then Undefined else lw_hashes (fst st) ! nat index)"

definition SizeCopy :: "lw_state \<Rightarrow> u32 \<Rightarrow> u32 \<Rightarrow> lw_state" where
  "SizeCopy st capacity newCapacity =
     (let hashArray = CopyArray (lw_hashes (fst st)) (unat capacity) (unat newCapacity);
          (obj, h) = SetValues False (CopyArray (values_of st) (unat capacity) (unat newCapacity)) st
      in (obj\<lparr>lw_hashes := hashArray\<rparr>, h))"

text \<open>Doubling may wrap around to 0 and then never ends, which is \<open>None\<close>.\<close>

definition EnsureCapacity :: "lw_state \<Rightarrow> u32 \<Rightarrow> lw_state option" where
  "EnsureCapacity st minimumCapacity =
     (let capacity = cap (values_of st)
      in if capacity > minimumCapacity then Some st
         else map_option (SizeCopy st capacity)
           (while_option (\<lambda>newCapacity. newCapacity \<le> minimumCapacity) (\<lambda>newCapacity. push_bit 1 newCapacity) capacity))"

definition add_all_step ::
  "(js_value \<Rightarrow> u32) \<Rightarrow> (js_value \<Rightarrow> js_value \<Rightarrow> bool) \<Rightarrow> JSAPILightWeightSet \<Rightarrow> nat \<Rightarrow> bool \<times> lw_state \<Rightarrow> bool \<times> lw_state" where
  "add_all_step Hash SameValue src i s =
     (let (changed, obj, h) = s;
          element = GetValueAt (src, h) (int i);
          (added, st) = Add Hash SameValue (obj, h) element
      in (changed \<or> added, st))"

text \<open>The argument \<open>src\<close> is another set in the same store.\<close>

definition AddAll ::
  "(js_value \<Rightarrow> u32) \<Rightarrow> (js_value \<Rightarrow> js_value \<Rightarrow> bool) \<Rightarrow> lw_state \<Rightarrow> JSAPILightWeightSet \<Rightarrow> (bool \<times> lw_state) option" where
  "AddAll Hash SameValue st src =
     (let srcSize = lw_length src;
          sz = lw_length (fst st)
      in map_option (\<lambda>st. for_up 0 (unat srcSize) (add_all_step Hash SameValue src) (False, st))
           (EnsureCapacity st (sz + srcSize)))"

definition IsEmpty :: "lw_state \<Rightarrow> bool" where
  "IsEmpty st \<longleftrightarrow> lw_length (fst st) = 0"

text \<open>The inner loop of \<open>HasAll\<close> looks for the hash from \<open>relocate\<close> on; the outer one stops at a failure.\<close>

fun has_all_loop :: "u32 list \<Rightarrow> u32 list \<Rightarrow> bool \<Rightarrow> bool" where
  "has_all_loop hashes [] result = result"
| "has_all_loop hashes (destHashCode # dest) result =
     (case dropWhile (\<lambda>hashCode. destHashCode \<noteq> hashCode) hashes of
        [] \<Rightarrow> False
      | hashCode # rest \<Rightarrow> has_all_loop rest dest True)"

definition hash_list :: "lw_state \<Rightarrow> u32 list" where
  "hash_list st = map (hash_at (lw_hashes (fst st))) [0..<unat (lw_length (fst st))]"

definition HasAll :: "lw_state \<Rightarrow> lw_state \<Rightarrow> bool" where
  "HasAll st lightweightSet =
     (if lw_length (fst lightweightSet) > lw_length (fst st) then False
      else has_all_loop (hash_list st) (hash_list lightweightSet) False)"

definition Has :: "(js_value \<Rightarrow> u32) \<Rightarrow> (js_value \<Rightarrow> js_value \<Rightarrow> bool) \<Rightarrow> lw_state \<Rightarrow> js_value \<Rightarrow> bool" where
  "Has Hash SameValue st val \<longleftrightarrow> \<not> GetHashIndex Hash SameValue st val (sint (lw_length (fst st))) < 0"

definition HasHash :: "lw_state \<Rightarrow> u32 \<Rightarrow> bool" where
  "HasHash st hashCode \<longleftrightarrow> \<not> BinarySearchHashes st hashCode (sint (lw_length (fst st))) < 0"

text \<open>
  The argument of \<open>Equal\<close>: a set, an array or another value. The comparisons of numbers and of strings,
  and the tests for them, are arguments.
\<close>

datatype equal_arg = EqSet lw_state | EqArray tagged_array | EqOther

record compare_ops =
  IsNumber :: "js_value \<Rightarrow> bool"
  IsString :: "js_value \<Rightarrow> bool"
  SameValueNumberic :: "js_value \<Rightarrow> js_value \<Rightarrow> bool"
  StringCompare :: "js_value \<Rightarrow> js_value \<Rightarrow> bool"

fun equal_loop :: "compare_ops \<Rightarrow> (js_value \<times> js_value) list \<Rightarrow> bool \<Rightarrow> bool" where
  "equal_loop ops [] result = result"
| "equal_loop ops ((compareValue, values) # rest) result =
     (let result = (if IsNumber ops compareValue \<and> IsNumber ops values
                    then SameValueNumberic ops compareValue values else result);
          result = (if IsString ops compareValue \<and> IsString ops values
                    then StringCompare ops compareValue values else result)
      in if \<not> result then result else equal_loop ops rest result)"

definition Equal :: "compare_ops \<Rightarrow> lw_state \<Rightarrow> equal_arg \<Rightarrow> bool" where
  "Equal ops st val =
     (let destHashes = values_of st;
          destSize = unat (lw_length (fst st));
          (srcHashes, srcSize, isCollection) =
            (case val of
               EqSet src \<Rightarrow> (lw_hashes (fst src), unat (lw_length (fst src)), True)
             | EqArray a \<Rightarrow> (a, length a, True)
             | EqOther \<Rightarrow> (lw_hashes (fst st), 0, False))
      in if isCollection \<and> (srcSize = 0 \<or> destSize = 0) then False
         else if srcSize \<noteq> destSize then False
         else equal_loop ops (map (\<lambda>i. (destHashes ! i, srcHashes ! i)) [0..<destSize]) False)"

definition IncreaseCapacityTo :: "lw_state \<Rightarrow> int \<Rightarrow> lw_state outcome" where
  "IncreaseCapacityTo st minCapacity =
     (let capacity = cap (values_of st);
          intCapacity = sint capacity
      in if minCapacity \<le> 0 \<or> intCapacity \<ge> minCapacity
         then Inl (BusinessError RANGE_ERROR (RangeMsg ''minimumCapacity'' intCapacity minCapacity))
         else let newElements = NewAndCopyTaggedArray (lw_hashes (fst st)) (nat minCapacity) (unat capacity);
                  (obj, h) = SetValues False (NewAndCopyTaggedArray (values_of st) (nat minCapacity) (unat capacity)) st
              in Inr (obj\<lparr>lw_hashes := newElements\<rparr>, h))"

definition GetIndexOf ::
  "(js_value \<Rightarrow> u32) \<Rightarrow> (js_value \<Rightarrow> js_value \<Rightarrow> bool) \<Rightarrow> lw_state \<Rightarrow> js_value \<Rightarrow> int" where
  "GetIndexOf Hash SameValue st val = GetHashIndex Hash SameValue st val (sint (lw_length (fst st)))"

definition RemoveElementByIndex :: "tagged_array \<Rightarrow> nat \<Rightarrow> nat \<Rightarrow> tagged_array" where
  "RemoveElementByIndex srcArray index effectiveLength =
     (for_up index (effectiveLength - 1) (\<lambda>i a. a[i := a ! (i + 1)]) srcArray)[effectiveLength - 1 := Hole]"

definition RemoveValue :: "u32 \<Rightarrow> tagged_array \<Rightarrow> nat \<Rightarrow> tagged_array" where
  "RemoveValue len taggedArray index = RemoveElementByIndex taggedArray index (unat len)"

definition RemoveAt :: "lw_state \<Rightarrow> int \<Rightarrow> bool \<times> lw_state" where
  "RemoveAt st index =
     (let sz = lw_length (fst st)
      in if index < 0 \<or> index \<ge> sint sz then (False, st)
         else let hashArray = RemoveValue sz (lw_hashes (fst st)) (nat index);
                  (obj, h) = write_values (RemoveValue sz (values_of st) (nat index)) st
              in (True, obj\<lparr>lw_hashes := hashArray, lw_length := sz - 1\<rparr>, h))"

definition Remove ::
  "(js_value \<Rightarrow> u32) \<Rightarrow> (js_value \<Rightarrow> js_value \<Rightarrow> bool) \<Rightarrow> lw_state \<Rightarrow> js_value \<Rightarrow> js_value \<times> lw_state" where
  "Remove Hash SameValue st val =
     (let index = GetHashIndex Hash SameValue st val (sint (lw_length (fst st)))
      in if index < 0 then (Undefined, st)
         else (values_of st ! nat index, snd (RemoveAt st index)))"

text \<open>\<open>Clear\<close> writes the array of the values in place, also one that is copied on write.\<close>

definition Clear :: "lw_state \<Rightarrow> lw_state" where
  "Clear st =
     (let sz = unat (lw_length (fst st));
          (hashArray, valueArray) =
            for_up 0 sz (\<lambda>index (hashArray, valueArray). (hashArray[index := Hole], valueArray[index := Hole]))
              (lw_hashes (fst st), values_of st);
          (obj, h) = write_values valueArray st
      in (obj\<lparr>lw_hashes := hashArray, lw_length := 0\<rparr>, h))"

definition lw_string_step :: "(js_value \<Rightarrow> string outcome) \<Rightarrow> tagged_array \<Rightarrow> nat \<Rightarrow> string outcome \<Rightarrow> string outcome" where
  "lw_string_step to_string valueArray k st =
     bindO st (\<lambda>concatStr.
     bindO (string_part to_string (valueArray ! k)) (\<lambda>nextStr.
       Inr (if k > 0 then concatStr @ '','' @ nextStr else concatStr @ nextStr)))"

definition ToString :: "(js_value \<Rightarrow> string outcome) \<Rightarrow> lw_state \<Rightarrow> string outcome" where
  "ToString to_string st =
     for_up 0 (unat (lw_length (fst st))) (lw_string_step to_string (values_of st)) (Inr [])"

text \<open>
  \<open>ForEach\<close> reads the length again after every call. The callback may add values without end, so
  the loop is \<open>while_option\<close>.
\<close>

type_synonym 'w lw_callback = "js_value \<Rightarrow> lw_state \<times> 'w \<Rightarrow> (lw_state \<times> 'w) outcome"

definition lw_foreach_step ::
  "'w lw_callback \<Rightarrow> nat \<times> u32 \<times> (lw_state \<times> 'w) outcome \<Rightarrow> nat \<times> u32 \<times> (lw_state \<times> 'w) outcome" where
  "lw_foreach_step callbackFn s =
     (let (k, len, r) = s
      in case r of Inl e \<Rightarrow> s
         | Inr (st, w) \<Rightarrow>
             (case callbackFn (GetValueAt st (int k)) (st, w) of
                Inl e \<Rightarrow> (k + 1, len, Inl e)
              | Inr (st, w) \<Rightarrow> (k + 1, if lw_length (fst st) \<noteq> len then lw_length (fst st) else len, Inr (st, w))))"

definition ForEach :: "lw_state \<Rightarrow> 'w lw_callback \<Rightarrow> 'w \<Rightarrow> (lw_state \<times> 'w) outcome option" where
  "ForEach st callbackFn w =
     (let st = CheckAndCopyValues st
      in map_option (\<lambda>(k, len, r). r)
           (while_option (\<lambda>(k, len, r). k < unat len \<and> (case r of Inl e \<Rightarrow> False | Inr x \<Rightarrow> True))
             (lw_foreach_step callbackFn) (0, lw_length (fst st), Inr (st, w))))"

section \<open>Iterator and built-ins\<close>

record JSAPILightWeightSetIterator =
  lit_over :: bool
  lit_next :: u32
  lit_kind :: IterationKind

definition NewJSAPILightWeightSetIterator :: "JSAPILightWeightSet \<Rightarrow> IterationKind \<Rightarrow> JSAPILightWeightSetIterator" where
  "NewJSAPILightWeightSetIterator obj kind = \<lparr>lit_over = False, lit_next = 0, lit_kind = kind\<rparr>"

text \<open>An item is the list of the values that the result holds: the value, or the value twice.\<close>

definition Next ::
  "JSAPILightWeightSetIterator \<times> lw_state \<Rightarrow> js_value list option \<times> JSAPILightWeightSetIterator \<times> lw_state" where
  "Next s =
     (let (iter, st) = s
      in if lit_over iter then (None, iter, st)
         else let index = lit_next iter
              in if index \<ge> lw_length (fst st) then (None, iter\<lparr>lit_over := True\<rparr>, st)
                 else let st = CheckAndCopyValues st;
                          val = values_of st ! unat index
                      in (Some (if lit_kind iter = VALUE then [val] else [val, val]), iter\<lparr>lit_next := index + 1\<rparr>, st))"


text \<open>The elements of the array that \<open>toArray\<close> returns are an address of the store.\<close>

definition ContainersLightWeightSet_ToArray :: "lw_state this_arg \<Rightarrow> (nat \<times> u32 \<times> lw_state) outcome" where
  "ContainersLightWeightSet_ToArray self =
     bindO (resolve_this ''toArray'' self) (\<lambda>st.
       let len = lw_length (fst st);
           srcArray = values_of st
       in if is_cow st then Inr (lw_values (fst st), len, st)
          else let st = SetValues True (CopyArray srcArray (length srcArray) (length srcArray)) st
               in Inr (lw_values (fst st), len, st))"

definition ContainersLightWeightSet_Add ::
  "(js_value \<Rightarrow> u32) \<Rightarrow> (js_value \<Rightarrow> js_value \<Rightarrow> bool) \<Rightarrow> lw_state this_arg \<Rightarrow> js_value \<Rightarrow> (js_value \<times> lw_state) outcome" where
  "ContainersLightWeightSet_Add Hash SameValue self val =
     bindO (resolve_this ''add'' self) (\<lambda>st. let (flag, st) = Add Hash SameValue st val in Inr (tagged_bool flag, st))"

definition ContainersLightWeightSet_IsEmpty :: "lw_state this_arg \<Rightarrow> js_value outcome" where
  "ContainersLightWeightSet_IsEmpty self = bindO (resolve_this ''isEmpty'' self) (\<lambda>st. Inr (tagged_bool (IsEmpty st)))"

definition ContainersLightWeightSet_GetValueAt :: "lw_state this_arg \<Rightarrow> index_key \<Rightarrow> js_value outcome" where
  "ContainersLightWeightSet_GetValueAt self val =
     bindO (resolve_this ''getValueAt'' self) (\<lambda>st.
     bindO (small_int_arg ''index'' val) (\<lambda>index. Inr (GetValueAt st index)))"

definition set_type_error :: container_error where
  "set_type_error = BusinessError TYPE_ERROR (Msg ''The type of set must be LightWeightSet.'')"

definition resolve_set_arg :: "'s this_arg \<Rightarrow> 's outcome" where
  "resolve_set_arg val = (case resolve_this [] val of Inl e \<Rightarrow> Inl set_type_error | Inr s \<Rightarrow> Inr s)"

definition ContainersLightWeightSet_AddAll ::
  "(js_value \<Rightarrow> u32) \<Rightarrow> (js_value \<Rightarrow> js_value \<Rightarrow> bool) \<Rightarrow> lw_state this_arg \<Rightarrow> JSAPILightWeightSet this_arg \<Rightarrow>
     (js_value \<times> lw_state) outcome option" where
  "ContainersLightWeightSet_AddAll Hash SameValue self val =
     (case bindO (resolve_this ''addAll'' self) (\<lambda>st. bindO (resolve_set_arg val) (\<lambda>src. Inr (st, src))) of
        Inl e \<Rightarrow> Some (Inl e)
      | Inr (st, src) \<Rightarrow> map_option (\<lambda>(changed, st). Inr (tagged_bool changed, st)) (AddAll Hash SameValue st src))"

definition ContainersLightWeightSet_HasAll :: "lw_state this_arg \<Rightarrow> lw_state this_arg \<Rightarrow> js_value outcome" where
  "ContainersLightWeightSet_HasAll self val =
     bindO (resolve_this ''hasAll'' self) (\<lambda>st.
     bindO (resolve_set_arg val) (\<lambda>other. Inr (tagged_bool (HasAll st other))))"

definition ContainersLightWeightSet_Has ::
  "(js_value \<Rightarrow> u32) \<Rightarrow> (js_value \<Rightarrow> js_value \<Rightarrow> bool) \<Rightarrow> lw_state this_arg \<Rightarrow> js_value \<Rightarrow> js_value outcome" where
  "ContainersLightWeightSet_Has Hash SameValue self val =
     bindO (resolve_this ''has'' self) (\<lambda>st. Inr (tagged_bool (Has Hash SameValue st val)))"

definition ContainersLightWeightSet_HasHash :: "lw_state this_arg \<Rightarrow> u32 \<Rightarrow> js_value outcome" where
  "ContainersLightWeightSet_HasHash self val =
     bindO (resolve_this ''hasHash'' self) (\<lambda>st. Inr (tagged_bool (HasHash st val)))"

definition ContainersLightWeightSet_Equal :: "compare_ops \<Rightarrow> lw_state this_arg \<Rightarrow> equal_arg \<Rightarrow> js_value outcome" where
  "ContainersLightWeightSet_Equal ops self val =
     bindO (resolve_this ''equal'' self) (\<lambda>st. Inr (tagged_bool (Equal ops st val)))"

definition ContainersLightWeightSet_IncreaseCapacityTo ::
  "lw_state this_arg \<Rightarrow> index_key \<Rightarrow> (js_value \<times> lw_state) outcome" where
  "ContainersLightWeightSet_IncreaseCapacityTo self val =
     bindO (resolve_this ''increaseCapacityTo'' self) (\<lambda>st.
     bindO (small_int_arg ''minimumCapacity'' val) (\<lambda>minCapacity.
     bindO (IncreaseCapacityTo st minCapacity) (\<lambda>st. Inr (Undefined, st))))"

definition ContainersLightWeightSet_GetIteratorObj :: "lw_state this_arg \<Rightarrow> JSAPILightWeightSetIterator outcome" where
  "ContainersLightWeightSet_GetIteratorObj self =
     bindO (resolve_this ''Symbol.iterator'' self) (\<lambda>st. Inr (NewJSAPILightWeightSetIterator (fst st) VALUE))"

definition ContainersLightWeightSet_Values :: "lw_state this_arg \<Rightarrow> JSAPILightWeightSetIterator outcome" where
  "ContainersLightWeightSet_Values self =
     bindO (resolve_this ''values'' self) (\<lambda>st. Inr (NewJSAPILightWeightSetIterator (fst st) VALUE))"

definition ContainersLightWeightSet_Entries :: "lw_state this_arg \<Rightarrow> JSAPILightWeightSetIterator outcome" where
  "ContainersLightWeightSet_Entries self =
     bindO (resolve_this ''entries'' self) (\<lambda>st. Inr (NewJSAPILightWeightSetIterator (fst st) KEY_AND_VALUE))"

definition ContainersLightWeightSet_ForEach ::
  "lw_state this_arg \<Rightarrow> 'w lw_callback option \<Rightarrow> 'w \<Rightarrow> (lw_state \<times> 'w) outcome option" where
  "ContainersLightWeightSet_ForEach thisHandle callbackFn w =
     (case resolve_this ''forEach'' thisHandle of
        Inl e \<Rightarrow> Some (Inl e)
      | Inr st \<Rightarrow> (case callbackFn of None \<Rightarrow> Some (Inl callback_error) | Some fn \<Rightarrow> ForEach st fn w))"

definition ContainersLightWeightSet_GetIndexOf ::
  "(js_value \<Rightarrow> u32) \<Rightarrow> (js_value \<Rightarrow> js_value \<Rightarrow> bool) \<Rightarrow> lw_state this_arg \<Rightarrow> js_value \<Rightarrow> js_value outcome" where
  "ContainersLightWeightSet_GetIndexOf Hash SameValue self val =
     bindO (resolve_this ''getIndexOf'' self) (\<lambda>st. Inr (JSInt (GetIndexOf Hash SameValue st val)))"

definition ContainersLightWeightSet_Remove ::
  "(js_value \<Rightarrow> u32) \<Rightarrow> (js_value \<Rightarrow> js_value \<Rightarrow> bool) \<Rightarrow> lw_state this_arg \<Rightarrow> js_value \<Rightarrow> (js_value \<times> lw_state) outcome" where
  "ContainersLightWeightSet_Remove Hash SameValue self key =
     bindO (resolve_this ''remove'' self) (\<lambda>st. Inr (Remove Hash SameValue (CheckAndCopyValues st) key))"

definition ContainersLightWeightSet_RemoveAt :: "lw_state this_arg \<Rightarrow> index_key \<Rightarrow> (js_value \<times> lw_state) outcome" where
  "ContainersLightWeightSet_RemoveAt self val =
     bindO (resolve_this ''removeAt'' self) (\<lambda>st.
     bindO (small_int_arg ''index'' val) (\<lambda>index.
       let (flag, st) = RemoveAt (CheckAndCopyValues st) index in Inr (tagged_bool flag, st)))"

definition ContainersLightWeightSet_Clear :: "lw_state this_arg \<Rightarrow> (js_value \<times> lw_state) outcome" where
  "ContainersLightWeightSet_Clear self = bindO (resolve_this ''clear'' self) (\<lambda>st. Inr (Undefined, Clear st))"

definition ContainersLightWeightSet_ToString :: "(js_value \<Rightarrow> string outcome) \<Rightarrow> lw_state this_arg \<Rightarrow> string outcome" where
  "ContainersLightWeightSet_ToString to_string self =
     bindO (resolve_this ''toString'' self) (\<lambda>st. ToString to_string st)"

definition ContainersLightWeightSet_GetSize :: "lw_state this_arg \<Rightarrow> u32 outcome" where
  "ContainersLightWeightSet_GetSize self = bindO (resolve_this ''getLength'' self) (\<lambda>st. Inr (lw_length (fst st)))"

section \<open>Content and invariant\<close>

definition lw_size :: "lw_state \<Rightarrow> nat" where
  "lw_size st = unat (lw_length (fst st))"

definition lw_list :: "lw_state \<Rightarrow> js_value list" where
  "lw_list st = take (lw_size st) (values_of st)"



definition wf_lws :: "(js_value \<Rightarrow> u32) \<Rightarrow> (js_value \<Rightarrow> js_value \<Rightarrow> bool) \<Rightarrow> lw_state \<Rightarrow> bool" where
  "wf_lws Hash SameValue st \<longleftrightarrow> lw_values (fst st) < length (snd st) \<and>
     length (lw_hashes (fst st)) = length (values_of st) \<and> 0 < length (values_of st) \<and> length (values_of st) < 2 ^ 31 \<and>
     lw_size st \<le> length (values_of st) \<and>
     take (lw_size st) (lw_hashes (fst st)) = map (\<lambda>v. hash_value (Hash v)) (lw_list st) \<and>
     sorted (map Hash (lw_list st)) \<and> sorted_wrt (\<lambda>x y. \<not> SameValue x y) (lw_list st)"


lemma wf_lwsD:
  assumes "wf_lws Hash same st"
  shows "lw_values (fst st) < length (snd st)" "length (lw_hashes (fst st)) = length (values_of st)"
    "0 < length (values_of st)" "length (values_of st) < 2 ^ 31" "lw_size st \<le> length (values_of st)"
    "take (lw_size st) (lw_hashes (fst st)) = map (\<lambda>v. hash_value (Hash v)) (lw_list st)"
    "sorted (map Hash (lw_list st))" "sorted_wrt (\<lambda>x y. \<not> same x y) (lw_list st)"
    "length (lw_list st) = lw_size st" "sint (lw_length (fst st)) = int (lw_size st)"
  using assms sint_nat_small [of "lw_length (fst st)"] by (auto simp: wf_lws_def lw_list_def lw_size_def)

lemma lws_hash_at:
  assumes "wf_lws Hash same st" "i < lw_size st"
  shows "hash_at (lw_hashes (fst st)) i = Hash (lw_list st ! i)" "values_of st ! i = lw_list st ! i"
proof -
  have "lw_hashes (fst st) ! i = hash_value (Hash (lw_list st ! i))"
    using wf_lwsD(6,9) [OF assms(1)] assms(2) by (metis nth_map nth_take)
  then show "hash_at (lw_hashes (fst st)) i = Hash (lw_list st ! i)" by (simp add: hash_at_def hash_value_def)
  show "values_of st ! i = lw_list st ! i" using assms(2) by (simp add: lw_list_def)
qed

section \<open>Sharing\<close>

text \<open>
  What an operation leaves alone: every array that is copied on write and every array of others still
  has its elements, and the array of the set is its own or a new one.
\<close>

definition keeps_arrays :: "lw_state \<Rightarrow> lw_state \<Rightarrow> bool" where
  "keeps_arrays st st' \<longleftrightarrow> length (snd st) \<le> length (snd st') \<and>
     (\<forall>a < length (snd st). fst (snd st ! a) \<or> a \<noteq> lw_values (fst st) \<longrightarrow> snd st' ! a = snd st ! a) \<and>
     (lw_values (fst st') = lw_values (fst st) \<or> length (snd st) \<le> lw_values (fst st'))"

lemma keeps_arrays_refl [simp]: "keeps_arrays st st"
  by (simp add: keeps_arrays_def)







section \<open>Search\<close>








section \<open>Insertion\<close>








section \<open>Removal\<close>





section \<open>Capacity, clearing and arrays\<close>









section \<open>Sequences of calls\<close>

datatype lw_event =
    EvAdd js_value bool
  | EvHas js_value bool
  | EvRemove js_value js_value
  | EvRemoveAt int bool
  | EvClear
  | EvToArray nat
  | EvIncrease int

inductive lws_step ::
  "(js_value \<Rightarrow> u32) \<Rightarrow> (js_value \<Rightarrow> js_value \<Rightarrow> bool) \<Rightarrow> lw_state \<Rightarrow> lw_event \<Rightarrow> lw_state \<Rightarrow> bool"
  for Hash same where
  add: "ContainersLightWeightSet_Add Hash same (ThisContainer st) v = Inr (tagged_bool b, st') \<Longrightarrow>
    lws_step Hash same st (EvAdd v b) st'"
| has: "ContainersLightWeightSet_Has Hash same (ThisContainer st) v = Inr (tagged_bool b) \<Longrightarrow>
    lws_step Hash same st (EvHas v b) st"
| remove: "ContainersLightWeightSet_Remove Hash same (ThisContainer st) v = Inr (r, st') \<Longrightarrow>
    lws_step Hash same st (EvRemove v r) st'"
| remove_at: "ContainersLightWeightSet_RemoveAt (ThisContainer st) (KeyInt i) = Inr (tagged_bool b, st') \<Longrightarrow>
    lws_step Hash same st (EvRemoveAt i b) st'"
| clear: "ContainersLightWeightSet_Clear (ThisContainer st) = Inr (r, st') \<Longrightarrow> lws_step Hash same st EvClear st'"
| to_array: "ContainersLightWeightSet_ToArray (ThisContainer st) = Inr (a, len, st') \<Longrightarrow> lws_step Hash same st (EvToArray a) st'"
| increase: "ContainersLightWeightSet_IncreaseCapacityTo (ThisContainer st) (KeyInt c) = Inr (r, st') \<Longrightarrow> c < 2 ^ 31 \<Longrightarrow>
    lws_step Hash same st (EvIncrease c) st'"

inductive_cases lws_stepE: "lws_step Hash same st e st'"





lemma tagged_bool_eq [simp]: "tagged_bool a = tagged_bool b \<longleftrightarrow> a = b"
  by (cases a; cases b) (simp_all add: tagged_bool_def)







section \<open>Union and comparison\<close>



text \<open>Positions without two numbers or two strings leave the result of the position before.\<close>

lemma equal_loop_skips:
  "\<forall>(a, b) \<in> set ps. \<not> (IsNumber ops a \<and> IsNumber ops b) \<and> \<not> (IsString ops a \<and> IsString ops b) \<Longrightarrow> equal_loop ops ps result = result"
  by (induction ps) (auto simp: Let_def)

section \<open>Theorems\<close>








text \<open>
  C35: \<open>equal\<close> does not compare sets. It compares the values of one with the hashes of the other and keeps
  the result of the position before where they are not both numbers or both strings: for two sets of the
  same size whose values after the first are not numbers it decides by the first value alone, and it is
  false for a set and itself if the first value is not a number.
\<close>

theorem lws_equal_first_only:
  assumes st: "wf_lws Hash same st" and t: "wf_lws Hash same t" and n: "lw_size st = lw_size t" "0 < lw_size t"
    and hash: "\<And>h. IsNumber ops (hash_value h) \<and> \<not> IsString ops (hash_value h)"
    and rest: "\<forall>v \<in> set (tl (lw_list st)). \<not> IsNumber ops v"
  shows "Equal ops st (EqSet t) \<longleftrightarrow>
    IsNumber ops (hd (lw_list st)) \<and> SameValueNumberic ops (hd (lw_list st)) (hash_value (Hash (hd (lw_list t))))"
proof -
  note W = wf_lwsD [OF st] and T = wf_lwsD [OF t]
  let ?f = "\<lambda>i. (values_of st ! i, lw_hashes (fst t) ! i)"
  have at: "values_of st ! i = lw_list st ! i" "lw_hashes (fst t) ! i = hash_value (Hash (lw_list t ! i))" if "i < lw_size t" for i
    using that n lws_hash_at(2) [OF st, of i] T(6,9) by (simp, metis nth_map nth_take)
  have e: "Equal ops st (EqSet t) = equal_loop ops (map ?f [0..<lw_size t]) False"
    using n by (simp add: Equal_def Let_def lw_size_def)
  have u: "[0..<lw_size t] = 0 # [1..<lw_size t]" using n(2) by (simp add: upt_conv_Cons)
  have "\<forall>(a, b) \<in> set (map ?f [1..<lw_size t]). \<not> (IsNumber ops a \<and> IsNumber ops b) \<and> \<not> (IsString ops a \<and> IsString ops b)"
  proof -
    have "lw_list st ! i \<in> set (tl (lw_list st))" if "1 \<le> i" "i < lw_size t" for i
      using that n(1) W(9) nth_mem [of "i - 1" "tl (lw_list st)"] by (simp add: nth_tl)
    then show ?thesis using hash rest at by fastforce
  qed
  note skip = equal_loop_skips [OF this]
  have hd: "hd (lw_list st) = lw_list st ! 0" "hd (lw_list t) = lw_list t ! 0" using n W(9) T(9) by (metis hd_conv_nth length_greater_0_conv)+
  show ?thesis unfolding e u list.map equal_loop.simps skip Let_def hd at [OF n(2)] using hash by simp
qed

theorem lws_equal_first_only_witness:
  "let ops = \<lparr>IsNumber = (\<lambda>v. case v of JSInt i \<Rightarrow> True | _ \<Rightarrow> False), IsString = (\<lambda>v. v = JSRef 1), SameValueNumberic = (=), StringCompare = (=)\<rparr>;
       st = (\<lparr>lw_hashes = [JSInt 9, Hole], lw_values = 0, lw_length = 1\<rparr>, [(False, [JSRef 1, Hole])])
   in \<not> Equal ops st (EqSet st)"
proof -
  let ?ops = "\<lparr>IsNumber = (\<lambda>v. case v of JSInt i \<Rightarrow> True | _ \<Rightarrow> False), IsString = (\<lambda>v. v = JSRef 1), SameValueNumberic = (=), StringCompare = (=)\<rparr>"
  let ?st = "(\<lparr>lw_hashes = [JSInt 9, Hole], lw_values = 0, lw_length = 1\<rparr>, [(False, [JSRef 1, Hole])])"
  have l: "lw_list ?st = [JSRef 1]" "lw_size ?st = 1" by (simp_all add: lw_list_def lw_size_def values_of_def)
  have wf: "wf_lws (\<lambda>v. 9) (=) ?st" unfolding wf_lws_def l by (simp add: values_of_def hash_value_def)
  show ?thesis using lws_equal_first_only [OF wf wf, of ?ops] l by (simp add: hash_value_def)
qed

end
