(* ===== verification/Linked_Hash_Table.thy ===== *)
theory Linked_Hash_Table
  imports Container_Base
begin

text \<open>
  The hash table behind Map, Set, WeakMap and WeakSet (ecmascript/linked_hash_table.h and
  linked_hash_table.cpp): one tagged array that holds the counters, the buckets and the entries in the
  order of their insertion. A table that is too full is copied into a new one, and the old table keeps
  a reference to the new one for the iterators that still use it.
\<close>

unbundle bit_operations_syntax

section \<open>Layout\<close>

text \<open>The template argument \<open>HashObject\<close>: the slots of an entry and the position of its value.\<close>

record hash_object =
  ENTRY_SIZE :: nat
  ENTRY_VALUE_INDEX :: nat

definition LinkedHashMapObject :: hash_object where
  "LinkedHashMapObject = \<lparr>ENTRY_SIZE = 2, ENTRY_VALUE_INDEX = 1\<rparr>"

definition LinkedHashSetObject :: hash_object where
  "LinkedHashSetObject = \<lparr>ENTRY_SIZE = 1, ENTRY_VALUE_INDEX = 0\<rparr>"

definition MIN_CAPACITY :: int where "MIN_CAPACITY = 4"
definition MIN_SHRINK_CAPACITY :: int where "MIN_SHRINK_CAPACITY = 16"
definition NUMBER_OF_ELEMENTS_INDEX :: nat where "NUMBER_OF_ELEMENTS_INDEX = 0"
definition NUMBER_OF_DELETED_ELEMENTS_INDEX :: nat where "NUMBER_OF_DELETED_ELEMENTS_INDEX = 1"
definition CAPACITY_INDEX :: nat where "CAPACITY_INDEX = 2"
definition NEXT_TABLE_INDEX :: nat where "NEXT_TABLE_INDEX = 3"
definition ELEMENTS_START_INDEX :: nat where "ELEMENTS_START_INDEX = 4"

lemmas index_consts = NUMBER_OF_ELEMENTS_INDEX_def NUMBER_OF_DELETED_ELEMENTS_INDEX_def CAPACITY_INDEX_def
  NEXT_TABLE_INDEX_def ELEMENTS_START_INDEX_def

text \<open>
  What the table takes from elsewhere: the hash of a key that is not a small integer, the comparison of two keys
  and the rounding up to a power of two of the platform library.
\<close>

record table_ops =
  HashOther :: "js_value \<Rightarrow> u32"
  SameValueZero :: "js_value \<Rightarrow> js_value \<Rightarrow> bool"
  GetPowerOfTwoValue32 :: "u32 \<Rightarrow> u32"

fun GetInt :: "js_value \<Rightarrow> int" where
  "GetInt (JSInt i) = i"
| "GetInt _ = 0"

fun RemoveWeakTag :: "js_value \<Rightarrow> js_value" where
  "RemoveWeakTag (JSWeak a) = JSRef a"
| "RemoveWeakTag v = v"

fun CreateAndGetWeakRef :: "js_value \<Rightarrow> js_value" where
  "CreateAndGetWeakRef (JSRef a) = JSWeak a"
| "CreateAndGetWeakRef v = v"

definition LinkedHash_Hash :: "table_ops \<Rightarrow> js_value \<Rightarrow> u32" where
  "LinkedHash_Hash ops key = (case key of JSInt i \<Rightarrow> word_of_int i | _ \<Rightarrow> HashOther ops key)"

definition IsKey :: "js_value \<Rightarrow> bool" where
  "IsKey key \<longleftrightarrow> key \<noteq> Hole"

definition NumberOfElements :: "tagged_array \<Rightarrow> int" where
  "NumberOfElements t = GetInt (t ! NUMBER_OF_ELEMENTS_INDEX)"

definition NumberOfDeletedElements :: "tagged_array \<Rightarrow> int" where
  "NumberOfDeletedElements t = GetInt (t ! NUMBER_OF_DELETED_ELEMENTS_INDEX)"

definition Capacity :: "tagged_array \<Rightarrow> int" where
  "Capacity t = GetInt (t ! CAPACITY_INDEX)"

definition SetNumberOfElements :: "tagged_array \<Rightarrow> int \<Rightarrow> tagged_array" where
  "SetNumberOfElements t nof = t[NUMBER_OF_ELEMENTS_INDEX := JSInt nof]"

definition SetNumberOfDeletedElements :: "tagged_array \<Rightarrow> int \<Rightarrow> tagged_array" where
  "SetNumberOfDeletedElements t nod = t[NUMBER_OF_DELETED_ELEMENTS_INDEX := JSInt nod]"

definition SetCapacity :: "tagged_array \<Rightarrow> int \<Rightarrow> tagged_array" where
  "SetCapacity t capacity = t[CAPACITY_INDEX := JSInt capacity]"

definition GetNextTable :: "tagged_array \<Rightarrow> js_value" where
  "GetNextTable t = t ! NEXT_TABLE_INDEX"

definition SetNextTable :: "tagged_array \<Rightarrow> js_value \<Rightarrow> tagged_array" where
  "SetNextTable t nextTable = t[NEXT_TABLE_INDEX := nextTable]"

definition HashToBucket :: "tagged_array \<Rightarrow> u32 \<Rightarrow> nat" where
  "HashToBucket t hash = unat (hash AND word_of_int (Capacity t - 1))"

definition BucketToIndex :: "nat \<Rightarrow> nat" where
  "BucketToIndex bucket = bucket + ELEMENTS_START_INDEX"

definition EntryToIndex :: "hash_object \<Rightarrow> tagged_array \<Rightarrow> nat \<Rightarrow> nat" where
  "EntryToIndex h t entry = ELEMENTS_START_INDEX + nat (Capacity t) + entry * (ENTRY_SIZE h + 1)"

definition GetKey :: "hash_object \<Rightarrow> tagged_array \<Rightarrow> nat \<Rightarrow> js_value" where
  "GetKey h t entry = t ! EntryToIndex h t entry"

definition GetValue :: "hash_object \<Rightarrow> tagged_array \<Rightarrow> nat \<Rightarrow> js_value" where
  "GetValue h t entry = t ! (EntryToIndex h t entry + ENTRY_VALUE_INDEX h)"

definition GetNextEntry :: "hash_object \<Rightarrow> tagged_array \<Rightarrow> nat \<Rightarrow> js_value" where
  "GetNextEntry h t entry = t ! (EntryToIndex h t entry + ENTRY_SIZE h)"

definition SetKey :: "hash_object \<Rightarrow> tagged_array \<Rightarrow> nat \<Rightarrow> js_value \<Rightarrow> tagged_array" where
  "SetKey h t entry key = t[EntryToIndex h t entry := key]"

definition SetValue :: "hash_object \<Rightarrow> tagged_array \<Rightarrow> nat \<Rightarrow> js_value \<Rightarrow> tagged_array" where
  "SetValue h t entry val = t[EntryToIndex h t entry + ENTRY_VALUE_INDEX h := val]"

definition SetNextEntry :: "hash_object \<Rightarrow> tagged_array \<Rightarrow> nat \<Rightarrow> js_value \<Rightarrow> tagged_array" where
  "SetNextEntry h t entry nextEntry = t[EntryToIndex h t entry + ENTRY_SIZE h := nextEntry]"

section \<open>Operations on one table\<close>

definition Create :: "hash_object \<Rightarrow> int \<Rightarrow> tagged_array" where
  "Create h numberOfElements =
     (let n = nat numberOfElements;
          table = NewTaggedArray (ELEMENTS_START_INDEX + n + n * (ENTRY_SIZE h + 1));
          table = SetNumberOfElements table 0;
          table = SetNumberOfDeletedElements table 0
      in SetCapacity table numberOfElements)"

definition HasSufficientCapacity :: "tagged_array \<Rightarrow> int \<Rightarrow> bool" where
  "HasSufficientCapacity t numOfAddElements =
     (let numberOfElements = NumberOfElements t;
          numOfDelElements = NumberOfDeletedElements t;
          capacity = Capacity t;
          nof = numberOfElements + numOfAddElements
      in nof < capacity \<and> numOfDelElements \<le> (capacity - nof) div 2 \<and> nof + nof div 2 \<le> capacity)"

text \<open>
  The loop of \<open>FindElement\<close> follows the entries of a bucket. It need not end on an arbitrary array:
  \<open>None\<close> stands for a loop that does not return.
\<close>

partial_function (option) find_entry ::
  "table_ops \<Rightarrow> hash_object \<Rightarrow> tagged_array \<Rightarrow> js_value \<Rightarrow> js_value \<Rightarrow> int option" where
  "find_entry ops h t key entry =
     (if entry = Hole then Some (- 1)
      else let element = GetKey h t (nat (GetInt entry))
           in if element = Hole then find_entry ops h t key (GetNextEntry h t (nat (GetInt entry)))
              else if SameValueZero ops key (RemoveWeakTag element) then Some (GetInt entry)
              else find_entry ops h t key (GetNextEntry h t (nat (GetInt entry))))"

definition FindElement :: "table_ops \<Rightarrow> hash_object \<Rightarrow> tagged_array \<Rightarrow> js_value \<Rightarrow> int option" where
  "FindElement ops h t key =
     (if \<not> IsKey key then Some (- 1)
      else let hash = LinkedHash_Hash ops key;
               bucket = HashToBucket t hash
           in find_entry ops h t key (t ! BucketToIndex bucket))"

definition RemoveEntry :: "hash_object \<Rightarrow> tagged_array \<Rightarrow> nat \<Rightarrow> tagged_array" where
  "RemoveEntry h t entry =
     (let index = EntryToIndex h t entry;
          t = for_up 0 (ENTRY_SIZE h) (\<lambda>i a. a[index + i := Hole]) t;
          t = SetNumberOfElements t (NumberOfElements t - 1)
      in SetNumberOfDeletedElements t (NumberOfDeletedElements t + 1))"

text \<open>The same by the collector, which reads both counters before it writes them.\<close>

definition RemoveEntryFromGCThread :: "hash_object \<Rightarrow> tagged_array \<Rightarrow> nat \<Rightarrow> tagged_array" where
  "RemoveEntryFromGCThread h t entry =
     (let index = EntryToIndex h t entry;
          t = for_up 0 (ENTRY_SIZE h) (\<lambda>i a. a[index + i := Hole]) t;
          newNumOfElements = JSInt (NumberOfElements t - 1);
          newNumOfDeletedElements = JSInt (NumberOfDeletedElements t + 1)
      in t[NUMBER_OF_ELEMENTS_INDEX := newNumOfElements, NUMBER_OF_DELETED_ELEMENTS_INDEX := newNumOfDeletedElements])"

definition ComputeCapacity :: "table_ops \<Rightarrow> u32 \<Rightarrow> int" where
  "ComputeCapacity ops atLeastSpaceFor =
     (let rawCap = atLeastSpaceFor + drop_bit 1 atLeastSpaceFor;
          capacity = sint (GetPowerOfTwoValue32 ops rawCap)
      in if capacity > MIN_CAPACITY then capacity else MIN_CAPACITY)"

definition ComputeCapacityWithShrink :: "table_ops \<Rightarrow> int \<Rightarrow> int \<Rightarrow> int" where
  "ComputeCapacityWithShrink ops currentCapacity atLeastSpaceFor =
     (if atLeastSpaceFor > currentCapacity div 4 then currentCapacity
      else let newCapacity = ComputeCapacity ops (word_of_int atLeastSpaceFor)
           in if newCapacity < MIN_SHRINK_CAPACITY then currentCapacity else newCapacity)"

definition InsertNewEntry :: "hash_object \<Rightarrow> tagged_array \<Rightarrow> nat \<Rightarrow> nat \<Rightarrow> tagged_array" where
  "InsertNewEntry h t bucket entry =
     (let bucketIndex = BucketToIndex bucket;
          previousEntry = t ! bucketIndex;
          t = SetNextEntry h t entry previousEntry
      in t[bucketIndex := JSInt (int entry)])"

definition GetDeletedNum :: "hash_object \<Rightarrow> tagged_array \<Rightarrow> nat \<Rightarrow> int" where
  "GetDeletedNum h t entry = GetInt (GetNextEntry h t entry)"

definition SetDeletedNum :: "hash_object \<Rightarrow> tagged_array \<Rightarrow> nat \<Rightarrow> js_value \<Rightarrow> tagged_array" where
  "SetDeletedNum h t entry num = SetNextEntry h t entry num"

primrec deleted_below :: "hash_object \<Rightarrow> tagged_array \<Rightarrow> nat \<Rightarrow> int" where
  "deleted_below h t 0 = 0"
| "deleted_below h t (Suc currentEntry) =
     (if GetKey h t currentEntry = Hole then GetDeletedNum h t currentEntry else deleted_below h t currentEntry)"

definition GetDeletedElementsAt :: "hash_object \<Rightarrow> tagged_array \<Rightarrow> int \<Rightarrow> int" where
  "GetDeletedElementsAt h t entry =
     (if NumberOfDeletedElements t = - 1 then entry else deleted_below h t (nat entry))"

text \<open>
  \<open>Rehash\<close> writes the new table and, in the old one, the reference to the new table and the number of
  deleted entries up to each deleted entry.
\<close>

definition rehash_step ::
  "table_ops \<Rightarrow> hash_object \<Rightarrow> nat \<Rightarrow> tagged_array \<times> tagged_array \<times> nat \<times> int \<Rightarrow> tagged_array \<times> tagged_array \<times> nat \<times> int" where
  "rehash_step ops h i s =
     (let (t, newTable, desEntry, currentDeletedElements) = s;
          fromIndex = EntryToIndex h t i;
          key = t ! fromIndex
      in if key = Hole then
           (SetDeletedNum h t i (JSInt (currentDeletedElements + 1)), newTable, desEntry, currentDeletedElements + 1)
         else
           let key = RemoveWeakTag key;
               bucket = HashToBucket newTable (LinkedHash_Hash ops key);
               newTable = InsertNewEntry h newTable bucket desEntry;
               desIndex = EntryToIndex h newTable desEntry;
               newTable = for_up 0 (ENTRY_SIZE h) (\<lambda>j a. a[desIndex + j := t ! (fromIndex + j)]) newTable
           in (t, newTable, desEntry + 1, currentDeletedElements))"

definition Rehash ::
  "table_ops \<Rightarrow> hash_object \<Rightarrow> tagged_array \<Rightarrow> nat \<Rightarrow> tagged_array \<Rightarrow> tagged_array \<times> tagged_array" where
  "Rehash ops h t newAddress newTable =
     (let numberOfAllElements = NumberOfElements t + NumberOfDeletedElements t;
          t = SetNextTable t (JSRef newAddress);
          (t, newTable, desEntry, currentDeletedElements) =
            for_up 0 (nat numberOfAllElements) (rehash_step ops h) (t, newTable, 0, 0);
          newTable = SetNumberOfElements newTable (NumberOfElements t)
      in (t, SetNumberOfDeletedElements newTable 0))"

section \<open>Operations that may replace the table\<close>

text \<open>Tables are objects: a store holds them, and an address is a position in the store.\<close>

type_synonym table_store = "tagged_array list"

definition rehash_to :: "table_ops \<Rightarrow> hash_object \<Rightarrow> table_store \<times> nat \<Rightarrow> int \<Rightarrow> table_store \<times> nat" where
  "rehash_to ops h st newCapacity =
     (let (ts, table) = st;
          (t, newTable) = Rehash ops h (ts ! table) (length ts) (Create h newCapacity)
      in (ts[table := t] @ [newTable], length ts))"

definition GrowCapacity :: "table_ops \<Rightarrow> hash_object \<Rightarrow> table_store \<times> nat \<Rightarrow> int \<Rightarrow> table_store \<times> nat" where
  "GrowCapacity ops h st numberOfAddedElements =
     (let (ts, table) = st
      in if HasSufficientCapacity (ts ! table) numberOfAddedElements then st
         else rehash_to ops h st (ComputeCapacity ops (word_of_int (NumberOfElements (ts ! table) + numberOfAddedElements))))"

definition Shrink :: "table_ops \<Rightarrow> hash_object \<Rightarrow> table_store \<times> nat \<Rightarrow> int \<Rightarrow> table_store \<times> nat" where
  "Shrink ops h st additionalCapacity =
     (let (ts, table) = st;
          newCapacity = ComputeCapacityWithShrink ops (Capacity (ts ! table)) (NumberOfElements (ts ! table) + additionalCapacity)
      in if newCapacity = Capacity (ts ! table) then st else rehash_to ops h st newCapacity)"

text \<open>The new entry of \<open>Insert\<close> and \<open>InsertWeakRef\<close>, at the end of the used entries.\<close>

definition append_entry :: "table_ops \<Rightarrow> hash_object \<Rightarrow> u32 \<Rightarrow> js_value \<Rightarrow> js_value option \<Rightarrow> tagged_array \<Rightarrow> tagged_array" where
  "append_entry ops h hash key val t =
     (let bucket = HashToBucket t hash;
          entry = nat (NumberOfElements t + NumberOfDeletedElements t);
          t = InsertNewEntry h t bucket entry;
          t = SetKey h t entry key;
          t = (case val of None \<Rightarrow> t | Some v \<Rightarrow> SetValue h t entry v)
      in SetNumberOfElements t (NumberOfElements t + 1))"

definition Insert ::
  "table_ops \<Rightarrow> hash_object \<Rightarrow> table_store \<times> nat \<Rightarrow> js_value \<Rightarrow> js_value \<Rightarrow> (table_store \<times> nat) option" where
  "Insert ops h st key val =
     (let (ts, table) = st;
          hash = LinkedHash_Hash ops key
      in case FindElement ops h (ts ! table) key of
           None \<Rightarrow> None
         | Some entry \<Rightarrow>
             if entry \<noteq> - 1 then Some (ts[table := SetValue h (ts ! table) (nat entry) val], table)
             else let (ts, newTable) = GrowCapacity ops h st 1
                  in Some (ts[newTable := append_entry ops h hash key (Some val) (ts ! newTable)], newTable))"

text \<open>
  \<open>InsertWeakRef\<close> keeps the key as a weak reference. Of the new entry it sets the value only in a
  \<open>LinkedHashMap\<close>, because in a \<open>LinkedHashSet\<close> the value is the key.
\<close>

definition InsertWeakRef ::
  "table_ops \<Rightarrow> hash_object \<Rightarrow> bool \<Rightarrow> table_store \<times> nat \<Rightarrow> js_value \<Rightarrow> js_value \<Rightarrow> (table_store \<times> nat) option" where
  "InsertWeakRef ops h isLinkedHashMap st key val =
     (let (ts, table) = st;
          hash = LinkedHash_Hash ops key
      in case FindElement ops h (ts ! table) key of
           None \<Rightarrow> None
         | Some entry \<Rightarrow>
             if entry \<noteq> - 1 then Some (ts[table := SetValue h (ts ! table) (nat entry) val], table)
             else let (ts, newTable) = GrowCapacity ops h st 1;
                      weakKey = CreateAndGetWeakRef key
                  in Some (ts[newTable := append_entry ops h hash weakKey
                                (if isLinkedHashMap then Some val else None) (ts ! newTable)], newTable))"

definition Remove :: "table_ops \<Rightarrow> hash_object \<Rightarrow> table_store \<times> nat \<Rightarrow> js_value \<Rightarrow> (table_store \<times> nat) option" where
  "Remove ops h st key =
     (let (ts, table) = st
      in case FindElement ops h (ts ! table) key of
           None \<Rightarrow> None
         | Some entry \<Rightarrow>
             if entry = - 1 then Some st
             else Some (Shrink ops h (ts[table := RemoveEntry h (ts ! table) (nat entry)], table) 0))"

definition Get :: "table_ops \<Rightarrow> hash_object \<Rightarrow> tagged_array \<Rightarrow> js_value \<Rightarrow> js_value option" where
  "Get ops h t key =
     map_option (\<lambda>entry. if entry = - 1 then Undefined else GetValue h t (nat entry)) (FindElement ops h t key)"

definition Has :: "table_ops \<Rightarrow> hash_object \<Rightarrow> tagged_array \<Rightarrow> js_value \<Rightarrow> bool option" where
  "Has ops h t key = map_option (\<lambda>entry. entry \<noteq> - 1) (FindElement ops h t key)"

definition FillRangeWithSpecialValue :: "tagged_array \<Rightarrow> js_value \<Rightarrow> nat \<Rightarrow> nat \<Rightarrow> tagged_array" where
  "FillRangeWithSpecialValue t initValue start end = for_up start end (\<lambda>i a. a[i := initValue]) t"

definition Clear :: "hash_object \<Rightarrow> table_store \<times> nat \<Rightarrow> table_store \<times> nat" where
  "Clear h st =
     (let (ts, table) = st;
          t = ts ! table
      in if Capacity t = MIN_CAPACITY then
           let t = FillRangeWithSpecialValue t Hole ELEMENTS_START_INDEX (length t);
               t = SetNumberOfDeletedElements t (NumberOfDeletedElements t + NumberOfElements t);
               t = SetNumberOfElements t 0
           in (ts[table := t], table)
         else
           let newMap = Create h MIN_CAPACITY;
               t = (if Capacity t > 0 then SetNumberOfDeletedElements (SetNextTable t (JSRef (length ts))) (- 1) else t)
           in (ts[table := t] @ [newMap], length ts))"

text \<open>
  An iterator that was created on an old table moves to the table in use. The loop is the one of
  \<open>JSMapIterator::Update\<close>, \<open>JSSetIterator::Update\<close> and of the two functions \<open>ForEach\<close>.
\<close>

fun GetTaggedObject :: "js_value \<Rightarrow> nat" where
  "GetTaggedObject (JSRef a) = a"
| "GetTaggedObject _ = 0"

partial_function (option) follow_tables :: "hash_object \<Rightarrow> table_store \<Rightarrow> nat \<Rightarrow> int \<Rightarrow> (nat \<times> int) option" where
  "follow_tables h ts table index =
     (if GetNextTable (ts ! table) = Hole then Some (table, index)
      else follow_tables h ts (GetTaggedObject (GetNextTable (ts ! table)))
             (index - GetDeletedElementsAt h (ts ! table) index))"

section \<open>Slots\<close>

definition obj_ok :: "hash_object \<Rightarrow> bool" where
  "obj_ok h \<longleftrightarrow> h = LinkedHashMapObject \<or> h = LinkedHashSetObject"

lemma obj_okD:
  assumes "obj_ok h"
  shows "0 < ENTRY_SIZE h" "ENTRY_VALUE_INDEX h = ENTRY_SIZE h - 1" "ENTRY_SIZE h \<le> 2" "ENTRY_VALUE_INDEX h < ENTRY_SIZE h"
  using assms by (auto simp: obj_ok_def LinkedHashMapObject_def LinkedHashSetObject_def)

definition layout :: "hash_object \<Rightarrow> tagged_array \<Rightarrow> nat \<Rightarrow> bool" where
  "layout h t c \<longleftrightarrow> length t = 4 + c + c * (ENTRY_SIZE h + 1) \<and> t ! 2 = JSInt (int c)"

definition slot :: "hash_object \<Rightarrow> nat \<Rightarrow> nat \<Rightarrow> nat \<Rightarrow> nat" where
  "slot h c e j = 4 + c + e * (ENTRY_SIZE h + 1) + j"

lemma slot_inj:
  assumes "j \<le> ENTRY_SIZE h" "j' \<le> ENTRY_SIZE h"
  shows "slot h c e j = slot h c e' j' \<longleftrightarrow> e = e' \<and> j = j'"
proof
  define k where "k = ENTRY_SIZE h + 1"
  have div: "(x * k + i) div k = x" if "i < k" for x i using that by simp
  assume "slot h c e j = slot h c e' j'"
  then have eq: "e * k + j = e' * k + j'" by (simp add: slot_def k_def)
  have "j < k" "j' < k" using assms by (simp_all add: k_def)
  then have "e = e'" using div [of j e] div [of j' e'] eq by simp
  then show "e = e' \<and> j = j'" using eq by simp
qed simp

lemma slot_low: "i < 4 + c \<Longrightarrow> slot h c e j \<noteq> i" "i < 4 + c \<Longrightarrow> i \<noteq> slot h c e j"
  by (simp_all add: slot_def)

lemma slot_less:
  assumes "layout h t c" "e < c" "j \<le> ENTRY_SIZE h"
  shows "slot h c e j < length t"
proof -
  have "e * (ENTRY_SIZE h + 1) + (ENTRY_SIZE h + 1) \<le> c * (ENTRY_SIZE h + 1)"
    using mult_le_mono1 [of "Suc e" c "ENTRY_SIZE h + 1"] assms(2) by simp
  then show ?thesis using assms(1,3) by (simp add: layout_def slot_def)
qed

lemma layout_update [simp]: "i \<noteq> 2 \<Longrightarrow> layout h (t[i := v]) c \<longleftrightarrow> layout h t c"
  by (simp add: layout_def)

lemma layout_len: "layout h t c \<Longrightarrow> 4 + c \<le> length t"
  by (simp add: layout_def)

lemma layout_slots:
  assumes "layout h t c"
  shows "Capacity t = int c" "EntryToIndex h t e = slot h c e 0" "GetKey h t e = t ! slot h c e 0"
    "GetValue h t e = t ! slot h c e (ENTRY_VALUE_INDEX h)" "GetNextEntry h t e = t ! slot h c e (ENTRY_SIZE h)"
    "SetKey h t e v = t[slot h c e 0 := v]" "SetValue h t e v = t[slot h c e (ENTRY_VALUE_INDEX h) := v]"
    "SetNextEntry h t e v = t[slot h c e (ENTRY_SIZE h) := v]"
  using assms
  by (simp_all add: layout_def Capacity_def EntryToIndex_def slot_def index_consts GetKey_def GetValue_def GetNextEntry_def
      SetKey_def SetValue_def SetNextEntry_def)

text \<open>Writes outside of a slot do not change what is read from it.\<close>

lemma layout_Capacity_update [simp]: "i \<noteq> 2 \<Longrightarrow> Capacity (t[i := v]) = Capacity t"
  by (simp add: Capacity_def index_consts)

lemma NumberOfElements_update [simp]:
  "i \<noteq> 0 \<Longrightarrow> NumberOfElements (t[i := v]) = NumberOfElements t" "t \<noteq> [] \<Longrightarrow> NumberOfElements (t[0 := v]) = GetInt v"
  by (simp_all add: NumberOfElements_def index_consts)

lemma NumberOfDeletedElements_update [simp]:
  "i \<noteq> 1 \<Longrightarrow> NumberOfDeletedElements (t[i := v]) = NumberOfDeletedElements t"
  "1 < length t \<Longrightarrow> NumberOfDeletedElements (t[Suc 0 := v]) = GetInt v"
  by (simp_all add: NumberOfDeletedElements_def index_consts)

lemma GetNextTable_update [simp]:
  "i \<noteq> 3 \<Longrightarrow> GetNextTable (t[i := v]) = GetNextTable t" "3 < length t \<Longrightarrow> GetNextTable (t[3 := v]) = v"
  by (simp_all add: GetNextTable_def index_consts)

lemma HashToBucket_update [simp]: "i \<noteq> 2 \<Longrightarrow> HashToBucket (t[i := v]) hash = HashToBucket t hash"
  by (simp add: HashToBucket_def)

lemma HashToBucket_less:
  assumes "layout h t c" "c = 2 ^ k" "k \<le> 30"
  shows "HashToBucket t hash < c"
proof -
  have "word_of_int (Capacity t - 1) = (mask k :: u32)"
    using assms by (simp add: layout_slots(1) [OF assms(1)] mask_eq_decr_exp)
  then have "HashToBucket t hash = unat (take_bit k hash)" by (simp add: HashToBucket_def take_bit_eq_mask)
  moreover have "unat (take_bit k hash) < 2 ^ k" by (simp add: unsigned_take_bit_eq)
  ultimately show ?thesis using assms(2) by simp
qed

section \<open>Invariant of a table\<close>

definition link_ok :: "nat \<Rightarrow> js_value \<Rightarrow> bool" where
  "link_ok m v \<longleftrightarrow> v = Hole \<or> (\<exists>e < m. v = JSInt (int e))"

inductive linked :: "hash_object \<Rightarrow> tagged_array \<Rightarrow> js_value \<Rightarrow> nat \<Rightarrow> bool" for h t where
  here: "linked h t (JSInt (int e)) e"
| there: "linked h t (GetNextEntry h t e) e' \<Longrightarrow> linked h t (JSInt (int e)) e'"

inductive_simps linked_Hole [simp]: "linked h t Hole e"
inductive_simps linked_Int: "linked h t (JSInt i) e"

definition live_key :: "hash_object \<Rightarrow> tagged_array \<Rightarrow> nat \<Rightarrow> js_value" where
  "live_key h t e = RemoveWeakTag (GetKey h t e)"

text \<open>
  A table with capacity \<open>c\<close> whose first \<open>m\<close> entries are used: the entries of a bucket are linked in descending order,
  every entry that is not deleted is linked in the bucket of its hash, and its key occurs once.
\<close>

definition table_inv :: "table_ops \<Rightarrow> hash_object \<Rightarrow> tagged_array \<Rightarrow> nat \<Rightarrow> nat \<Rightarrow> bool" where
  "table_inv ops h t c m \<longleftrightarrow>
     layout h t c \<and> (\<exists>k \<le> 30. c = 2 ^ k) \<and> m \<le> c \<and>
     (\<forall>b < c. link_ok m (t ! (b + 4))) \<and> (\<forall>e < m. link_ok e (GetNextEntry h t e)) \<and>
     (\<forall>e < m. GetKey h t e \<noteq> Hole \<longrightarrow>
        linked h t (t ! (HashToBucket t (LinkedHash_Hash ops (live_key h t e)) + 4)) e) \<and>
     (\<forall>e < m. \<forall>e' < m. GetKey h t e \<noteq> Hole \<longrightarrow> GetKey h t e' \<noteq> Hole \<longrightarrow>
        SameValueZero ops (live_key h t e) (live_key h t e') \<longrightarrow> e = e')"

text \<open>
  The rounding of the platform library: the least power of two that is not below its argument.
\<close>

definition pow2_ok :: "(u32 \<Rightarrow> u32) \<Rightarrow> bool" where
  "pow2_ok f \<longleftrightarrow> (\<forall>x. unat x \<le> 2 ^ 30 \<longrightarrow>
     (\<exists>k \<le> 30. unat (f x) = 2 ^ k \<and> unat x \<le> 2 ^ k \<and> (k = 0 \<or> 2 ^ (k - 1) < unat x)))"

definition ops_ok :: "table_ops \<Rightarrow> bool" where
  "ops_ok ops \<longleftrightarrow> equivp (SameValueZero ops) \<and>
     (\<forall>x y. SameValueZero ops x y \<longrightarrow> LinkedHash_Hash ops x = LinkedHash_Hash ops y) \<and>
     pow2_ok (GetPowerOfTwoValue32 ops)"

lemma table_invD:
  assumes "table_inv ops h t c m"
  shows "layout h t c" "m \<le> c" "b < c \<Longrightarrow> link_ok m (t ! (b + 4))" "e < m \<Longrightarrow> link_ok e (GetNextEntry h t e)"
    "e < m \<Longrightarrow> GetKey h t e \<noteq> Hole \<Longrightarrow> linked h t (t ! (HashToBucket t (LinkedHash_Hash ops (live_key h t e)) + 4)) e"
    "e < m \<Longrightarrow> e' < m \<Longrightarrow> GetKey h t e \<noteq> Hole \<Longrightarrow> GetKey h t e' \<noteq> Hole \<Longrightarrow>
      SameValueZero ops (live_key h t e) (live_key h t e') \<Longrightarrow> e = e'"
    "HashToBucket t hash < c" "\<exists>k \<le> 30. c = 2 ^ k"
proof -
  show "HashToBucket t hash < c" using assms HashToBucket_less by (auto simp: table_inv_def)
qed (use assms in \<open>auto simp: table_inv_def\<close>)

definition matches :: "table_ops \<Rightarrow> js_value \<Rightarrow> js_value \<Rightarrow> bool" where
  "matches ops key k \<longleftrightarrow> SameValueZero ops key (RemoveWeakTag k)"

lemma find_entry_ok:
  assumes inv: "table_inv ops h t c m" and "link_ok n v" "n \<le> m"
  shows "(find_entry ops h t key v = Some (- 1) \<and> (\<forall>e. linked h t v e \<longrightarrow> GetKey h t e = Hole \<or> \<not> matches ops key (GetKey h t e))) \<or>
    (\<exists>e < n. find_entry ops h t key v = Some (int e) \<and> GetKey h t e \<noteq> Hole \<and> matches ops key (GetKey h t e))"
  using assms(2,3)
proof (induction n arbitrary: v rule: less_induct)
  case (less n)
  show ?case
  proof (cases "v = Hole")
    case True
    then show ?thesis by (simp add: find_entry.simps)
  next
    case False
    then obtain e where e: "e < n" "v = JSInt (int e)" using less.prems(1) by (auto simp: link_ok_def)
    have "link_ok e (GetNextEntry h t e)" using table_invD(4) [OF inv, of e] e(1) less.prems(2) by simp
    note IH = less.IH [OF e(1) this] and le = e(1) less.prems(2)
    have find: "find_entry ops h t key v = (if GetKey h t e \<noteq> Hole \<and> matches ops key (GetKey h t e) then Some (int e)
      else find_entry ops h t key (GetNextEntry h t e))"
      by (subst find_entry.simps) (simp add: e(2) matches_def Let_def)
    then show ?thesis
    proof (cases "GetKey h t e \<noteq> Hole \<and> matches ops key (GetKey h t e)")
      case True
      then show ?thesis using find e(1) by auto
    next
      case False
      have f: "find_entry ops h t key v = find_entry ops h t key (GetNextEntry h t e)"
        using find unfolding if_not_P [OF False] .
      have l: "linked h t v e' \<longleftrightarrow> e' = e \<or> linked h t (GetNextEntry h t e) e'" for e' by (auto simp: e(2) linked_Int)
      show ?thesis using IH le False unfolding f l by (meson less_trans less_imp_le order_trans)
    qed
  qed
qed

lemma FindElement_ok:
  assumes ok: "ops_ok ops" and inv: "table_inv ops h t c m" and key: "IsKey key"
  shows "(FindElement ops h t key = Some (- 1) \<and> (\<forall>e < m. GetKey h t e = Hole \<or> \<not> matches ops key (GetKey h t e))) \<or>
    (\<exists>e < m. FindElement ops h t key = Some (int e) \<and> GetKey h t e \<noteq> Hole \<and> matches ops key (GetKey h t e))"
proof -
  let ?v = "t ! (HashToBucket t (LinkedHash_Hash ops key) + 4)"
  have eq: "FindElement ops h t key = find_entry ops h t key ?v"
    using key by (simp add: FindElement_def Let_def BucketToIndex_def index_consts)
  have "link_ok m ?v" using table_invD(3,7) [OF inv] by simp
  moreover have "linked h t ?v e" if "e < m" "GetKey h t e \<noteq> Hole" "matches ops key (GetKey h t e)" for e
    using table_invD(5) [OF inv that(1,2)] that(3) ok by (auto simp: ops_ok_def matches_def live_key_def)
  ultimately show ?thesis using find_entry_ok [OF inv, of m ?v key] unfolding eq by blast
qed

section \<open>Entries\<close>

primrec live :: "'a option list \<Rightarrow> 'a list" where
  "live [] = []"
| "live (x # xs) = (case x of None \<Rightarrow> live xs | Some y \<Rightarrow> y # live xs)"

lemma live_append [simp]: "live (xs @ ys) = live xs @ live ys"
  by (induction xs) (auto split: option.split)

lemma live_map_Some [simp]: "live (map Some xs) = xs"
  by (induction xs) auto

lemma live_map_None [simp]: "live (map (\<lambda>x. None) xs) = []"
  by (induction xs) auto

lemma live_map_option: "live (map (map_option f) xs) = map f (live xs)"
  by (induction xs) (auto split: option.split)

lemma set_live: "x \<in> set (live xs) \<longleftrightarrow> Some x \<in> set xs"
  by (induction xs) (auto split: option.splits)

lemma length_live_le: "length (live xs) \<le> length xs"
  by (induction xs) (auto split: option.split)

definition row :: "hash_object \<Rightarrow> tagged_array \<Rightarrow> nat \<Rightarrow> (js_value \<times> js_value) option" where
  "row h t e = (if GetKey h t e = Hole then None else Some (GetKey h t e, GetValue h t e))"

definition rows :: "hash_object \<Rightarrow> tagged_array \<Rightarrow> nat \<Rightarrow> (js_value \<times> js_value) option list" where
  "rows h t m = map (row h t) [0..<m]"

lemma rows_simps [simp]: "length (rows h t m) = m" "rows h t 0 = []" "rows h t (Suc m) = rows h t m @ [row h t m]"
  by (simp_all add: rows_def)

lemma rows_nth [simp]: "e < m \<Longrightarrow> rows h t m ! e = row h t e"
  by (simp add: rows_def)

lemma rows_cong: "(\<And>e. e < m \<Longrightarrow> row h t e = row h t' e) \<Longrightarrow> rows h t m = rows h t' m"
  by (simp add: rows_def)

lemma link_ok_mono: "link_ok n v \<Longrightarrow> n \<le> m \<Longrightarrow> link_ok m v"
  by (auto simp: link_ok_def)

lemma linked_cong:
  assumes "linked h t v e" "link_ok m v" "\<And>e. e < m \<Longrightarrow> GetNextEntry h t' e = GetNextEntry h t e"
    "\<And>e. e < m \<Longrightarrow> link_ok e (GetNextEntry h t e)"
  shows "linked h t' v e"
  using assms
proof (induction rule: linked.induct)
  case (there e e')
  then have "e < m" by (auto simp: link_ok_def)
  then show ?case using there link_ok_mono [of e "GetNextEntry h t e" m] by (metis less_imp_le linked.there)
qed (rule linked.here)

lemma ops_okD:
  assumes "ops_ok ops"
  shows "SameValueZero ops x x" "SameValueZero ops x y \<Longrightarrow> SameValueZero ops y x"
    "SameValueZero ops x y \<Longrightarrow> SameValueZero ops y z \<Longrightarrow> SameValueZero ops x z"
    "SameValueZero ops x y \<Longrightarrow> LinkedHash_Hash ops x = LinkedHash_Hash ops y"
proof -
  have eq: "equivp (SameValueZero ops)" using assms by (simp add: ops_ok_def)
  show "SameValueZero ops x x" "SameValueZero ops x y \<Longrightarrow> SameValueZero ops y x"
    "SameValueZero ops x y \<Longrightarrow> SameValueZero ops y z \<Longrightarrow> SameValueZero ops x z"
    using equivp_reflp [OF eq] equivp_symp [OF eq] equivp_transp [OF eq] by blast+
qed (use assms in \<open>auto simp: ops_ok_def\<close>)

text \<open>Deleting an entry or storing an equal key keeps the invariant, if the links stay.\<close>

lemma table_inv_keys:
  assumes ok: "ops_ok ops" and inv: "table_inv ops h t c m" and lay: "layout h t' c"
    and buckets: "\<And>b. b < c \<Longrightarrow> t' ! (b + 4) = t ! (b + 4)"
    and links: "\<And>e. e < m \<Longrightarrow> GetNextEntry h t' e = GetNextEntry h t e"
    and keys: "\<And>e. e < m \<Longrightarrow> GetKey h t' e \<noteq> Hole \<Longrightarrow> GetKey h t e \<noteq> Hole \<and> SameValueZero ops (live_key h t e) (live_key h t' e)"
  shows "table_inv ops h t' c m"
proof -
  note I = table_invD [OF inv]
  have cap: "HashToBucket t' hash = HashToBucket t hash" for hash
    using layout_slots(1) [OF lay] layout_slots(1) [OF I(1)] by (simp add: HashToBucket_def)
  have "linked h t' (t' ! (HashToBucket t' (LinkedHash_Hash ops (live_key h t' e)) + 4)) e"
    if e: "e < m" "GetKey h t' e \<noteq> Hole" for e
  proof -
    have k: "GetKey h t e \<noteq> Hole" "LinkedHash_Hash ops (live_key h t' e) = LinkedHash_Hash ops (live_key h t e)"
      using keys [OF e] ops_okD(4) [OF ok] by metis+
    show ?thesis unfolding cap k(2) buckets [OF I(7)]
      by (rule linked_cong [OF I(5) [OF e(1) k(1)] I(3) [OF I(7)] links I(4)])
  qed
  moreover have "e = e'" if "e < m" "e' < m" "GetKey h t' e \<noteq> Hole" "GetKey h t' e' \<noteq> Hole"
    "SameValueZero ops (live_key h t' e) (live_key h t' e')" for e e'
    using I(6) [OF that(1,2)] keys [OF that(1,3)] keys [OF that(2,4)] that(5) ops_okD(2,3) [OF ok] by meson
  ultimately show ?thesis using I(2,3,4,8) lay buckets links by (auto simp: table_inv_def)
qed

text \<open>A new entry at the head of its bucket keeps the invariant, if its key is new.\<close>

lemma table_inv_append:
  assumes ok: "ops_ok ops" and inv: "table_inv ops h t c m" and m: "m < c" and lay: "layout h t' c"
    and b: "b = HashToBucket t (LinkedHash_Hash ops (live_key h t' m))"
    and buckets: "t' ! (b + 4) = JSInt (int m)" "\<And>b'. b' < c \<Longrightarrow> b' \<noteq> b \<Longrightarrow> t' ! (b' + 4) = t ! (b' + 4)"
    and links: "GetNextEntry h t' m = t ! (b + 4)" "\<And>e. e < m \<Longrightarrow> GetNextEntry h t' e = GetNextEntry h t e"
    and keys: "\<And>e. e < m \<Longrightarrow> GetKey h t' e = GetKey h t e"
    and new: "\<And>e. e < m \<Longrightarrow> GetKey h t e \<noteq> Hole \<Longrightarrow> \<not> SameValueZero ops (live_key h t' m) (live_key h t e)"
  shows "table_inv ops h t' c (Suc m)"
proof -
  note I = table_invD [OF inv]
  have cap: "HashToBucket t' hash = HashToBucket t hash" for hash
    using layout_slots(1) [OF lay] layout_slots(1) [OF I(1)] by (simp add: HashToBucket_def)
  have lk: "live_key h t' e = live_key h t e" if "e < m" for e using keys [OF that] by (simp add: live_key_def)
  have old: "linked h t' v e" if "linked h t v e" "link_ok m v" for v e
    by (rule linked_cong [OF that links(2) I(4)])
  have "linked h t' (t' ! (HashToBucket t' (LinkedHash_Hash ops (live_key h t' e)) + 4)) e"
    if e: "e < Suc m" "GetKey h t' e \<noteq> Hole" for e
  proof (cases "e = m")
    case True
    then show ?thesis using buckets(1) by (simp add: cap b linked.here)
  next
    case False
    then have e': "e < m" "GetKey h t e \<noteq> Hole" using e keys by auto
    let ?b = "HashToBucket t (LinkedHash_Hash ops (live_key h t e))"
    have "linked h t' (t ! (?b + 4)) e" using old [OF I(5) [OF e'] I(3) [OF I(7)]] .
    then show ?thesis unfolding cap lk [OF e'(1)]
      by (cases "?b = b") (simp_all add: buckets links(1) [symmetric] linked.there I(7))
  qed
  moreover have "e = e'" if "e < Suc m" "e' < Suc m" "GetKey h t' e \<noteq> Hole" "GetKey h t' e' \<noteq> Hole"
    "SameValueZero ops (live_key h t' e) (live_key h t' e')" for e e'
  proof (rule ccontr)
    note T = that
    assume ne: "e \<noteq> e'"
    consider "e < m" "e' < m" | "e = m" "e' < m" | "e < m" "e' = m" using T(1,2) ne by linarith
    then show False
    proof cases
      case 1
      then show False using I(6) [OF 1] T(3,4,5) keys lk ne by auto
    next
      case 2
      then show False using new [OF 2(2)] T(4,5) keys lk by auto
    next
      case 3
      then show False using new [OF 3(1)] T(3,5) keys lk ops_okD(2) [OF ok] by metis
    qed
  qed
  moreover have "link_ok (Suc m) (t' ! (b' + 4))" if "b' < c" for b'
    using I(3) [OF that] buckets that link_ok_mono [of m _ "Suc m"] by (cases "b' = b") (auto simp: link_ok_def)
  moreover have "link_ok e (GetNextEntry h t' e)" if "e < Suc m" for e
  proof (cases "e = m")
    case True
    then show ?thesis using links(1) I(3) [OF I(7)] b by simp
  qed (use that links(2) I(4) in auto)
  ultimately show ?thesis using I(8) lay m by (auto simp: table_inv_def)
qed

section \<open>Effects of the operations on one table\<close>

text \<open>The counters and the reference to the next table are apart from the buckets and the entries.\<close>

lemma header_update [simp]:
  assumes "i < 4" "i \<noteq> 2"
  shows "GetKey h (t[i := v]) e = GetKey h t e" "GetValue h (t[i := v]) e = GetValue h t e"
    "GetNextEntry h (t[i := v]) e = GetNextEntry h t e" "row h (t[i := v]) e = row h t e" "rows h (t[i := v]) m = rows h t m"
proof -
  have "EntryToIndex h (t[i := v]) e = EntryToIndex h t e" "t[i := v] ! (EntryToIndex h t e + j) = t ! (EntryToIndex h t e + j)" for e j
    using assms by (simp_all add: EntryToIndex_def index_consts nth_list_update_neq)
  note this(1) this(2) [of _ 0, simplified] this(2)
  then show g: "GetKey h (t[i := v]) e = GetKey h t e" "GetValue h (t[i := v]) e = GetValue h t e"
    "GetNextEntry h (t[i := v]) e = GetNextEntry h t e" for e
    by (simp_all add: GetKey_def GetValue_def GetNextEntry_def)
  then show r: "row h (t[i := v]) e = row h t e" for e by (simp add: row_def)
  show "rows h (t[i := v]) m = rows h t m" by (rule rows_cong) (rule r)
qed

lemma linked_next:
  assumes "\<And>e. GetNextEntry h t' e = GetNextEntry h t e"
  shows "linked h t' v e \<longleftrightarrow> linked h t v e"
proof
  show "linked h t v e" if "linked h t' v e"
    using that by (induction rule: linked.induct) (use assms in \<open>auto intro: linked.intros\<close>)
  show "linked h t' v e" if "linked h t v e"
    using that by (induction rule: linked.induct) (use assms linked.intros in metis)+
qed

lemma table_inv_header [simp]:
  assumes "i < 4" "i \<noteq> 2"
  shows "table_inv ops h (t[i := v]) c m \<longleftrightarrow> table_inv ops h t c m"
proof -
  have "linked h (t[i := v]) x e \<longleftrightarrow> linked h t x e" for x e by (rule linked_next) (use assms in simp)
  then show ?thesis using assms by (simp add: table_inv_def live_key_def nth_list_update_neq)
qed

text \<open>
  Reads after a write to a slot of an entry.
\<close>

lemma slot_update:
  assumes lay: "layout h t c" and obj: "obj_ok h" and e: "e < c" and j: "j \<le> ENTRY_SIZE h"
  shows "layout h (t[slot h c e j := v]) c" "b < c \<Longrightarrow> t[slot h c e j := v] ! (b + 4) = t ! (b + 4)"
    "GetKey h (t[slot h c e j := v]) e' = (if e' = e \<and> j = 0 then v else GetKey h t e')"
    "GetValue h (t[slot h c e j := v]) e' = (if e' = e \<and> j = ENTRY_VALUE_INDEX h then v else GetValue h t e')"
    "GetNextEntry h (t[slot h c e j := v]) e' = (if e' = e \<and> j = ENTRY_SIZE h then v else GetNextEntry h t e')"
    "NumberOfElements (t[slot h c e j := v]) = NumberOfElements t"
    "NumberOfDeletedElements (t[slot h c e j := v]) = NumberOfDeletedElements t"
    "GetNextTable (t[slot h c e j := v]) = GetNextTable t"
proof -
  have len: "slot h c e j < length t" using slot_less [OF lay e j] .
  note O = obj_okD [OF obj]
  have at: "t[slot h c e j := v] ! slot h c e' j' = (if e' = e \<and> j' = j then v else t ! slot h c e' j')"
    if "j' \<le> ENTRY_SIZE h" for e' j'
    using len slot_inj [OF j that, of c e e'] by (auto simp: nth_list_update)
  have ne: "slot h c e j \<noteq> i" if "i < 4" for i using slot_low(1) [of i c h e j] that by simp
  show lay': "layout h (t[slot h c e j := v]) c" using lay ne [of 2] by simp
  show "b < c \<Longrightarrow> t[slot h c e j := v] ! (b + 4) = t ! (b + 4)"
    using slot_low(1) [of "b + 4" c h e j] by (simp add: nth_list_update_neq)
  show "GetKey h (t[slot h c e j := v]) e' = (if e' = e \<and> j = 0 then v else GetKey h t e')"
    "GetValue h (t[slot h c e j := v]) e' = (if e' = e \<and> j = ENTRY_VALUE_INDEX h then v else GetValue h t e')"
    "GetNextEntry h (t[slot h c e j := v]) e' = (if e' = e \<and> j = ENTRY_SIZE h then v else GetNextEntry h t e')"
    unfolding layout_slots [OF lay] layout_slots [OF lay'] using O by (auto simp: at)
  show "NumberOfElements (t[slot h c e j := v]) = NumberOfElements t"
    "NumberOfDeletedElements (t[slot h c e j := v]) = NumberOfDeletedElements t"
    "GetNextTable (t[slot h c e j := v]) = GetNextTable t"
    using ne [of 0] ne [of 1] ne [of 3] by simp_all
qed

lemma bucket_update:
  assumes lay: "layout h t c" and b: "b < c"
  shows "layout h (t[b + 4 := v]) c" "b' < c \<Longrightarrow> t[b + 4 := v] ! (b' + 4) = (if b' = b then v else t ! (b' + 4))"
    "GetKey h (t[b + 4 := v]) e = GetKey h t e" "GetValue h (t[b + 4 := v]) e = GetValue h t e"
    "GetNextEntry h (t[b + 4 := v]) e = GetNextEntry h t e"
    "NumberOfElements (t[b + 4 := v]) = NumberOfElements t"
    "NumberOfDeletedElements (t[b + 4 := v]) = NumberOfDeletedElements t"
    "GetNextTable (t[b + 4 := v]) = GetNextTable t"
proof -
  show lay': "layout h (t[b + 4 := v]) c" using lay by simp
  show "b' < c \<Longrightarrow> t[b + 4 := v] ! (b' + 4) = (if b' = b then v else t ! (b' + 4))"
    using layout_len [OF lay] b by (auto simp: nth_list_update)
  have ne: "b + 4 \<noteq> slot h c e j" for j using slot_low(2) [of "b + 4" c h e j] b by simp
  show "GetKey h (t[b + 4 := v]) e = GetKey h t e" "GetValue h (t[b + 4 := v]) e = GetValue h t e"
    "GetNextEntry h (t[b + 4 := v]) e = GetNextEntry h t e"
    unfolding layout_slots [OF lay] layout_slots [OF lay'] using ne by (simp_all add: nth_list_update_neq)
qed simp_all

lemma write_entry:
  fixes f :: "nat \<Rightarrow> js_value"
  assumes lay: "layout h t c" and obj: "obj_ok h" and e: "e < c"
  defines "t' \<equiv> for_up 0 (ENTRY_SIZE h) (\<lambda>j a. a[slot h c e 0 + j := f j]) t"
  shows "layout h t' c" "b < c \<Longrightarrow> t' ! (b + 4) = t ! (b + 4)"
    "GetKey h t' e' = (if e' = e then f 0 else GetKey h t e')"
    "GetValue h t' e' = (if e' = e then f (ENTRY_VALUE_INDEX h) else GetValue h t e')"
    "GetNextEntry h t' e' = GetNextEntry h t e'"
    "NumberOfElements t' = NumberOfElements t" "NumberOfDeletedElements t' = NumberOfDeletedElements t"
    "GetNextTable t' = GetNextTable t"
proof -
  have plus: "slot h c e 0 + j = slot h c e j" for j by (simp add: slot_def)
  consider "h = LinkedHashSetObject" "t' = t[slot h c e 0 := f 0]"
    | "h = LinkedHashMapObject" "t' = t[slot h c e 0 := f 0, slot h c e 1 := f 1]"
    using obj unfolding t'_def plus
    by (auto simp: obj_ok_def LinkedHashSetObject_def LinkedHashMapObject_def for_up_def upt_rec)
  then have "layout h t' c \<and> (b < c \<longrightarrow> t' ! (b + 4) = t ! (b + 4)) \<and>
    GetKey h t' e' = (if e' = e then f 0 else GetKey h t e') \<and>
    GetValue h t' e' = (if e' = e then f (ENTRY_VALUE_INDEX h) else GetValue h t e') \<and>
    GetNextEntry h t' e' = GetNextEntry h t e' \<and>
    NumberOfElements t' = NumberOfElements t \<and> NumberOfDeletedElements t' = NumberOfDeletedElements t \<and>
    GetNextTable t' = GetNextTable t"
  proof cases
    case 1
    then have "ENTRY_SIZE h = 1" "ENTRY_VALUE_INDEX h = 0" by (simp_all add: LinkedHashSetObject_def)
    then show ?thesis using slot_update [OF lay obj e, where j = 0 and v = "f 0"] 1(2) by simp
  next
    case 2
    then have s: "ENTRY_SIZE h = 2" "ENTRY_VALUE_INDEX h = 1" by (simp_all add: LinkedHashMapObject_def)
    note u1 = slot_update [OF lay obj e, where j = 0 and v = "f 0"]
    show ?thesis using u1 slot_update [OF u1(1) obj e, where j = 1 and v = "f 1"] 2(2) s by simp
  qed
  then show "layout h t' c" "b < c \<Longrightarrow> t' ! (b + 4) = t ! (b + 4)"
    "GetKey h t' e' = (if e' = e then f 0 else GetKey h t e')"
    "GetValue h t' e' = (if e' = e then f (ENTRY_VALUE_INDEX h) else GetValue h t e')"
    "GetNextEntry h t' e' = GetNextEntry h t e'"
    "NumberOfElements t' = NumberOfElements t" "NumberOfDeletedElements t' = NumberOfDeletedElements t"
    "GetNextTable t' = GetNextTable t" by blast+
qed

lemma live_update_None: "e < length xs \<Longrightarrow> xs ! e = Some x \<Longrightarrow> length (live xs) = Suc (length (live (xs[e := None])))"
  by (induction xs arbitrary: e) (auto simp: nth_Cons split: nat.split nat.splits option.split)

lemma live_update_Some: "e < length xs \<Longrightarrow> xs ! e = Some x \<Longrightarrow> length (live (xs[e := Some y])) = length (live xs)"
  by (induction xs arbitrary: e) (auto simp: nth_Cons split: nat.split nat.splits option.split)

text \<open>
  A table in use: the counters agree with its entries, and no newer table replaces it.
\<close>

definition used :: "tagged_array \<Rightarrow> nat" where
  "used t = nat (NumberOfElements t + NumberOfDeletedElements t)"

definition entries :: "hash_object \<Rightarrow> tagged_array \<Rightarrow> (js_value \<times> js_value) option list" where
  "entries h t = rows h t (used t)"

definition wf_table :: "table_ops \<Rightarrow> hash_object \<Rightarrow> tagged_array \<Rightarrow> bool" where
  "wf_table ops h t \<longleftrightarrow> (\<exists>c. table_inv ops h t c (used t)) \<and> NumberOfElements t = int (length (live (entries h t))) \<and>
     0 \<le> NumberOfDeletedElements t \<and> GetNextTable t = Hole"

lemma length_entries [simp]: "length (entries h t) = used t"
  by (simp add: entries_def)

lemma used_int: "wf_table ops h t \<Longrightarrow> NumberOfElements t + NumberOfDeletedElements t = int (used t)"
  by (simp add: wf_table_def used_def)

lemma wf_tableI:
  assumes "table_inv ops h t c m" "NumberOfElements t + NumberOfDeletedElements t = int m"
    "NumberOfElements t = int (length (live (rows h t m)))" "GetNextTable t = Hole"
  shows "wf_table ops h t" "used t = m" "entries h t = rows h t m"
proof -
  show u: "used t = m" using assms(2) by (simp add: used_def)
  show "entries h t = rows h t m" by (simp add: entries_def u)
  have "length (live (rows h t m)) \<le> m" using length_live_le [of "rows h t m"] by simp
  then show "wf_table ops h t" using assms u by (auto simp: wf_table_def entries_def)
qed

lemma entries_nth: "e < used t \<Longrightarrow> entries h t ! e = row h t e"
  by (simp add: entries_def)

lemma wf_SetValue:
  assumes ok: "ops_ok ops" and obj: "obj_ok h" and wf: "wf_table ops h t" and e: "e < used t" and live: "GetKey h t e \<noteq> Hole"
    and set: "h = LinkedHashSetObject \<Longrightarrow> v \<noteq> Hole \<and> SameValueZero ops (live_key h t e) (RemoveWeakTag v)"
  shows "wf_table ops h (SetValue h t e v)"
    "entries h (SetValue h t e v) = (entries h t)[e := Some (if h = LinkedHashSetObject then v else GetKey h t e, v)]"
proof -
  obtain c where inv: "table_inv ops h t c (used t)" using wf by (auto simp: wf_table_def)
  note I = table_invD [OF inv] and O = obj_okD [OF obj]
  have ec: "e < c" using e I(2) by simp
  define t' where "t' = SetValue h t e v"
  have t': "t' = t[slot h c e (ENTRY_VALUE_INDEX h) := v]" unfolding t'_def layout_slots [OF I(1)] ..
  have vi: "ENTRY_VALUE_INDEX h \<le> ENTRY_SIZE h" "ENTRY_VALUE_INDEX h \<noteq> ENTRY_SIZE h" "ENTRY_VALUE_INDEX h = 0 \<longleftrightarrow> h = LinkedHashSetObject"
    using O obj by (auto simp: obj_ok_def LinkedHashMapObject_def LinkedHashSetObject_def)
  note U = slot_update [OF I(1) obj ec vi(1), where v = v, folded t']
  have key: "GetKey h t' e' = (if e' = e \<and> h = LinkedHashSetObject then v else GetKey h t e')" for e' using U(3) vi(3) by simp
  have k: "GetKey h t' e' \<noteq> Hole \<Longrightarrow> GetKey h t e' \<noteq> Hole \<and> SameValueZero ops (live_key h t e') (live_key h t' e')" for e'
    using live set ops_okD(1) [OF ok] by (auto simp: key live_key_def split: if_splits)
  have inv': "table_inv ops h t' c (used t)"
    using U(5) vi by (intro table_inv_keys [OF ok inv U(1)] U(2) k) auto
  have "row h t' e' = (if e' = e then Some (if h = LinkedHashSetObject then v else GetKey h t e, v) else row h t e')" for e'
    using live set by (auto simp: row_def key U(4))
  then have rows: "rows h t' (used t) = (entries h t)[e := Some (if h = LinkedHashSetObject then v else GetKey h t e, v)]"
    by (auto intro!: nth_equalityI simp: nth_list_update entries_nth)
  have "length (live (rows h t' (used t))) = length (live (entries h t))" unfolding rows
    using live_update_Some [of e "entries h t"] e live by (simp add: entries_nth row_def)
  then have "wf_table ops h t' \<and> entries h t' = rows h t' (used t)"
    using wf_tableI [OF inv'] wf used_int [OF wf] U(6-8) by (simp add: wf_table_def)
  then show "wf_table ops h (SetValue h t e v)"
    "entries h (SetValue h t e v) = (entries h t)[e := Some (if h = LinkedHashSetObject then v else GetKey h t e, v)]"
    using rows by (simp_all add: t'_def)
qed

lemma wf_RemoveEntry:
  assumes ok: "ops_ok ops" and obj: "obj_ok h" and wf: "wf_table ops h t" and e: "e < used t" and live: "GetKey h t e \<noteq> Hole"
  shows "wf_table ops h (RemoveEntry h t e)" "entries h (RemoveEntry h t e) = (entries h t)[e := None]"
proof -
  obtain c where inv: "table_inv ops h t c (used t)" using wf by (auto simp: wf_table_def)
  note I = table_invD [OF inv] and O = obj_okD [OF obj]
  have ec: "e < c" using e I(2) by simp
  define t1 where "t1 = for_up 0 (ENTRY_SIZE h) (\<lambda>i a. a[slot h c e 0 + i := Hole]) t"
  define t' where "t' = RemoveEntry h t e"
  note U = write_entry [OF I(1) obj ec, where f = "\<lambda>i. Hole", folded t1_def]
  have t': "t' = t1[0 := JSInt (NumberOfElements t - 1), Suc 0 := JSInt (NumberOfDeletedElements t + 1)]"
    using U(6,7) unfolding t'_def RemoveEntry_def layout_slots [OF I(1)] Let_def t1_def [symmetric]
    by (simp add: SetNumberOfElements_def SetNumberOfDeletedElements_def index_consts)
  have k: "GetKey h t1 e' \<noteq> Hole \<Longrightarrow> GetKey h t e' \<noteq> Hole \<and> SameValueZero ops (live_key h t e') (live_key h t1 e')" for e'
    using ops_okD(1) [OF ok] by (auto simp: U(3) live_key_def split: if_splits)
  have inv': "table_inv ops h t' c (used t)"
    unfolding t' using U(5) by (simp, intro table_inv_keys [OF ok inv U(1)] U(2) k) auto
  have "row h t' e' = (if e' = e then None else row h t e')" for e' by (simp add: t' row_def U(3,4))
  then have rows: "rows h t' (used t) = (entries h t)[e := None]"
    by (auto intro!: nth_equalityI simp: nth_list_update entries_nth)
  have "entries h t ! e = Some (GetKey h t e, GetValue h t e)" using e live by (simp add: entries_nth row_def)
  then have "length (live (entries h t)) = Suc (length (live (rows h t' (used t))))" unfolding rows
    using live_update_None [of e "entries h t"] e by simp
  moreover have "length t1 > 3" "t1 \<noteq> []" using layout_len [OF U(1)] ec by auto
  ultimately have "wf_table ops h t' \<and> entries h t' = rows h t' (used t)"
    using wf_tableI [OF inv'] wf used_int [OF wf] U(6-8) by (simp add: wf_table_def t')
  then show "wf_table ops h (RemoveEntry h t e)" "entries h (RemoveEntry h t e) = (entries h t)[e := None]"
    using rows by (simp_all add: t'_def)
qed

lemma RemoveEntryFromGCThread_eq: "RemoveEntryFromGCThread h t e = RemoveEntry h t e"
  by (simp add: RemoveEntryFromGCThread_def RemoveEntry_def Let_def SetNumberOfElements_def SetNumberOfDeletedElements_def index_consts)

text \<open>The state of a table after the links, the key and the value of a new entry have been written.\<close>

lemma new_entry:
  assumes ok: "ops_ok ops" and obj: "obj_ok h" and inv: "table_inv ops h t c m" and m: "m < c"
    and lay: "layout h t' c"
    and b: "b = HashToBucket t (LinkedHash_Hash ops (RemoveWeakTag k))"
    and t1: "t1 = InsertNewEntry h t b m"
    and buckets: "\<And>b. b < c \<Longrightarrow> t' ! (b + 4) = t1 ! (b + 4)" and links: "\<And>e. GetNextEntry h t' e = GetNextEntry h t1 e"
    and keys: "\<And>e. GetKey h t' e = (if e = m then k else GetKey h t1 e)"
    and vals: "\<And>e. GetValue h t' e = (if e = m then v else GetValue h t1 e)"
    and k: "k \<noteq> Hole" and new: "\<And>e. e < m \<Longrightarrow> GetKey h t e \<noteq> Hole \<Longrightarrow> \<not> matches ops (RemoveWeakTag k) (GetKey h t e)"
  shows "table_inv ops h t' c (Suc m)" "rows h t' (Suc m) = rows h t m @ [Some (k, v)]"
proof -
  note I = table_invD [OF inv]
  have bc: "b < c" unfolding b by (rule I(7))
  have t1': "t1 = t[slot h c m (ENTRY_SIZE h) := t ! (b + 4), b + 4 := JSInt (int m)]"
    by (simp add: t1 InsertNewEntry_def Let_def BucketToIndex_def index_consts layout_slots [OF I(1)])
  note U = slot_update [OF I(1) obj m order.refl, where v = "t ! (b + 4)"]
  note B = bucket_update [OF U(1) bc, where v = "JSInt (int m)", folded t1']
  have O: "ENTRY_SIZE h \<noteq> 0" "ENTRY_SIZE h \<noteq> ENTRY_VALUE_INDEX h" using obj_okD [OF obj] by auto
  have live: "live_key h t' m = RemoveWeakTag k" by (simp add: live_key_def keys)
  show "table_inv ops h t' c (Suc m)"
  proof (rule table_inv_append [OF ok inv m lay])
    show "b = HashToBucket t (LinkedHash_Hash ops (live_key h t' m))" by (simp add: live b)
    show "t' ! (b + 4) = JSInt (int m)" "\<And>b'. b' < c \<Longrightarrow> b' \<noteq> b \<Longrightarrow> t' ! (b' + 4) = t ! (b' + 4)"
      using bc B(2) U(2) by (simp_all add: buckets)
    show "GetNextEntry h t' m = t ! (b + 4)" "\<And>e. e < m \<Longrightarrow> GetNextEntry h t' e = GetNextEntry h t e"
      by (simp_all add: links B(5) U(5))
    show "\<And>e. e < m \<Longrightarrow> GetKey h t' e = GetKey h t e" using O by (simp add: keys B(3) U(3))
    show "\<And>e. e < m \<Longrightarrow> GetKey h t e \<noteq> Hole \<Longrightarrow> \<not> SameValueZero ops (live_key h t' m) (live_key h t e)"
      unfolding live using new by (simp add: matches_def live_key_def)
  qed
  have "row h t' e = (if e = m then Some (k, v) else row h t e)" for e
    using O k by (simp add: row_def keys vals B(3,4) U(3,4))
  then show "rows h t' (Suc m) = rows h t m @ [Some (k, v)]" using rows_cong [of m h t' t] by simp
qed

lemma wf_append_entry:
  assumes ok: "ops_ok ops" and obj: "obj_ok h" and wf: "wf_table ops h t" and room: "int (used t) < Capacity t"
    and hash: "hash = LinkedHash_Hash ops (RemoveWeakTag k)" and k: "k \<noteq> Hole"
    and val: "h = LinkedHashMapObject \<and> val = Some v \<or> h = LinkedHashSetObject \<and> v = k \<and> (val = None \<or> val = Some k)"
    and new: "\<And>e. e < used t \<Longrightarrow> GetKey h t e \<noteq> Hole \<Longrightarrow> \<not> matches ops (RemoveWeakTag k) (GetKey h t e)"
  shows "wf_table ops h (append_entry ops h hash k val t)" "entries h (append_entry ops h hash k val t) = entries h t @ [Some (k, v)]"
proof -
  obtain c where inv: "table_inv ops h t c (used t)" using wf by (auto simp: wf_table_def)
  note I = table_invD [OF inv]
  let ?m = "used t" and ?b = "HashToBucket t hash"
  have m: "?m < c" using room layout_slots(1) [OF I(1)] by simp
  define t1 where "t1 = InsertNewEntry h t ?b ?m"
  have t1: "t1 = t[slot h c ?m (ENTRY_SIZE h) := t ! (?b + 4), ?b + 4 := JSInt (int ?m)]"
    by (simp add: t1_def InsertNewEntry_def Let_def BucketToIndex_def index_consts layout_slots [OF I(1)])
  note U = slot_update [OF I(1) obj m order.refl, where v = "t ! (?b + 4)"]
  note B = bucket_update [OF U(1) I(7) [where hash = hash], where v = "JSInt (int ?m)", folded t1]
  define t2 where "t2 = (let u = SetKey h t1 ?m k in case val of None \<Rightarrow> u | Some w \<Rightarrow> SetValue h u ?m w)"
  note K = slot_update [OF B(1) obj m, where j = 0 and v = k, simplified]
  note V = slot_update [OF K(1) obj m, where j = 1 and v = v]
  have "layout h t2 c \<and> (\<forall>b < c. t2 ! (b + 4) = t1 ! (b + 4)) \<and> (\<forall>e. GetNextEntry h t2 e = GetNextEntry h t1 e) \<and>
    (\<forall>e. GetKey h t2 e = (if e = ?m then k else GetKey h t1 e)) \<and> (\<forall>e. GetValue h t2 e = (if e = ?m then v else GetValue h t1 e)) \<and>
    NumberOfElements t2 = NumberOfElements t \<and> NumberOfDeletedElements t2 = NumberOfDeletedElements t \<and> GetNextTable t2 = GetNextTable t"
    using val
  proof (elim disjE conjE)
    assume *: "h = LinkedHashMapObject" "val = Some v"
    then have s: "ENTRY_SIZE h = 2" "ENTRY_VALUE_INDEX h = 1" by (simp_all add: LinkedHashMapObject_def)
    then have "t2 = t1[slot h c ?m 0 := k, slot h c ?m 1 := v]"
      using *(2) by (simp add: t2_def layout_slots [OF B(1)] layout_slots [OF K(1)])
    then show ?thesis using K V B(6-8) U(6-8) s by simp
  next
    assume *: "h = LinkedHashSetObject" "v = k" "val = None"
    then have s: "ENTRY_SIZE h = 1" "ENTRY_VALUE_INDEX h = 0" by (simp_all add: LinkedHashSetObject_def)
    then have "t2 = t1[slot h c ?m 0 := k]" using *(3) by (simp add: t2_def layout_slots [OF B(1)])
    then show ?thesis using K B(6-8) U(6-8) s *(2) by simp
  next
    assume *: "h = LinkedHashSetObject" "v = k" "val = Some k"
    then have s: "ENTRY_SIZE h = 1" "ENTRY_VALUE_INDEX h = 0" by (simp_all add: LinkedHashSetObject_def)
    then have "t2 = t1[slot h c ?m 0 := k]" using *(3) by (simp add: t2_def layout_slots [OF B(1)] layout_slots [OF K(1)])
    then show ?thesis using K B(6-8) U(6-8) s *(2) by simp
  qed
  then have lay: "layout h t2 c" and T: "\<And>b. b < c \<Longrightarrow> t2 ! (b + 4) = t1 ! (b + 4)" "\<And>e. GetNextEntry h t2 e = GetNextEntry h t1 e"
    "\<And>e. GetKey h t2 e = (if e = ?m then k else GetKey h t1 e)" "\<And>e. GetValue h t2 e = (if e = ?m then v else GetValue h t1 e)"
    and hd: "NumberOfElements t2 = NumberOfElements t" "NumberOfDeletedElements t2 = NumberOfDeletedElements t" "GetNextTable t2 = GetNextTable t"
    by blast+
  note N = new_entry [OF ok obj inv m lay arg_cong [OF hash] t1_def T k new]
  define t' where "t' = append_entry ops h hash k val t"
  have t': "t' = t2[0 := JSInt (NumberOfElements t + 1)]"
  proof -
    have "t' = SetNumberOfElements t2 (NumberOfElements t2 + 1)"
      unfolding t'_def append_entry_def t2_def t1_def Let_def used_def by (rule refl)
    then show ?thesis using hd(1) by (simp add: SetNumberOfElements_def index_consts)
  qed
  have inv': "table_inv ops h t' c (Suc ?m)" using N(1) by (simp add: t')
  have rows: "rows h t' (Suc ?m) = entries h t @ [Some (k, v)]" using N(2) by (simp add: t' entries_def del: rows_simps)
  have "length t2 > 3" "t2 \<noteq> []" using layout_len [OF lay] m by auto
  then have "NumberOfElements t' = NumberOfElements t + 1" "NumberOfDeletedElements t' = NumberOfDeletedElements t"
    "GetNextTable t' = Hole" using hd wf by (simp_all add: t' wf_table_def)
  then have "NumberOfElements t' + NumberOfDeletedElements t' = int (Suc ?m)"
    "NumberOfElements t' = int (length (live (rows h t' (Suc ?m))))" "GetNextTable t' = Hole"
    using used_int [OF wf] wf unfolding rows by (simp_all add: wf_table_def)
  note W = wf_tableI [OF inv' this]
  show "wf_table ops h (append_entry ops h hash k val t)" "entries h (append_entry ops h hash k val t) = entries h t @ [Some (k, v)]"
    using W(1,3) unfolding rows by (simp_all add: t'_def)
qed

section \<open>Rehashing\<close>

lemma Create_ok:
  assumes c: "c = 2 ^ k" "k \<le> 30" and obj: "obj_ok h"
  shows "table_inv ops h (Create h (int c)) c 0" "wf_table ops h (Create h (int c))" "entries h (Create h (int c)) = []"
    "Capacity (Create h (int c)) = int c"
proof -
  let ?t = "Create h (int c)"
  have t: "?t = (replicate (4 + c + c * (ENTRY_SIZE h + 1)) Hole)[0 := JSInt 0, Suc 0 := JSInt 0, 2 := JSInt (int c)]"
    by (simp add: Create_def Let_def NewTaggedArray_def SetNumberOfElements_def SetNumberOfDeletedElements_def SetCapacity_def index_consts)
  have lay: "layout h ?t c" by (simp add: layout_def t)
  have "?t ! (b + 4) = Hole" if "b < c" for b using that by (simp add: t nth_list_update_neq)
  then show inv: "table_inv ops h ?t c 0" using lay c by (auto simp: table_inv_def link_ok_def)
  have "NumberOfElements ?t = 0" "NumberOfDeletedElements ?t = 0" "GetNextTable ?t = Hole"
    by (simp_all add: t NumberOfElements_def NumberOfDeletedElements_def GetNextTable_def index_consts nth_list_update_neq)
  then show "wf_table ops h ?t" "entries h ?t = []" using wf_tableI [OF inv] by simp_all
  show "Capacity ?t = int c" by (rule layout_slots(1) [OF lay])
qed

lemma rows_take: "i \<le> m \<Longrightarrow> take i (rows h t m) = rows h t i"
  by (simp add: rows_def take_map)

lemma row_in_rows: "Some r \<in> set (rows h t m) \<Longrightarrow> \<exists>e < m. row h t e = Some r"
  by (auto simp: rows_def)

definition hole_count :: "hash_object \<Rightarrow> tagged_array \<Rightarrow> nat \<Rightarrow> int" where
  "hole_count h t i = int i - int (length (live (rows h t i)))"

lemma hole_count_Suc: "hole_count h t (Suc i) = (if GetKey h t i = Hole then hole_count h t i + 1 else hole_count h t i)"
  by (simp add: hole_count_def row_def)

text \<open>What a step of the loop of \<open>Rehash\<close> keeps, after \<open>i\<close> entries of the table \<open>t\<close>.\<close>

definition rehash_inv ::
  "table_ops \<Rightarrow> hash_object \<Rightarrow> tagged_array \<Rightarrow> nat \<Rightarrow> nat \<Rightarrow> nat \<Rightarrow> tagged_array \<times> tagged_array \<times> nat \<times> int \<Rightarrow> bool" where
  "rehash_inv ops h t c c' i s = (case s of (u, n, des, del) \<Rightarrow>
     layout h u c \<and> (\<forall>e. GetKey h u e = GetKey h t e) \<and> (\<forall>e. GetValue h u e = GetValue h t e) \<and>
     NumberOfElements u = NumberOfElements t \<and> NumberOfDeletedElements u = NumberOfDeletedElements t \<and> GetNextTable u = GetNextTable t \<and>
     (\<forall>e < i. GetKey h t e = Hole \<longrightarrow> GetNextEntry h u e = JSInt (hole_count h t (Suc e))) \<and>
     des = length (live (rows h t i)) \<and> del = hole_count h t i \<and>
     table_inv ops h n c' des \<and> rows h n des = map Some (live (rows h t i)) \<and> GetNextTable n = Hole)"

text \<open>What \<open>Rehash\<close> needs of the table it reads.\<close>

definition distinct_rows :: "table_ops \<Rightarrow> hash_object \<Rightarrow> tagged_array \<Rightarrow> nat \<Rightarrow> nat \<Rightarrow> bool" where
  "distinct_rows ops h t c m \<longleftrightarrow> layout h t c \<and> 0 < c \<and> m \<le> c \<and>
     (\<forall>e < m. \<forall>e' < m. GetKey h t e \<noteq> Hole \<longrightarrow> GetKey h t e' \<noteq> Hole \<longrightarrow>
        SameValueZero ops (live_key h t e) (live_key h t e') \<longrightarrow> e = e')"

lemma table_inv_distinct: "table_inv ops h t c m \<Longrightarrow> distinct_rows ops h t c m"
  by (auto simp: table_inv_def distinct_rows_def)

lemma distinct_rowsD:
  assumes "distinct_rows ops h t c m"
  shows "layout h t c" "0 < c" "m \<le> c"
    "e < m \<Longrightarrow> e' < m \<Longrightarrow> GetKey h t e \<noteq> Hole \<Longrightarrow> GetKey h t e' \<noteq> Hole \<Longrightarrow>
      SameValueZero ops (live_key h t e) (live_key h t e') \<Longrightarrow> e = e'"
  using assms by (auto simp: distinct_rows_def)

lemma rehash_step_ok:
  assumes ok: "ops_ok ops" and obj: "obj_ok h" and inv: "distinct_rows ops h t c m" and i: "i < m"
    and room: "length (live (rows h t m)) \<le> c'" and R: "rehash_inv ops h t c c' i s"
  shows "rehash_inv ops h t c c' (Suc i) (rehash_step ops h i s)"
proof -
  obtain u n des del where s: "s = (u, n, des, del)" by (metis prod.exhaust)
  have lay: "layout h u c" and K: "\<And>e. GetKey h u e = GetKey h t e" "\<And>e. GetValue h u e = GetValue h t e"
    and hd: "NumberOfElements u = NumberOfElements t" "NumberOfDeletedElements u = NumberOfDeletedElements t" "GetNextTable u = GetNextTable t"
    and nums: "\<And>e. e < i \<Longrightarrow> GetKey h t e = Hole \<Longrightarrow> GetNextEntry h u e = JSInt (hole_count h t (Suc e))"
    and des: "des = length (live (rows h t i))" and del: "del = hole_count h t i"
    and invn: "table_inv ops h n c' des" and rows: "rows h n des = map Some (live (rows h t i))" and nxt: "GetNextTable n = Hole"
    using R by (auto simp: rehash_inv_def s)
  note I = distinct_rowsD [OF inv]
  have ic: "i < c" using i I(3) by simp
  have at: "u ! EntryToIndex h u i = GetKey h t i" using K(1) by (simp add: GetKey_def)
  show ?thesis
  proof (cases "GetKey h t i = Hole")
    case True
    note U = slot_update [OF lay obj ic order.refl, where v = "JSInt (del + 1)"]
    have step: "rehash_step ops h i s = (u[slot h c i (ENTRY_SIZE h) := JSInt (del + 1)], n, des, del + 1)"
      using True at by (simp add: rehash_step_def s SetDeletedNum_def layout_slots [OF lay])
    have "ENTRY_SIZE h \<noteq> 0" "ENTRY_SIZE h \<noteq> ENTRY_VALUE_INDEX h" using obj_okD [OF obj] by auto
    then show ?thesis unfolding step rehash_inv_def
      using U K hd nums des del invn rows nxt True by (auto simp: hole_count_Suc row_def less_Suc_eq)
  next
    case False
    let ?k = "GetKey h t i"
    let ?b = "HashToBucket n (LinkedHash_Hash ops (RemoveWeakTag ?k))"
    have r: "row h t i = Some (?k, GetValue h t i)" using False by (simp add: row_def)
    have "length (live (rows h t (Suc i))) \<le> length (live (rows h t m))"
      using i length_live_le by (metis Suc_leI append_take_drop_id le_add1 length_append live_append rows_take)
    then have dc: "des < c'" using room des r by simp
    note In = table_invD [OF invn]
    define n1 where "n1 = InsertNewEntry h n ?b des"
    have n1: "n1 = n[slot h c' des (ENTRY_SIZE h) := n ! (?b + 4), ?b + 4 := JSInt (int des)]"
      by (simp add: n1_def InsertNewEntry_def Let_def BucketToIndex_def index_consts layout_slots [OF In(1)])
    note U = slot_update [OF In(1) obj dc order.refl, where v = "n ! (?b + 4)"]
    note B = bucket_update [OF U(1) In(7) [where hash = "LinkedHash_Hash ops (RemoveWeakTag ?k)"], where v = "JSInt (int des)", folded n1]
    define n2 where "n2 = for_up 0 (ENTRY_SIZE h) (\<lambda>j a. a[slot h c' des 0 + j := u ! (slot h c i 0 + j)]) n1"
    have step: "rehash_step ops h i s = (u, n2, Suc des, del)"
      using False at by (simp add: rehash_step_def s Let_def n2_def layout_slots [OF lay] layout_slots [OF B(1)] n1_def [symmetric])
    note W = write_entry [OF B(1) obj dc, where f = "\<lambda>j. u ! (slot h c i 0 + j)", folded n2_def]
    have f: "u ! (slot h c i 0 + 0) = ?k" "u ! (slot h c i 0 + ENTRY_VALUE_INDEX h) = GetValue h t i"
      using K layout_slots(3,4) [OF lay, of i] by (simp_all add: slot_def)
    have new: "\<not> matches ops (RemoveWeakTag ?k) (GetKey h n e)" if e: "e < des" "GetKey h n e \<noteq> Hole" for e
    proof
      assume m: "matches ops (RemoveWeakTag ?k) (GetKey h n e)"
      have "rows h n des ! e = Some (GetKey h n e, GetValue h n e)" using e by (simp add: row_def)
      then have "Some (GetKey h n e, GetValue h n e) \<in> Some ` set (live (rows h t i))"
        using nth_mem [of e "rows h n des"] e(1) rows des by simp
      then obtain e' where e': "e' < i" "row h t e' = Some (GetKey h n e, GetValue h n e)"
        using row_in_rows [of "(GetKey h n e, GetValue h n e)" h t i] by (auto simp: set_live)
      then have "GetKey h t e' = GetKey h n e" "GetKey h t e' \<noteq> Hole" using e(2) by (auto simp: row_def split: if_splits)
      then have "i = e'" using I(4) [of i e'] m e'(1) i False by (simp add: matches_def live_key_def)
      then show False using e'(1) by simp
    qed
    note N = new_entry [OF ok obj invn dc W(1) refl n1_def W(2) W(5) W(3) [unfolded f] W(4) [unfolded f] False new]
    show ?thesis unfolding step rehash_inv_def
      using lay K hd nums des del N rows r nxt W(8) B(8) U(8) False
      by (auto simp: hole_count_Suc less_Suc_eq simp del: rows_simps(3)) (simp_all add: row_def)
  qed
qed

lemma deleted_below_count:
  assumes "\<And>e. e < i \<Longrightarrow> GetKey h u e = GetKey h t e"
    "\<And>e. e < i \<Longrightarrow> GetKey h t e = Hole \<Longrightarrow> GetNextEntry h u e = JSInt (hole_count h t (Suc e))"
  shows "deleted_below h u i = hole_count h t i"
  using assms
proof (induction i)
  case 0
  then show ?case by (simp add: hole_count_def)
next
  case (Suc i)
  then show ?case by (simp add: GetDeletedNum_def hole_count_Suc)
qed

lemma Rehash_rows:
  assumes ok: "ops_ok ops" and obj: "obj_ok h" and inv: "distinct_rows ops h t c (used t)"
    and numt: "NumberOfElements t = int (length (live (entries h t)))" and delt: "0 \<le> NumberOfDeletedElements t"
    and c': "c' = 2 ^ k" "k \<le> 30" "length (live (entries h t)) \<le> c'"
    and R: "Rehash ops h t a (Create h (int c')) = (t', n)"
  shows "GetNextTable t' = JSRef a" "wf_table ops h n" "entries h n = map Some (live (entries h t))" "Capacity n = int c'"
    "i \<le> used t \<Longrightarrow> GetDeletedElementsAt h t' (int i) = int i - int (length (live (take i (entries h t))))"
proof -
  note I = distinct_rowsD [OF inv]
  let ?m = "used t"
  define t0 where "t0 = SetNextTable t (JSRef a)"
  have t0: "t0 = t[3 := JSRef a]" by (simp add: t0_def SetNextTable_def index_consts)
  have len: "3 < length t" using layout_len [OF I(1)] I(2) by auto
  have inv0: "distinct_rows ops h t0 c ?m" using inv by (simp add: t0 distinct_rows_def live_key_def)
  have rows0: "rows h t0 j = rows h t j" for j by (simp add: t0)
  have k0: "GetKey h t0 e = GetKey h t e" "GetValue h t0 e = GetValue h t e" "hole_count h t0 j = hole_count h t j" for e j
    by (simp_all add: t0 hole_count_def)
  have hd0: "NumberOfElements t0 = NumberOfElements t" "NumberOfDeletedElements t0 = NumberOfDeletedElements t" "GetNextTable t0 = JSRef a"
    using len by (simp_all add: t0)
  note C = Create_ok [OF c'(1,2) obj]
  define s where "s = for_up 0 ?m (rehash_step ops h) (t0, Create h (int c'), 0, 0)"
  have "rehash_inv ops h t0 c c' ?m s" unfolding s_def
  proof (rule for_up_inv [where I = "rehash_inv ops h t0 c c'"])
    show "rehash_inv ops h t0 c c' 0 (t0, Create h (int c'), 0, 0)"
      using distinct_rowsD(1) [OF inv0] C(1,2) by (simp add: rehash_inv_def hole_count_def wf_table_def)
    show "rehash_inv ops h t0 c c' (Suc i) (rehash_step ops h i s)" if "rehash_inv ops h t0 c c' i s" "i < ?m" for i s
      using rehash_step_ok [OF ok obj inv0 that(2) _ that(1)] c'(3) by (simp add: rows0 entries_def)
  qed simp
  moreover obtain u n0 des del where s: "s = (u, n0, des, del)" by (metis prod.exhaust)
  ultimately have lay: "layout h u c" and K: "\<And>e. GetKey h u e = GetKey h t e"
    and hd: "NumberOfElements u = NumberOfElements t" "NumberOfDeletedElements u = NumberOfDeletedElements t" "GetNextTable u = JSRef a"
    and nums: "\<And>e. e < ?m \<Longrightarrow> GetKey h t e = Hole \<Longrightarrow> GetNextEntry h u e = JSInt (hole_count h t (Suc e))"
    and des: "des = length (live (rows h t ?m))" and invn: "table_inv ops h n0 c' des"
    and rows: "rows h n0 des = map Some (live (rows h t ?m))" and nxt: "GetNextTable n0 = Hole"
    by (auto simp: rehash_inv_def hd0 rows0 k0)
  have eq: "t' = u" "n = n0[0 := JSInt (NumberOfElements t), Suc 0 := JSInt 0]"
    using R hd(1) unfolding Rehash_def Let_def t0_def [symmetric] used_def [symmetric] s_def [symmetric] s
    by (simp_all add: SetNumberOfElements_def SetNumberOfDeletedElements_def index_consts)
  show "GetNextTable t' = JSRef a" using hd eq by simp
  have len': "3 < length n0" "n0 \<noteq> []" using layout_len [OF table_invD(1) [OF invn]] c'(1) by auto
  have num: "NumberOfElements t = int des" using numt by (simp add: des entries_def)
  have invn': "table_inv ops h n c' des" using invn by (simp add: eq)
  have "NumberOfElements n + NumberOfDeletedElements n = int des" "NumberOfElements n = int (length (live (rows h n des)))" "GetNextTable n = Hole"
    using len' num nxt rows des by (simp_all add: eq)
  note W = wf_tableI [OF invn' this]
  show "wf_table ops h n" by (rule W(1))
  show "entries h n = map Some (live (entries h t))" using W(3) rows by (simp add: eq entries_def)
  show "Capacity n = int c'" by (rule layout_slots(1) [OF table_invD(1) [OF invn']])
  have d: "NumberOfDeletedElements t \<noteq> - 1" using delt by simp
  show "i \<le> ?m \<Longrightarrow> GetDeletedElementsAt h t' (int i) = int i - int (length (live (take i (entries h t))))"
    using deleted_below_count [of i h u t] K nums hd d by (simp add: GetDeletedElementsAt_def eq(1) hole_count_def entries_def rows_take)
qed

lemma Rehash_ok:
  assumes ok: "ops_ok ops" and obj: "obj_ok h" and wf: "wf_table ops h t"
    and c': "c' = 2 ^ k" "k \<le> 30" "length (live (entries h t)) \<le> c'"
    and R: "Rehash ops h t a (Create h (int c')) = (t', n)"
  shows "GetNextTable t' = JSRef a" "wf_table ops h n" "entries h n = map Some (live (entries h t))" "Capacity n = int c'"
    "i \<le> used t \<Longrightarrow> GetDeletedElementsAt h t' (int i) = int i - int (length (live (take i (entries h t))))"
proof -
  obtain c where inv: "table_inv ops h t c (used t)" using wf by (auto simp: wf_table_def)
  have "NumberOfElements t = int (length (live (entries h t)))" "0 \<le> NumberOfDeletedElements t" using wf by (simp_all add: wf_table_def)
  note R' = Rehash_rows [OF ok obj table_inv_distinct [OF inv] this c' R]
  show "GetNextTable t' = JSRef a" "wf_table ops h n" "entries h n = map Some (live (entries h t))" "Capacity n = int c'"
    "i \<le> used t \<Longrightarrow> GetDeletedElementsAt h t' (int i) = int i - int (length (live (take i (entries h t))))"
    by (fact R')+
qed

end
