(* ===== verification/Linked_Hash_Store.thy ===== *)
theory Linked_Hash_Store
  imports Linked_Hash_Table
begin

text \<open>
  The effects of the operations of Linked_Hash_Table on a store of tables: an old table leads to the table in use,
  and an iterator on either has the same entries behind it and before it. Every operation is described by
  what it does to these two lists.
\<close>

section \<open>Tables and their successors\<close>

definition store_ok :: "table_ops \<Rightarrow> hash_object \<Rightarrow> table_store \<times> nat \<Rightarrow> bool" where
  "store_ok ops h st \<longleftrightarrow> (case st of (ts, a) \<Rightarrow> a < length ts \<and> wf_table ops h (ts ! a) \<and>
     (\<forall>t \<in> set ts. GetNextTable t = Hole \<or> (\<exists>b < length ts. GetNextTable t = JSRef b)))"

abbreviation current :: "table_store \<times> nat \<Rightarrow> tagged_array" where
  "current st \<equiv> fst st ! snd st"

inductive follows :: "hash_object \<Rightarrow> table_store \<Rightarrow> nat \<Rightarrow> int \<Rightarrow> nat \<Rightarrow> int \<Rightarrow> bool" for h ts where
  stop: "GetNextTable (ts ! b) = Hole \<Longrightarrow> follows h ts b j b j"
| step: "GetNextTable (ts ! b) = JSRef b' \<Longrightarrow> follows h ts b' (j - GetDeletedElementsAt h (ts ! b) j) a i \<Longrightarrow> follows h ts b j a i"

text \<open>
  An iterator on table \<open>b\<close> with index \<open>j\<close> stands before entry \<open>i\<close> of the table in use. What it has passed and what is
  before it are the entries that are not deleted on both sides.
\<close>

definition cursor :: "hash_object \<Rightarrow> table_store \<times> nat \<Rightarrow> nat \<Rightarrow> int \<Rightarrow> nat \<Rightarrow> bool" where
  "cursor h st b j i \<longleftrightarrow> (case st of (ts, a) \<Rightarrow> b < length ts \<and> follows h ts b j a (int i) \<and> i \<le> used (ts ! a))"

definition view :: "'a option list \<Rightarrow> nat \<Rightarrow> 'a list \<times> 'a list" where
  "view xs i = (live (take i xs), live (drop i xs))"

lemma view_live: "live xs = fst (view xs i) @ snd (view xs i)"
  using live_append [of "take i xs" "drop i xs"] by (simp add: view_def)

lemma cursor_start: "store_ok ops h (ts, a) \<Longrightarrow> cursor h (ts, a) a 0 0"
  by (auto simp: cursor_def store_ok_def wf_table_def intro: follows.stop)

lemma follows_imp: "follows h ts b j a i \<Longrightarrow> follow_tables h ts b j = Some (a, i)"
  by (induction rule: follows.induct) (subst follow_tables.simps, simp)+

lemma follows_in_place:
  assumes "follows h ts b j a i" "GetNextTable t' = Hole" "GetNextTable (ts ! a) = Hole"
  shows "follows h (ts[a := t']) b j a i"
  using assms
proof (induction rule: follows.induct)
  case (stop b j)
  then show ?case by (cases "b < length ts") (auto intro!: follows.stop simp: list_update_beyond)
next
  case (step b b' j a i)
  then have "a \<noteq> b" by auto
  then have "ts[a := t'] ! b = ts ! b" by simp
  then show ?case using step by (auto intro: follows.step)
qed

lemma follows_next:
  assumes "follows h ts b j a i" "b < length ts" "\<forall>t \<in> set ts. GetNextTable t = Hole \<or> (\<exists>b < length ts. GetNextTable t = JSRef b)"
    "GetNextTable (ts ! a) = Hole" "GetNextTable t' = JSRef (length ts)" "GetNextTable n = Hole" "a < length ts"
  shows "follows h (ts[a := t'] @ [n]) b j (length ts) (i - GetDeletedElementsAt h t' i)"
  using assms
proof (induction rule: follows.induct)
  case (stop b j)
  then have "(ts[b := t'] @ [n]) ! b = t'" "(ts[b := t'] @ [n]) ! length ts = n" by (simp_all add: nth_append)
  then show ?case using stop by (metis follows.step follows.stop)
next
  case (step b b' j a i)
  then have ab: "a \<noteq> b" by auto
  then have eq: "(ts[a := t'] @ [n]) ! b = ts ! b" using step.prems(1) by (simp add: nth_append)
  have "GetNextTable (ts ! b) \<noteq> Hole" using step.hyps(1) by simp
  then have "b' < length ts" using step.prems(1,2) step.hyps(1) nth_mem by fastforce
  then show ?case using step eq by (metis follows.step)
qed

lemma cursor_in_place:
  assumes st: "store_ok ops h (ts, a)" and wf: "wf_table ops h t'"
  shows "store_ok ops h (ts[a := t'], a)" "cursor h (ts, a) b j i \<Longrightarrow> i \<le> used t' \<Longrightarrow> cursor h (ts[a := t'], a) b j i"
proof -
  have a: "a < length ts" and nxt: "GetNextTable (ts ! a) = Hole" "GetNextTable t' = Hole"
    using st wf by (auto simp: store_ok_def wf_table_def)
  show "store_ok ops h (ts[a := t'], a)" using st wf a nxt(2) by (auto simp: store_ok_def dest!: set_update_subset_insert [THEN subsetD])
  show "cursor h (ts, a) b j i \<Longrightarrow> i \<le> used t' \<Longrightarrow> cursor h (ts[a := t'], a) b j i"
    using follows_in_place [OF _ nxt(2,1)] a by (auto simp: cursor_def)
qed

lemma cursor_next:
  assumes st: "store_ok ops h (ts, a)" and wf: "wf_table ops h n" and t': "GetNextTable t' = JSRef (length ts)"
  shows "store_ok ops h (ts[a := t'] @ [n], length ts)"
    "cursor h (ts, a) b j i \<Longrightarrow> int i - GetDeletedElementsAt h t' (int i) = int i' \<Longrightarrow> i' \<le> used n \<Longrightarrow>
      cursor h (ts[a := t'] @ [n], length ts) b j i'"
proof -
  have a: "a < length ts" and nxt: "GetNextTable (ts ! a) = Hole" "GetNextTable n = Hole"
    and refs: "\<forall>t \<in> set ts. GetNextTable t = Hole \<or> (\<exists>b < length ts. GetNextTable t = JSRef b)"
    using st wf by (auto simp: store_ok_def wf_table_def)
  have "GetNextTable t = Hole \<or> (\<exists>b < Suc (length ts). GetNextTable t = JSRef b)" if "t \<in> set (ts[a := t']) \<or> t = n" for t
    using that refs t' nxt(2) less_SucI by (auto dest!: set_update_subset_insert [THEN subsetD])
  then show "store_ok ops h (ts[a := t'] @ [n], length ts)" using wf by (auto simp: store_ok_def nth_append)
  assume c: "cursor h (ts, a) b j i" and i: "int i - GetDeletedElementsAt h t' (int i) = int i'" "i' \<le> used n"
  then have b: "b < length ts" "follows h ts b j a (int i)" by (auto simp: cursor_def)
  show "cursor h (ts[a := t'] @ [n], length ts) b j i'"
    using follows_next [OF b(2,1) refs nxt(1) t' nxt(2) a] i b(1) by (simp add: cursor_def nth_append)
qed

section \<open>Effects of the operations on the store\<close>

abbreviation content :: "hash_object \<Rightarrow> table_store \<times> nat \<Rightarrow> (js_value \<times> js_value) option list" where
  "content h st \<equiv> entries h (current st)"

text \<open>
  A step from \<open>st\<close> to \<open>st'\<close> acts as \<open>f\<close> on the entries that an iterator has passed and on those before it, for every
  iterator.
\<close>

definition acts :: "table_ops \<Rightarrow> hash_object \<Rightarrow> table_store \<times> nat \<Rightarrow> table_store \<times> nat \<Rightarrow>
    ((js_value \<times> js_value) list \<times> (js_value \<times> js_value) list \<Rightarrow> (js_value \<times> js_value) list \<times> (js_value \<times> js_value) list) \<Rightarrow> bool" where
  "acts ops h st st' f \<longleftrightarrow> store_ok ops h st' \<and>
     (\<forall>b j i. cursor h st b j i \<longrightarrow> (\<exists>i'. cursor h st' b j i' \<and> view (content h st') i' = f (view (content h st) i)))"

lemma acts_live:
  assumes "store_ok ops h st" "acts ops h st st' f"
  shows "live (content h st') = fst (f ([], live (content h st))) @ snd (f ([], live (content h st)))"
proof -
  obtain ts a where st: "st = (ts, a)" by (cases st)
  obtain i' where "view (content h st') i' = f (view (content h st) 0)"
    using cursor_start assms unfolding st acts_def by blast
  then show ?thesis using view_live [of "content h st'" i'] by (simp add: view_def)
qed

lemma acts_trans: "acts ops h st st' f \<Longrightarrow> acts ops h st' st'' g \<Longrightarrow> acts ops h st st'' (g \<circ> f)"
  by (simp add: acts_def) metis

lemma acts_in_place:
  assumes st: "store_ok ops h (ts, a)" and wf: "wf_table ops h t'" and used: "used (ts ! a) \<le> used t'"
    and f: "\<And>i. i \<le> used (ts ! a) \<Longrightarrow> view (entries h t') i = f (view (entries h (ts ! a)) i)"
  shows "acts ops h (ts, a) (ts[a := t'], a) f"
proof -
  have "ts[a := t'] ! a = t'" using st by (simp add: store_ok_def)
  then show ?thesis using cursor_in_place [OF st wf] used f unfolding acts_def by (fastforce simp: cursor_def)
qed

lemma ComputeCapacity_ok:
  assumes ok: "ops_ok ops" and x: "unat x \<le> 2 ^ 29"
  shows "\<exists>k \<le> 30. ComputeCapacity ops x = int (2 ^ k) \<and> unat x \<le> 2 ^ k"
proof -
  let ?r = "x + drop_bit 1 x"
  have r: "unat ?r = unat x + unat x div 2" using x by (simp add: unat_u32_add unat_u32_drop_bit)
  then have "unat ?r \<le> 2 ^ 30" using x by simp
  then obtain k where k: "k \<le> 30" "unat (GetPowerOfTwoValue32 ops ?r) = 2 ^ k" "unat ?r \<le> 2 ^ k"
    using ok unfolding ops_ok_def pow2_ok_def by blast
  have "(2 :: nat) ^ k \<le> 2 ^ 30" using k(1) by (intro power_increasing) auto
  then have s: "sint (GetPowerOfTwoValue32 ops ?r) = int (2 ^ k)" using k(2) by (subst sint_nat_small) simp_all
  have C: "ComputeCapacity ops x = (if int (2 ^ k) > 4 then int (2 ^ k) else 4)"
    unfolding ComputeCapacity_def Let_def s MIN_CAPACITY_def ..
  show ?thesis
  proof (cases "int (2 ^ k) > 4")
    case True
    then show ?thesis using C k r by auto
  next
    case False
    then have "(2 :: nat) ^ k \<le> 4" by linarith
    then have "unat x \<le> 2 ^ 2" using k(3) r by simp
    then show ?thesis using C False by (intro exI [of _ 2]) auto
  qed
qed

lemma rehash_to_acts:
  assumes ok: "ops_ok ops" and obj: "obj_ok h" and st: "store_ok ops h st"
    and c: "c = int (2 ^ k)" "k \<le> 30" "length (live (content h st)) \<le> 2 ^ k"
  shows "acts ops h st (rehash_to ops h st c) id" "Capacity (current (rehash_to ops h st c)) = c"
    "content h (rehash_to ops h st c) = map Some (live (content h st))"
proof -
  obtain ts a where s: "st = (ts, a)" by (cases st)
  have a: "a < length ts" and wf: "wf_table ops h (ts ! a)" using st by (auto simp: s store_ok_def)
  obtain t' n where R: "Rehash ops h (ts ! a) (length ts) (Create h (int (2 ^ k))) = (t', n)" by (cases "Rehash ops h (ts ! a) (length ts) (Create h (int (2 ^ k)))")
  note R' = Rehash_ok [OF ok obj wf refl c(2) _ R]
  have room: "length (live (entries h (ts ! a))) \<le> 2 ^ k" using c(3) by (simp add: s)
  have st': "rehash_to ops h st c = (ts[a := t'] @ [n], length ts)" using R c(1) by (simp add: rehash_to_def s)
  have cur: "current (rehash_to ops h st c) = n" by (simp add: st' nth_append)
  show con: "content h (rehash_to ops h st c) = map Some (live (content h st))" using R'(3) [OF room] by (simp only: cur) (simp add: s)
  show "Capacity (current (rehash_to ops h st c)) = c" unfolding cur using R'(4) [OF room] c(1) by simp
  note N = cursor_next [OF st [unfolded s] R'(2) [OF room] R'(1) [OF room]]
  have "\<exists>i'. cursor h (rehash_to ops h st c) b j i' \<and> view (map Some (live (content h st))) i' = view (content h st) i"
    if cu: "cursor h st b j i" for b j i
  proof -
    let ?i = "length (live (take i (entries h (ts ! a))))"
    have i: "i \<le> used (ts ! a)" using cu by (simp add: s cursor_def)
    have L: "live (entries h (ts ! a)) = live (take i (entries h (ts ! a))) @ live (drop i (entries h (ts ! a)))"
      using live_append [of "take i (entries h (ts ! a))" "drop i (entries h (ts ! a))"] by simp
    have "used n = length (live (entries h (ts ! a)))" using R'(3) [OF room] length_entries [of h n] by simp
    then have "?i \<le> used n" using L by simp
    moreover have "int i - GetDeletedElementsAt h t' (int i) = int ?i" using R'(5) [OF room i] by simp
    ultimately have "cursor h (rehash_to ops h st c) b j ?i" unfolding st' using N(2) cu by (simp add: s)
    moreover have "view (map Some (live (content h st))) ?i = view (content h st) i"
      by (simp add: s view_def take_map drop_map) (metis L append_eq_conv_conj)
    ultimately show ?thesis by blast
  qed
  then show "acts ops h st (rehash_to ops h st c) id" using N(1) con by (simp add: acts_def st')
qed

lemma GrowCapacity_acts:
  assumes ok: "ops_ok ops" and obj: "obj_ok h" and st: "store_ok ops h st" and lim: "length (live (content h st)) < 2 ^ 29"
  shows "acts ops h st (GrowCapacity ops h st 1) id" "int (used (current (GrowCapacity ops h st 1))) < Capacity (current (GrowCapacity ops h st 1))"
    "live (content h (GrowCapacity ops h st 1)) = live (content h st)"
proof -
  obtain ts a where s: "st = (ts, a)" by (cases st)
  let ?t = "ts ! a"
  have wf: "wf_table ops h ?t" using st by (simp add: s store_ok_def)
  then have n: "NumberOfElements ?t = int (length (live (entries h ?t)))" "NumberOfDeletedElements ?t = int (used ?t) - NumberOfElements ?t"
    using used_int [OF wf] by (simp_all add: wf_table_def)
  have "acts ops h st (GrowCapacity ops h st 1) id \<and> int (used (current (GrowCapacity ops h st 1))) < Capacity (current (GrowCapacity ops h st 1))"
  proof (cases "HasSufficientCapacity ?t 1")
    case True
    then have "int (used ?t) < Capacity ?t" using n(2) by (simp add: HasSufficientCapacity_def Let_def) linarith
    then show ?thesis using True st by (auto simp: GrowCapacity_def s acts_def)
  next
    case False
    let ?x = "word_of_int (NumberOfElements ?t + 1) :: u32"
    have x: "unat ?x = Suc (length (live (entries h ?t)))"
      using lim by (subst unat_word_of_int_small) (simp_all add: n(1) s)
    then obtain k where k: "k \<le> 30" "ComputeCapacity ops ?x = int (2 ^ k)" "Suc (length (live (entries h ?t))) \<le> 2 ^ k"
      using ComputeCapacity_ok [OF ok, of ?x] lim by (auto simp: s)
    have g: "GrowCapacity ops h st 1 = rehash_to ops h st (ComputeCapacity ops ?x)" using False by (simp add: GrowCapacity_def s)
    note R = rehash_to_acts [OF ok obj st k(2,1)]
    have room: "length (live (content h st)) \<le> 2 ^ k" using k(3) by (simp add: s)
    have "used (current (GrowCapacity ops h st 1)) = length (live (content h st))"
      using arg_cong [OF R(3) [OF room], of length] by (simp add: g)
    then show ?thesis using R(1,2) [OF room] k(2,3) by (simp add: g) (simp add: s)
  qed
  then show act: "acts ops h st (GrowCapacity ops h st 1) id" and "int (used (current (GrowCapacity ops h st 1))) < Capacity (current (GrowCapacity ops h st 1))"
    by blast+
  show "live (content h (GrowCapacity ops h st 1)) = live (content h st)" using acts_live [OF st act] by simp
qed

definition has_key :: "table_ops \<Rightarrow> js_value \<Rightarrow> (js_value \<times> js_value) list \<Rightarrow> bool" where
  "has_key ops k = list_ex (\<lambda>r. matches ops k (fst r))"

definition upd :: "table_ops \<Rightarrow> hash_object \<Rightarrow> js_value \<Rightarrow> js_value \<Rightarrow> js_value \<times> js_value \<Rightarrow> js_value \<times> js_value" where
  "upd ops h k v r = (if matches ops k (fst r) then (if h = LinkedHashSetObject then v else fst r, v) else r)"

fun insert_view ::
  "table_ops \<Rightarrow> hash_object \<Rightarrow> js_value \<Rightarrow> js_value \<Rightarrow> js_value \<times> js_value \<Rightarrow>
    (js_value \<times> js_value) list \<times> (js_value \<times> js_value) list \<Rightarrow> (js_value \<times> js_value) list \<times> (js_value \<times> js_value) list" where
  "insert_view ops h k v new (p, q) =
     (if has_key ops k (p @ q) then (map (upd ops h k v) p, map (upd ops h k v) q) else (p, q @ [new]))"

fun remove_view ::
  "table_ops \<Rightarrow> js_value \<Rightarrow> (js_value \<times> js_value) list \<times> (js_value \<times> js_value) list \<Rightarrow>
    (js_value \<times> js_value) list \<times> (js_value \<times> js_value) list" where
  "remove_view ops k (p, q) = (filter (\<lambda>r. \<not> matches ops k (fst r)) p, filter (\<lambda>r. \<not> matches ops k (fst r)) q)"

definition kill :: "('a \<Rightarrow> bool) \<Rightarrow> 'a option \<Rightarrow> 'a option" where
  "kill P r = (case r of None \<Rightarrow> None | Some x \<Rightarrow> if P x then None else Some x)"

lemma live_kill: "live (map (kill P) xs) = filter (\<lambda>x. \<not> P x) (live xs)"
  by (induction xs) (auto simp: kill_def split: option.split)

lemma view_map: "view (map f xs) i = (live (map f (take i xs)), live (map f (drop i xs)))"
  by (simp add: view_def take_map drop_map)

lemma live_entries: "r \<in> set (live (entries h t)) \<longleftrightarrow> (\<exists>e < used t. GetKey h t e \<noteq> Hole \<and> r = (GetKey h t e, GetValue h t e))"
  by (auto simp: set_live entries_def rows_def row_def image_iff split: if_splits)

text \<open>\<open>FindElement\<close> finds the only entry with the key.\<close>

lemma find_content:
  assumes ok: "ops_ok ops" and wf: "wf_table ops h t" and key: "IsKey k"
  shows "(FindElement ops h t k = Some (- 1) \<and> \<not> has_key ops k (live (entries h t))) \<or>
    (\<exists>e < used t. FindElement ops h t k = Some (int e) \<and> GetKey h t e \<noteq> Hole \<and> matches ops k (GetKey h t e) \<and>
       has_key ops k (live (entries h t)) \<and>
       (\<forall>e' < used t. GetKey h t e' \<noteq> Hole \<longrightarrow> matches ops k (GetKey h t e') \<longrightarrow> e' = e))"
proof -
  obtain c where inv: "table_inv ops h t c (used t)" using wf by (auto simp: wf_table_def)
  have has: "has_key ops k (live (entries h t)) \<longleftrightarrow> (\<exists>e < used t. GetKey h t e \<noteq> Hole \<and> matches ops k (GetKey h t e))"
    unfolding has_key_def list_ex_iff Bex_def live_entries by auto
  have "e' = e" if "e < used t" "GetKey h t e \<noteq> Hole" "matches ops k (GetKey h t e)"
    "e' < used t" "GetKey h t e' \<noteq> Hole" "matches ops k (GetKey h t e')" for e e'
  proof -
    have "SameValueZero ops k (live_key h t e)" "SameValueZero ops k (live_key h t e')" using that by (simp_all add: matches_def live_key_def)
    then have "SameValueZero ops (live_key h t e') (live_key h t e)" by (blast intro: ops_okD(2,3) [OF ok])
    then show ?thesis using table_invD(6) [OF inv that(4,1,5,2)] by simp
  qed
  then show ?thesis using FindElement_ok [OF ok inv key] unfolding has by blast
qed

lemma entries_update:
  assumes "e < used t" "\<And>e'. e' < used t \<Longrightarrow> e' \<noteq> e \<Longrightarrow> f (row h t e') = row h t e'" "f (row h t e) = y"
  shows "(entries h t)[e := y] = map f (entries h t)"
  using assms by (auto intro!: nth_equalityI simp: nth_list_update entries_nth)

lemma insert_view_eq:
  "insert_view ops h k v new (view xs i) =
     (if has_key ops k (live xs) then map_prod (map (upd ops h k v)) (map (upd ops h k v)) (view xs i)
      else map_prod id (\<lambda>q. q @ [new]) (view xs i))"
proof -
  obtain p q where pq: "view xs i = (p, q)" by (cases "view xs i")
  then have "live xs = p @ q" using view_live [of xs i] by simp
  then show ?thesis using pq by simp
qed

lemma acts_cong: "acts ops h st st' f \<Longrightarrow> (\<And>i. f (view (content h st) i) = g (view (content h st) i)) \<Longrightarrow> acts ops h st st' g"
  by (simp add: acts_def)

text \<open>The two branches of \<open>Insert\<close> and \<open>InsertWeakRef\<close>: the key is new, and the key is there.\<close>

lemma insert_new_acts:
  assumes ok: "ops_ok ops" and obj: "obj_ok h" and st: "store_ok ops h st" and lim: "length (live (content h st)) < 2 ^ 29"
    and no: "\<not> has_key ops k (live (content h st))" and k: "k' \<noteq> Hole" "RemoveWeakTag k' = k"
    and val: "h = LinkedHashMapObject \<and> val = Some w \<or> h = LinkedHashSetObject \<and> w = k' \<and> (val = None \<or> val = Some k')"
    and g: "GrowCapacity ops h st 1 = (ts', a')"
  shows "acts ops h st (ts'[a' := append_entry ops h (LinkedHash_Hash ops k) k' val (ts' ! a')], a') (insert_view ops h k v (k', w))"
proof -
  note G = GrowCapacity_acts [OF ok obj st lim, unfolded g, simplified]
  let ?t = "append_entry ops h (LinkedHash_Hash ops k) k' val (ts' ! a')"
  have st': "store_ok ops h (ts', a')" using G(1) by (simp add: acts_def)
  then have wf': "wf_table ops h (ts' ! a')" by (simp add: store_ok_def)
  have new: "\<not> matches ops (RemoveWeakTag k') (GetKey h (ts' ! a') e)" if "e < used (ts' ! a')" "GetKey h (ts' ! a') e \<noteq> Hole" for e
  proof -
    have "(GetKey h (ts' ! a') e, GetValue h (ts' ! a') e) \<in> set (live (entries h (ts' ! a')))"
      using that by (auto simp: live_entries)
    then show ?thesis using no G(3) k(2) by (auto simp: has_key_def list_ex_iff)
  qed
  have hash: "LinkedHash_Hash ops k = LinkedHash_Hash ops (RemoveWeakTag k')" using k(2) by simp
  note A = wf_append_entry [OF ok obj wf' G(2) hash k(1) val new]
  have "used ?t = Suc (used (ts' ! a'))" using arg_cong [OF A(2), of length] by simp
  then have "acts ops h (ts', a') (ts'[a' := ?t], a') (map_prod id (\<lambda>q. q @ [(k', w)]))"
    by (intro acts_in_place [OF st' A(1)]) (auto simp: A(2) view_def)
  from acts_trans [OF G(1) this] show ?thesis by (rule acts_cong) (simp add: insert_view_eq no)
qed

lemma insert_found_acts:
  assumes ok: "ops_ok ops" and obj: "obj_ok h" and st: "store_ok ops h (ts, a)"
    and e: "e < used (ts ! a)" and m: "GetKey h (ts ! a) e \<noteq> Hole" "matches ops k (GetKey h (ts ! a) e)"
    and has: "has_key ops k (live (entries h (ts ! a)))"
    and only: "\<forall>e' < used (ts ! a). GetKey h (ts ! a) e' \<noteq> Hole \<longrightarrow> matches ops k (GetKey h (ts ! a) e') \<longrightarrow> e' = e"
    and set: "h = LinkedHashSetObject \<Longrightarrow> v = k \<and> IsKey k \<and> RemoveWeakTag k = k"
  shows "acts ops h (ts, a) (ts[a := SetValue h (ts ! a) e v], a) (insert_view ops h k v new)"
proof -
  have wf: "wf_table ops h (ts ! a)" using st by (simp add: store_ok_def)
  let ?t = "SetValue h (ts ! a) e v"
  have "v \<noteq> Hole \<and> SameValueZero ops (live_key h (ts ! a) e) (RemoveWeakTag v)" if "h = LinkedHashSetObject"
  proof -
    have "SameValueZero ops (live_key h (ts ! a) e) k" 
      by (rule ops_okD(2) [OF ok]) (use m(2) in \<open>simp add: matches_def live_key_def\<close>)
    then show ?thesis using set [OF that] by (simp add: IsKey_def)
  qed
  note S = wf_SetValue [OF ok obj wf e m(1) this]
  have "(entries h (ts ! a))[e := Some (if h = LinkedHashSetObject then v else GetKey h (ts ! a) e, v)] =
      map (map_option (upd ops h k v)) (entries h (ts ! a))"
  proof (rule entries_update [OF e])
    show "map_option (upd ops h k v) (row h (ts ! a) e') = row h (ts ! a) e'" if "e' < used (ts ! a)" "e' \<noteq> e" for e'
    proof -
      have "GetKey h (ts ! a) e' = Hole \<or> \<not> matches ops k (GetKey h (ts ! a) e')" using only that by blast
      then show ?thesis by (auto simp: row_def upd_def)
    qed
  qed (use m in \<open>simp add: row_def upd_def\<close>)
  then have E: "entries h ?t = map (map_option (upd ops h k v)) (entries h (ts ! a))" using S(2) by simp
  have "used ?t = used (ts ! a)" using arg_cong [OF E, of length] by simp
  then have "acts ops h (ts, a) (ts[a := ?t], a) (map_prod (map (upd ops h k v)) (map (upd ops h k v)))"
    by (intro acts_in_place [OF st S(1)]) (auto simp: E view_def take_map drop_map live_map_option)
  then show ?thesis by (rule acts_cong) (simp add: insert_view_eq has)
qed

lemma Insert_acts:
  assumes ok: "ops_ok ops" and obj: "obj_ok h" and st: "store_ok ops h st" and lim: "length (live (content h st)) < 2 ^ 29"
    and k: "IsKey k" "RemoveWeakTag k = k" and v: "h = LinkedHashSetObject \<Longrightarrow> v = k"
  shows "\<exists>st'. Insert ops h st k v = Some st' \<and> acts ops h st st' (insert_view ops h k v (k, v))"
proof -
  obtain ts a where s: "st = (ts, a)" by (cases st)
  obtain ts' a' where g: "GrowCapacity ops h st 1 = (ts', a')" by (cases "GrowCapacity ops h st 1")
  have wf: "wf_table ops h (ts ! a)" using st by (simp add: s store_ok_def)
  have val: "h = LinkedHashMapObject \<and> Some v = Some v \<or> h = LinkedHashSetObject \<and> v = k \<and> (Some v = None \<or> Some v = Some k)"
    using obj v by (auto simp: obj_ok_def)
  from find_content [OF ok wf k(1)] show ?thesis
  proof (elim disjE exE conjE)
    assume "FindElement ops h (ts ! a) k = Some (- 1)" "\<not> has_key ops k (live (entries h (ts ! a)))"
    then show ?thesis using insert_new_acts [OF ok obj st lim _ _ k(2) val g, of v] k(1) g by (simp add: s Insert_def IsKey_def)
  next
    fix e
    assume e: "e < used (ts ! a)" "GetKey h (ts ! a) e \<noteq> Hole" "matches ops k (GetKey h (ts ! a) e)"
      "has_key ops k (live (entries h (ts ! a)))"
      "\<forall>e' < used (ts ! a). GetKey h (ts ! a) e' \<noteq> Hole \<longrightarrow> matches ops k (GetKey h (ts ! a) e') \<longrightarrow> e' = e"
      and f: "FindElement ops h (ts ! a) k = Some (int e)"
    have "acts ops h (ts, a) (ts[a := SetValue h (ts ! a) e v], a) (insert_view ops h k v (k, v))"
      by (rule insert_found_acts [OF ok obj st [unfolded s] e]) (use v k in simp)
    then show ?thesis using f by (simp add: s Insert_def)
  qed
qed

lemma InsertWeakRef_acts:
  assumes ok: "ops_ok ops" and obj: "obj_ok h" and st: "store_ok ops h st" and lim: "length (live (content h st)) < 2 ^ 29"
    and v: "h = LinkedHashSetObject \<Longrightarrow> v = JSRef n" and w: "w = (if h = LinkedHashSetObject then JSWeak n else v)"
  shows "\<exists>st'. InsertWeakRef ops h (h = LinkedHashMapObject) st (JSRef n) v = Some st' \<and>
    acts ops h st st' (insert_view ops h (JSRef n) v (JSWeak n, w))"
proof -
  obtain ts a where s: "st = (ts, a)" by (cases st)
  obtain ts' a' where g: "GrowCapacity ops h st 1 = (ts', a')" by (cases "GrowCapacity ops h st 1")
  have wf: "wf_table ops h (ts ! a)" using st by (simp add: s store_ok_def)
  have key: "IsKey (JSRef n)" by (simp add: IsKey_def)
  let ?val = "if h = LinkedHashMapObject then Some v else None"
  have val: "h = LinkedHashMapObject \<and> ?val = Some w \<or> h = LinkedHashSetObject \<and> w = JSWeak n \<and> (?val = None \<or> ?val = Some (JSWeak n))"
    using obj w by (auto simp: obj_ok_def LinkedHashMapObject_def LinkedHashSetObject_def)
  from find_content [OF ok wf key] show ?thesis
  proof (elim disjE exE conjE)
    assume "FindElement ops h (ts ! a) (JSRef n) = Some (- 1)" "\<not> has_key ops (JSRef n) (live (entries h (ts ! a)))"
    then show ?thesis using insert_new_acts [OF ok obj st lim _ _ _ val g, of "JSRef n" v] g by (simp add: s InsertWeakRef_def)
  next
    fix e
    assume e: "e < used (ts ! a)" "GetKey h (ts ! a) e \<noteq> Hole" "matches ops (JSRef n) (GetKey h (ts ! a) e)"
      "has_key ops (JSRef n) (live (entries h (ts ! a)))"
      "\<forall>e' < used (ts ! a). GetKey h (ts ! a) e' \<noteq> Hole \<longrightarrow> matches ops (JSRef n) (GetKey h (ts ! a) e') \<longrightarrow> e' = e"
      and f: "FindElement ops h (ts ! a) (JSRef n) = Some (int e)"
    have "acts ops h (ts, a) (ts[a := SetValue h (ts ! a) e v], a) (insert_view ops h (JSRef n) v (JSWeak n, w))"
      by (rule insert_found_acts [OF ok obj st [unfolded s] e]) (use v key in simp)
    then show ?thesis using f by (simp add: s InsertWeakRef_def)
  qed
qed

text \<open>Deleting an entry.\<close>

lemma remove_acts:
  assumes ok: "ops_ok ops" and obj: "obj_ok h" and st: "store_ok ops h (ts, a)"
    and e: "e < used (ts ! a)" and m: "GetKey h (ts ! a) e \<noteq> Hole" "matches ops k (GetKey h (ts ! a) e)"
    and only: "\<forall>e' < used (ts ! a). GetKey h (ts ! a) e' \<noteq> Hole \<longrightarrow> matches ops k (GetKey h (ts ! a) e') \<longrightarrow> e' = e"
  shows "acts ops h (ts, a) (ts[a := RemoveEntry h (ts ! a) e], a) (remove_view ops k)"
proof -
  have wf: "wf_table ops h (ts ! a)" using st by (simp add: store_ok_def)
  let ?t = "RemoveEntry h (ts ! a) e" and ?P = "\<lambda>r. matches ops k (fst r)"
  note R = wf_RemoveEntry [OF ok obj wf e m(1)]
  have "(entries h (ts ! a))[e := None] = map (kill ?P) (entries h (ts ! a))"
  proof (rule entries_update [OF e])
    show "kill ?P (row h (ts ! a) e') = row h (ts ! a) e'" if "e' < used (ts ! a)" "e' \<noteq> e" for e'
    proof -
      have "GetKey h (ts ! a) e' = Hole \<or> \<not> matches ops k (GetKey h (ts ! a) e')" using only that by blast
      then show ?thesis by (auto simp: row_def kill_def)
    qed
  qed (use m in \<open>simp add: row_def kill_def\<close>)
  then have E: "entries h ?t = map (kill ?P) (entries h (ts ! a))" using R(2) by simp
  have "used ?t = used (ts ! a)" using arg_cong [OF E, of length] by simp
  then show ?thesis by (intro acts_in_place [OF st R(1)]) (auto simp: E view_def take_map drop_map live_kill)
qed

lemma Shrink_acts:
  assumes ok: "ops_ok ops" and obj: "obj_ok h" and st: "store_ok ops h st"
  shows "acts ops h st (Shrink ops h st 0) id"
proof -
  obtain ts a where s: "st = (ts, a)" by (cases st)
  let ?t = "ts ! a" and ?x = "word_of_int (NumberOfElements (ts ! a)) :: u32"
  have wf: "wf_table ops h ?t" using st by (simp add: s store_ok_def)
  then obtain c where inv: "table_inv ops h ?t c (used ?t)" by (auto simp: wf_table_def)
  have n: "NumberOfElements ?t = int (length (live (entries h ?t)))" using wf by (simp add: wf_table_def)
  obtain k where "k \<le> 30" "c = 2 ^ k" using table_invD(8) [OF inv] by blast
  then have c: "c \<le> 2 ^ 30" using power_increasing [of k 30 "2 :: nat"] by simp
  have cap: "Capacity ?t = int c" by (rule layout_slots(1) [OF table_invD(1) [OF inv]])
  show ?thesis
  proof (cases "Shrink ops h st 0 = st")
    case True
    then show ?thesis using st by (auto simp: acts_def)
  next
    case False
    then have sh: "\<not> NumberOfElements ?t > Capacity ?t div 4" "Shrink ops h st 0 = rehash_to ops h st (ComputeCapacity ops ?x)"
      by (auto simp: Shrink_def s ComputeCapacityWithShrink_def Let_def split: if_splits)
    have le: "length (live (entries h ?t)) \<le> 2 ^ 28" using sh(1) n cap c by simp
    then have x: "unat ?x = length (live (entries h ?t))" by (subst unat_word_of_int_small) (simp_all add: n)
    then obtain k where k: "k \<le> 30" "ComputeCapacity ops ?x = int (2 ^ k)" "length (live (entries h ?t)) \<le> 2 ^ k"
      using ComputeCapacity_ok [OF ok, of ?x] le by auto
    show ?thesis unfolding sh(2) by (rule rehash_to_acts(1) [OF ok obj st k(2,1)]) (use k(3) in \<open>simp add: s\<close>)
  qed
qed

text \<open>Finding an entry and deleting it, as the collections do.\<close>

lemma delete_acts:
  assumes ok: "ops_ok ops" and obj: "obj_ok h" and st: "store_ok ops h (ts, a)" and k: "IsKey k"
  obtains (absent) "FindElement ops h (ts ! a) k = Some (- 1)" "\<not> has_key ops k (live (entries h (ts ! a)))"
      "acts ops h (ts, a) (ts, a) (remove_view ops k)"
    | (found) e where "FindElement ops h (ts ! a) k = Some (int e)" "has_key ops k (live (entries h (ts ! a)))"
      "acts ops h (ts, a) (ts[a := RemoveEntry h (ts ! a) e], a) (remove_view ops k)"
proof -
  have wf: "wf_table ops h (ts ! a)" using st by (simp add: store_ok_def)
  from find_content [OF ok wf k] show thesis
  proof (elim disjE exE conjE)
    assume f: "FindElement ops h (ts ! a) k = Some (- 1)" and no: "\<not> has_key ops k (live (entries h (ts ! a)))"
    have "remove_view ops k (view (entries h (ts ! a)) i) = view (entries h (ts ! a)) i" for i
    proof -
      obtain p q where pq: "view (entries h (ts ! a)) i = (p, q)" by (cases "view (entries h (ts ! a)) i")
      then have "live (entries h (ts ! a)) = p @ q" using view_live [of "entries h (ts ! a)" i] by simp
      then show ?thesis using no pq by (auto simp: has_key_def list_ex_iff intro!: filter_True)
    qed
    then have "acts ops h (ts, a) (ts, a) (remove_view ops k)" using st by (auto simp: acts_def)
    then show thesis using absent f no by blast
  next
    fix e
    assume e: "e < used (ts ! a)" "GetKey h (ts ! a) e \<noteq> Hole" "matches ops k (GetKey h (ts ! a) e)"
      "\<forall>e' < used (ts ! a). GetKey h (ts ! a) e' \<noteq> Hole \<longrightarrow> matches ops k (GetKey h (ts ! a) e') \<longrightarrow> e' = e"
      and f: "FindElement ops h (ts ! a) k = Some (int e)" "has_key ops k (live (entries h (ts ! a)))"
    show thesis by (rule found [OF f remove_acts [OF ok obj st e]])
  qed
qed

lemma Remove_acts:
  assumes ok: "ops_ok ops" and obj: "obj_ok h" and st: "store_ok ops h st" and k: "IsKey k"
  shows "\<exists>st'. Remove ops h st k = Some st' \<and> acts ops h st st' (remove_view ops k)"
proof -
  obtain ts a where s: "st = (ts, a)" by (cases st)
  show ?thesis
  proof (cases rule: delete_acts [OF ok obj st [unfolded s] k])
    case 1
    then show ?thesis by (simp add: s Remove_def)
  next
    case found: (2 e)
    have "store_ok ops h (ts[a := RemoveEntry h (ts ! a) e], a)" using found(3) by (simp add: acts_def)
    from acts_trans [OF found(3) Shrink_acts [OF ok obj this]] show ?thesis using found(1) by (simp add: s Remove_def)
  qed
qed

text \<open>Lookups.\<close>

definition lookup_key :: "table_ops \<Rightarrow> js_value \<Rightarrow> (js_value \<times> js_value) list \<Rightarrow> js_value" where
  "lookup_key ops k L = (case find (\<lambda>r. matches ops k (fst r)) L of None \<Rightarrow> Undefined | Some r \<Rightarrow> snd r)"

lemma find_SomeI:
  assumes "x \<in> set xs" "P x" "\<And>y. y \<in> set xs \<Longrightarrow> P y \<Longrightarrow> y = x"
  shows "find P xs = Some x"
  using assms
proof (induction xs)
  case (Cons y ys)
  show ?case
  proof (cases "P y")
    case True
    have "y = x" by (rule Cons.prems(3)) (simp, rule True)
    then show ?thesis using True by simp
  next
    case False
    have "x \<noteq> y" using False Cons.prems(2) by blast
    then have "find P ys = Some x" using Cons.prems(1) by (intro Cons.IH Cons.prems(2) Cons.prems(3)) simp_all
    then show ?thesis using False by simp
  qed
qed simp

lemma Has_ok:
  assumes ok: "ops_ok ops" and wf: "wf_table ops h t" and k: "IsKey k"
  shows "Has ops h t k = Some (has_key ops k (live (entries h t)))"
  using find_content [OF ok wf k]
proof (elim disjE exE conjE)
  fix e
  assume "FindElement ops h t k = Some (int e)" "has_key ops k (live (entries h t))"
  then show ?thesis by (simp add: Has_def)
qed (simp add: Has_def)

lemma Get_ok:
  assumes ok: "ops_ok ops" and wf: "wf_table ops h t" and k: "IsKey k"
  shows "Get ops h t k = Some (lookup_key ops k (live (entries h t)))"
  using find_content [OF ok wf k]
proof (elim disjE exE conjE)
  assume f: "FindElement ops h t k = Some (- 1)" and no: "\<not> has_key ops k (live (entries h t))"
  then have "find (\<lambda>r. matches ops k (fst r)) (live (entries h t)) = None" by (auto simp: find_None_iff has_key_def list_ex_iff)
  then show ?thesis using f by (simp add: Get_def lookup_key_def)
next
  fix e
  assume e: "e < used t" "GetKey h t e \<noteq> Hole" "matches ops k (GetKey h t e)" and f: "FindElement ops h t k = Some (int e)"
    and only: "\<forall>e' < used t. GetKey h t e' \<noteq> Hole \<longrightarrow> matches ops k (GetKey h t e') \<longrightarrow> e' = e"
  have "find (\<lambda>r. matches ops k (fst r)) (live (entries h t)) = Some (GetKey h t e, GetValue h t e)"
  proof (rule find_SomeI)
    show "(GetKey h t e, GetValue h t e) \<in> set (live (entries h t))" using e by (auto simp: live_entries)
    show "r = (GetKey h t e, GetValue h t e)" if "r \<in> set (live (entries h t))" "matches ops k (fst r)" for r
      using that only unfolding live_entries by force
  qed (use e in simp)
  then show ?thesis using f by (simp add: Get_def lookup_key_def)
qed

text \<open>Clearing a table.\<close>

lemma fill_holes: "for_up lo hi (\<lambda>i a. a[i := v]) t = map (\<lambda>i. if lo \<le> i \<and> i < hi then v else t ! i) [0..<length t]"
proof (cases "lo \<le> hi")
  case True
  then show ?thesis
  proof (induction hi rule: dec_induct)
    case base
    then show ?case by (auto intro!: nth_equalityI)
  next
    case (step n)
    then show ?case
      by (cases "n < length t") (auto simp: for_up_Suc nth_list_update list_update_beyond less_Suc_eq intro!: nth_equalityI)
  qed
next
  case False
  then show ?thesis by (auto simp: for_up_def map_nth intro!: nth_equalityI)
qed

lemma Clear_acts:
  assumes ok: "ops_ok ops" and obj: "obj_ok h" and st: "store_ok ops h st"
  shows "acts ops h st (Clear h st) (\<lambda>v. ([], []))"
proof -
  obtain ts a where s: "st = (ts, a)" by (cases st)
  let ?t = "ts ! a"
  have wf: "wf_table ops h ?t" using st by (simp add: s store_ok_def)
  then obtain c where inv: "table_inv ops h ?t c (used ?t)" by (auto simp: wf_table_def)
  note I = table_invD [OF inv]
  have cap: "Capacity ?t = int c" by (rule layout_slots(1) [OF I(1)])
  show ?thesis
  proof (cases "Capacity ?t = MIN_CAPACITY")
    case True
    define u where "u = for_up 4 (length ?t) (\<lambda>i a. a[i := Hole]) ?t"
    define t' where "t' = u[Suc 0 := JSInt (NumberOfDeletedElements ?t + NumberOfElements ?t), 0 := JSInt 0]"
    have len: "length u = length ?t" "4 + c \<le> length ?t" using layout_len [OF I(1)] by (simp_all add: u_def fill_holes)
    have low: "u ! i = ?t ! i" if "i < 4" for i using that len(2) by (simp add: u_def fill_holes)
    have high: "u ! i = Hole" if "4 \<le> i" "i < length ?t" for i using that by (simp add: u_def fill_holes)
    have lay: "layout h u c" using I(1) low len by (simp add: layout_def)
    have hd: "NumberOfElements u = NumberOfElements ?t" "NumberOfDeletedElements u = NumberOfDeletedElements ?t" "GetNextTable u = GetNextTable ?t"
      by (simp_all add: NumberOfElements_def NumberOfDeletedElements_def GetNextTable_def index_consts low)
    have K: "GetKey h u e = Hole" "GetNextEntry h u e = Hole" if "e < c" for e
    proof -
      have "u ! slot h c e j = Hole" if "j \<le> ENTRY_SIZE h" for j
        by (rule high) (use slot_less [OF I(1) \<open>e < c\<close> that] in \<open>simp_all add: slot_def\<close>)
      then show "GetKey h u e = Hole" "GetNextEntry h u e = Hole" by (simp_all add: layout_slots [OF lay])
    qed
    have "Clear h st = (ts[a := t'], a)" using True hd
      by (simp add: Clear_def s Let_def FillRangeWithSpecialValue_def t'_def u_def [symmetric] SetNumberOfElements_def
          SetNumberOfDeletedElements_def index_consts)
    moreover have inv': "table_inv ops h t' c (used ?t)"
      using lay I(2,8) K high len by (simp add: t'_def table_inv_def link_ok_def)
    have rows: "rows h t' (used ?t) = map (\<lambda>x. None) [0..<used ?t]"
      using K I(2) by (auto simp: t'_def rows_def row_def)
    have ne: "u \<noteq> []" "Suc 0 < length u" using len by auto
    then have "NumberOfElements t' = 0" "NumberOfDeletedElements t' = int (used ?t)" "GetNextTable t' = Hole"
      using hd wf used_int [OF wf] by (simp_all add: t'_def wf_table_def)
    then have "NumberOfElements t' + NumberOfDeletedElements t' = int (used ?t)" "NumberOfElements t' = int (length (live (rows h t' (used ?t))))"
      "GetNextTable t' = Hole"
      by (simp_all add: rows)
    note W = wf_tableI [OF inv' this]
    have "acts ops h (ts, a) (ts[a := t'], a) (\<lambda>v. ([], []))"
      by (rule acts_in_place [OF st [unfolded s] W(1)]) (simp_all add: W(2,3) rows view_def take_map drop_map)
    ultimately show ?thesis by (simp add: s)
  next
    case False
    have m: "int (2 ^ 2) = MIN_CAPACITY" by (simp add: MIN_CAPACITY_def)
    note C = Create_ok [OF refl _ obj, of 2, unfolded m, simplified]
    have len: "3 < length ?t" "1 < length ?t" "c > 0" using layout_len [OF I(1)] I(8) by auto
    define t' where "t' = ?t[3 := JSRef (length ts), Suc 0 := JSInt (- 1)]"
    have st': "Clear h st = (ts[a := t'] @ [Create h MIN_CAPACITY], length ts)"
      using False cap len(3) by (simp add: Clear_def s Let_def t'_def SetNumberOfDeletedElements_def SetNextTable_def index_consts)
    have nx: "GetNextTable t' = JSRef (length ts)" "GetDeletedElementsAt h t' j = j" for j
      using len by (simp_all add: t'_def GetDeletedElementsAt_def)
    note N = cursor_next [OF st [unfolded s] C(2) nx(1)]
    have "view (entries h (Create h MIN_CAPACITY)) 0 = ([], [])" by (simp add: C(3) view_def)
    moreover have "content h (Clear h st) = entries h (Create h MIN_CAPACITY)" by (simp add: st' nth_append)
    moreover have "cursor h (Clear h st) b j 0" if "cursor h st b j i" for b j i
      unfolding st' by (rule N(2)) (use that nx(2) in \<open>simp_all add: s\<close>)
    ultimately show ?thesis unfolding acts_def using N(1) by (metis st')
  qed
qed

end
