(* ===== verification/JS_Map_Set.thy ===== *)
theory JS_Map_Set
  imports Linked_Hash_Store
begin

text \<open>
  Map and Set of the language: ecmascript/js_map.cpp, js_set.cpp, their iterators js_map_iterator.cpp and
  js_set_iterator.cpp, and the built-ins of ecmascript/builtins/builtins_map.cpp and builtins_set.cpp. The state of a
  collection is the store of the tables and the address of the table it refers to (\<open>LinkedMap\<close> or \<open>LinkedSet\<close>).
\<close>

section \<open>Collections\<close>

datatype js_throw = TypeError string | Thrown js_value

type_synonym js_collection = "table_store \<times> nat"

definition CanonicalizeKeyedCollectionKey :: "js_value \<Rightarrow> js_value" where
  "CanonicalizeKeyedCollectionKey key =
     (case key of JSDouble d \<Rightarrow> if d = 0x8000000000000000 then JSDouble 0 else key | _ \<Rightarrow> key)"

definition key_error :: js_throw where
  "key_error = TypeError ''the value must be Key of JSSet''"

definition JSMap_Set :: "table_ops \<Rightarrow> js_collection \<Rightarrow> js_value \<Rightarrow> js_value \<Rightarrow> (js_throw + js_collection) option" where
  "JSMap_Set ops st key val =
     (let canonicalKey = CanonicalizeKeyedCollectionKey key
      in if \<not> IsKey canonicalKey then Some (Inl key_error)
         else map_option Inr (Insert ops LinkedHashMapObject st canonicalKey val))"

definition JSMap_Delete :: "table_ops \<Rightarrow> js_collection \<Rightarrow> js_value \<Rightarrow> (bool \<times> js_collection) option" where
  "JSMap_Delete ops st key =
     (let canonicalKey = CanonicalizeKeyedCollectionKey key;
          (ts, a) = st
      in map_option
           (\<lambda>entry. if entry = - 1 then (False, st)
             else (True, ts[a := RemoveEntry LinkedHashMapObject (ts ! a) (nat entry)], a))
           (FindElement ops LinkedHashMapObject (ts ! a) canonicalKey))"

definition JSMap_Clear :: "js_collection \<Rightarrow> js_collection" where
  "JSMap_Clear st = Clear LinkedHashMapObject st"

definition JSMap_Has :: "table_ops \<Rightarrow> js_collection \<Rightarrow> js_value \<Rightarrow> bool option" where
  "JSMap_Has ops st key = Has ops LinkedHashMapObject (current st) (CanonicalizeKeyedCollectionKey key)"

definition JSMap_Get :: "table_ops \<Rightarrow> js_collection \<Rightarrow> js_value \<Rightarrow> js_value option" where
  "JSMap_Get ops st key = Get ops LinkedHashMapObject (current st) (CanonicalizeKeyedCollectionKey key)"

definition JSMap_GetSize :: "js_collection \<Rightarrow> u32" where
  "JSMap_GetSize st = word_of_int (NumberOfElements (current st))"

definition JSMap_GetKey :: "js_collection \<Rightarrow> u32 \<Rightarrow> js_value" where
  "JSMap_GetKey st entry = GetKey LinkedHashMapObject (current st) (unat entry)"

definition JSMap_GetValue :: "js_collection \<Rightarrow> u32 \<Rightarrow> js_value" where
  "JSMap_GetValue st entry = GetValue LinkedHashMapObject (current st) (unat entry)"

text \<open>\<open>Add\<close> checks the value before it makes it canonical.\<close>

definition JSSet_Add :: "table_ops \<Rightarrow> js_collection \<Rightarrow> js_value \<Rightarrow> (js_throw + js_collection) option" where
  "JSSet_Add ops st val =
     (if \<not> IsKey val then Some (Inl key_error)
      else let canonicalValue = CanonicalizeKeyedCollectionKey val
           in map_option Inr (Insert ops LinkedHashSetObject st canonicalValue canonicalValue))"

definition JSSet_Delete :: "table_ops \<Rightarrow> js_collection \<Rightarrow> js_value \<Rightarrow> (bool \<times> js_collection) option" where
  "JSSet_Delete ops st val =
     (let canonicalValue = CanonicalizeKeyedCollectionKey val;
          (ts, a) = st
      in map_option
           (\<lambda>entry. if entry = - 1 then (False, st)
             else (True, ts[a := RemoveEntry LinkedHashSetObject (ts ! a) (nat entry)], a))
           (FindElement ops LinkedHashSetObject (ts ! a) canonicalValue))"

definition JSSet_Clear :: "js_collection \<Rightarrow> js_collection" where
  "JSSet_Clear st = Clear LinkedHashSetObject st"

definition JSSet_Has :: "table_ops \<Rightarrow> js_collection \<Rightarrow> js_value \<Rightarrow> bool option" where
  "JSSet_Has ops st val = Has ops LinkedHashSetObject (current st) (CanonicalizeKeyedCollectionKey val)"

definition JSSet_GetSize :: "js_collection \<Rightarrow> u32" where
  "JSSet_GetSize st = word_of_int (NumberOfElements (current st))"

definition JSSet_GetValue :: "js_collection \<Rightarrow> nat \<Rightarrow> js_value" where
  "JSSet_GetValue st entry = GetValue LinkedHashSetObject (current st) entry"

section \<open>Iterators\<close>

text \<open>\<open>it_table\<close> is the field \<open>IteratedMap\<close> or \<open>IteratedSet\<close>, \<open>None\<close> for undefined.\<close>

record collection_iterator =
  it_table :: "nat option"
  it_next :: u32
  it_kind :: IterationKind

datatype iter_item = Item js_value | PairItem js_value js_value

definition NewJSMapIterator :: "js_collection \<Rightarrow> IterationKind \<Rightarrow> collection_iterator" where
  "NewJSMapIterator st kind = \<lparr>it_table = Some (snd st), it_next = 0, it_kind = kind\<rparr>"

definition NewJSSetIterator :: "js_collection \<Rightarrow> IterationKind \<Rightarrow> collection_iterator" where
  "NewJSSetIterator st kind = \<lparr>it_table = Some (snd st), it_next = 0, it_kind = kind\<rparr>"

text \<open>The bodies of \<open>Update\<close> and \<open>NextInternal\<close> are the same for both iterators, apart from the item.\<close>

definition iterator_update :: "hash_object \<Rightarrow> table_store \<Rightarrow> collection_iterator \<Rightarrow> collection_iterator option" where
  "iterator_update h ts iter =
     (case it_table iter of
        None \<Rightarrow> Some iter
      | Some table \<Rightarrow>
          if GetNextTable (ts ! table) = Hole then Some iter
          else map_option (\<lambda>(table, index). iter\<lparr>it_table := Some table, it_next := word_of_int index\<rparr>)
                 (follow_tables h ts table (sint (it_next iter))))"

definition iterator_next ::
  "hash_object \<Rightarrow> (IterationKind \<Rightarrow> js_value \<Rightarrow> js_value \<Rightarrow> iter_item) \<Rightarrow> table_store \<Rightarrow> collection_iterator \<Rightarrow>
    (iter_item option \<times> collection_iterator) option" where
  "iterator_next h item ts iter =
     map_option
       (\<lambda>iter. case it_table iter of
           None \<Rightarrow> (None, iter)
         | Some table \<Rightarrow>
             let t = ts ! table;
                 totalElements = NumberOfElements t + NumberOfDeletedElements t
             in case find (\<lambda>index. GetKey h t index \<noteq> Hole) [nat (sint (it_next iter))..<nat totalElements] of
                  None \<Rightarrow> (None, iter\<lparr>it_table := None\<rparr>)
                | Some index \<Rightarrow>
                    (Some (item (it_kind iter) (GetKey h t index) (GetValue h t index)), iter\<lparr>it_next := of_nat (index + 1)\<rparr>))
       (iterator_update h ts iter)"

definition JSMapIterator_Update :: "table_store \<Rightarrow> collection_iterator \<Rightarrow> collection_iterator option" where
  "JSMapIterator_Update = iterator_update LinkedHashMapObject"

definition JSSetIterator_Update :: "table_store \<Rightarrow> collection_iterator \<Rightarrow> collection_iterator option" where
  "JSSetIterator_Update = iterator_update LinkedHashSetObject"

definition map_item :: "IterationKind \<Rightarrow> js_value \<Rightarrow> js_value \<Rightarrow> iter_item" where
  "map_item itemKind key val =
     (case itemKind of KEY \<Rightarrow> Item key | VALUE \<Rightarrow> Item val | KEY_AND_VALUE \<Rightarrow> PairItem key val)"

definition set_item :: "IterationKind \<Rightarrow> js_value \<Rightarrow> js_value \<Rightarrow> iter_item" where
  "set_item itemKind key val = (if itemKind = VALUE \<or> itemKind = KEY then Item key else PairItem key key)"

text \<open>The receiver of a built-in is an object of the right class, or another value (\<open>None\<close>).\<close>

definition receiver :: "string \<Rightarrow> 's option \<Rightarrow> js_throw + 's" where
  "receiver message self = (case self of None \<Rightarrow> Inl (TypeError message) | Some s \<Rightarrow> Inr s)"

definition JSMapIterator_NextInternal ::
  "table_store \<Rightarrow> collection_iterator option \<Rightarrow> (js_throw + iter_item option \<times> collection_iterator) option" where
  "JSMapIterator_NextInternal ts self =
     (case receiver ''this value is not a map iterator'' self of
        Inl e \<Rightarrow> Some (Inl e)
      | Inr iter \<Rightarrow> map_option Inr (iterator_next LinkedHashMapObject map_item ts iter))"

definition JSSetIterator_NextInternal ::
  "table_store \<Rightarrow> collection_iterator option \<Rightarrow> (js_throw + iter_item option \<times> collection_iterator) option" where
  "JSSetIterator_NextInternal ts self =
     (case receiver ''this value is not a set iterator'' self of
        Inl e \<Rightarrow> Some (Inl e)
      | Inr iter \<Rightarrow> map_option Inr (iterator_next LinkedHashSetObject set_item ts iter))"

definition CreateMapIterator :: "js_collection option \<Rightarrow> IterationKind \<Rightarrow> js_throw + collection_iterator" where
  "CreateMapIterator obj kind = map_sum id (\<lambda>map. NewJSMapIterator map kind) (receiver ''obj is not JSMap'' obj)"

definition CreateSetIterator :: "js_collection option \<Rightarrow> IterationKind \<Rightarrow> js_throw + collection_iterator" where
  "CreateSetIterator obj kind = map_sum id (\<lambda>set. NewJSSetIterator set kind) (receiver ''obj is not JSSet'' obj)"

text \<open>\<open>MapIteratorToList\<close> reads the table of the iterator as it is; the items are the elements of the array it returns.\<close>

definition MapIteratorToList :: "table_store \<Rightarrow> collection_iterator \<Rightarrow> iter_item list" where
  "MapIteratorToList ts iter =
     (case it_table iter of
        None \<Rightarrow> []
      | Some table \<Rightarrow>
          let t = ts ! table;
              totalElements = NumberOfElements t + NumberOfDeletedElements t
          in map (\<lambda>index. map_item (it_kind iter) (GetKey LinkedHashMapObject t index) (GetValue LinkedHashMapObject t index))
               (filter (\<lambda>index. GetKey LinkedHashMapObject t index \<noteq> Hole) [nat (sint (it_next iter))..<nat totalElements]))"

section \<open>Built-ins\<close>

definition BuiltinsMap_Set ::
  "table_ops \<Rightarrow> js_collection option \<Rightarrow> js_value \<Rightarrow> js_value \<Rightarrow> (js_throw + js_collection) option" where
  "BuiltinsMap_Set ops self key val =
     (case receiver ''obj is not JSMap'' self of Inl e \<Rightarrow> Some (Inl e) | Inr st \<Rightarrow> JSMap_Set ops st key val)"

definition BuiltinsMap_Clear :: "js_collection option \<Rightarrow> js_throw + js_collection" where
  "BuiltinsMap_Clear self = map_sum id JSMap_Clear (receiver ''obj is not JSMap'' self)"

definition BuiltinsMap_Delete ::
  "table_ops \<Rightarrow> js_collection option \<Rightarrow> js_value \<Rightarrow> (js_throw + js_value \<times> js_collection) option" where
  "BuiltinsMap_Delete ops self key =
     (case receiver ''obj is not JSMap'' self of
        Inl e \<Rightarrow> Some (Inl e)
      | Inr st \<Rightarrow> map_option (\<lambda>(flag, st). Inr (tagged_bool flag, st)) (JSMap_Delete ops st key))"

definition BuiltinsMap_Has :: "table_ops \<Rightarrow> js_collection option \<Rightarrow> js_value \<Rightarrow> (js_throw + js_value) option" where
  "BuiltinsMap_Has ops self key =
     (case receiver ''obj is not JSMap'' self of
        Inl e \<Rightarrow> Some (Inl e)
      | Inr st \<Rightarrow> map_option (\<lambda>flag. Inr (tagged_bool flag)) (JSMap_Has ops st key))"

definition BuiltinsMap_Get :: "table_ops \<Rightarrow> js_collection option \<Rightarrow> js_value \<Rightarrow> (js_throw + js_value) option" where
  "BuiltinsMap_Get ops self key =
     (case receiver ''obj is not JSMap'' self of
        Inl e \<Rightarrow> Some (Inl e)
      | Inr st \<Rightarrow> if JSMap_GetSize st = 0 then Some (Inr Undefined) else map_option Inr (JSMap_Get ops st key))"

definition BuiltinsMap_GetSize :: "js_collection option \<Rightarrow> js_throw + u32" where
  "BuiltinsMap_GetSize self = map_sum id JSMap_GetSize (receiver ''obj is not JSMap'' self)"

definition BuiltinsMap_Entries :: "js_collection option \<Rightarrow> js_throw + collection_iterator" where
  "BuiltinsMap_Entries self = CreateMapIterator self KEY_AND_VALUE"

definition BuiltinsMap_Keys :: "js_collection option \<Rightarrow> js_throw + collection_iterator" where
  "BuiltinsMap_Keys self = CreateMapIterator self KEY"

definition BuiltinsMap_Values :: "js_collection option \<Rightarrow> js_throw + collection_iterator" where
  "BuiltinsMap_Values self = CreateMapIterator self VALUE"

definition BuiltinsSet_Add :: "table_ops \<Rightarrow> js_collection option \<Rightarrow> js_value \<Rightarrow> (js_throw + js_collection) option" where
  "BuiltinsSet_Add ops self val =
     (case receiver ''obj is not JSSet'' self of Inl e \<Rightarrow> Some (Inl e) | Inr st \<Rightarrow> JSSet_Add ops st val)"

definition BuiltinsSet_Clear :: "js_collection option \<Rightarrow> js_throw + js_collection" where
  "BuiltinsSet_Clear self = map_sum id JSSet_Clear (receiver ''obj is not JSSet'' self)"

definition BuiltinsSet_Delete ::
  "table_ops \<Rightarrow> js_collection option \<Rightarrow> js_value \<Rightarrow> (js_throw + js_value \<times> js_collection) option" where
  "BuiltinsSet_Delete ops self val =
     (case receiver ''obj is not JSSet'' self of
        Inl e \<Rightarrow> Some (Inl e)
      | Inr st \<Rightarrow> map_option (\<lambda>(flag, st). Inr (tagged_bool flag, st)) (JSSet_Delete ops st val))"

definition BuiltinsSet_Has :: "table_ops \<Rightarrow> js_collection option \<Rightarrow> js_value \<Rightarrow> (js_throw + js_value) option" where
  "BuiltinsSet_Has ops self val =
     (case receiver ''obj is not JSSet'' self of
        Inl e \<Rightarrow> Some (Inl e)
      | Inr st \<Rightarrow> map_option (\<lambda>flag. Inr (tagged_bool flag)) (JSSet_Has ops st val))"

definition BuiltinsSet_GetSize :: "js_collection option \<Rightarrow> js_throw + u32" where
  "BuiltinsSet_GetSize self = map_sum id JSSet_GetSize (receiver ''obj is not JSSet'' self)"

definition BuiltinsSet_Entries :: "js_collection option \<Rightarrow> js_throw + collection_iterator" where
  "BuiltinsSet_Entries self = CreateSetIterator self KEY_AND_VALUE"

definition BuiltinsSet_Values :: "js_collection option \<Rightarrow> js_throw + collection_iterator" where
  "BuiltinsSet_Values self = CreateSetIterator self VALUE"

text \<open>
  \<open>forEach\<close> calls a function with the value, the key and the collection, which it may change together with a state \<open>'w\<close>
  of its own, or it throws. After each call the loop moves to the table in use. \<open>None\<close> is a loop that does not end,
  because the function goes on adding entries.
\<close>

type_synonym 'w foreach_callback = "js_value \<Rightarrow> js_value \<Rightarrow> js_collection \<times> 'w \<Rightarrow> js_throw + (js_collection \<times> 'w)"

partial_function (option) foreach_loop ::
  "hash_object \<Rightarrow> 'w foreach_callback \<Rightarrow> nat \<Rightarrow> int \<Rightarrow> int \<Rightarrow> js_collection \<times> 'w \<Rightarrow> (js_throw + js_collection \<times> 'w) option" where
  "foreach_loop h func table index totalElements s =
     (if \<not> index < totalElements then Some (Inr s)
      else let t = fst (fst s) ! table;
               key = GetKey h t (nat index)
           in if key = Hole then foreach_loop h func table (index + 1) totalElements s
              else case func (GetValue h t (nat index)) key s of
                     Inl e \<Rightarrow> Some (Inl e)
                   | Inr s \<Rightarrow>
                       (case follow_tables h (fst (fst s)) table (index + 1) of
                          None \<Rightarrow> None
                        | Some next \<Rightarrow>
                            foreach_loop h func (fst next) (snd next)
                              (NumberOfElements (fst (fst s) ! fst next) + NumberOfDeletedElements (fst (fst s) ! fst next)) s))"

definition BuiltinsMap_ForEach ::
  "(js_collection \<times> 'w) option \<Rightarrow> 'w foreach_callback option \<Rightarrow> (js_throw + js_collection \<times> 'w) option" where
  "BuiltinsMap_ForEach self func =
     (case receiver ''obj is not JSMap'' self of
        Inl e \<Rightarrow> Some (Inl e)
      | Inr s \<Rightarrow>
          (case func of
             None \<Rightarrow> Some (Inl (TypeError ''obj is not Callable''))
           | Some fn \<Rightarrow>
               foreach_loop LinkedHashMapObject fn (snd (fst s)) 0
                 (NumberOfElements (current (fst s)) + NumberOfDeletedElements (current (fst s))) s))"

definition BuiltinsSet_ForEach ::
  "(js_collection \<times> 'w) option \<Rightarrow> 'w foreach_callback option \<Rightarrow> (js_throw + js_collection \<times> 'w) option" where
  "BuiltinsSet_ForEach self func =
     (case receiver ''obj is not JSSet'' self of
        Inl e \<Rightarrow> Some (Inl e)
      | Inr s \<Rightarrow>
          (case func of
             None \<Rightarrow> Some (Inl (TypeError ''callbackfn is not callable''))
           | Some fn \<Rightarrow>
               foreach_loop LinkedHashSetObject (\<lambda>val key. fn key key) (snd (fst s)) 0
                 (NumberOfElements (current (fst s)) + NumberOfDeletedElements (current (fst s))) s))"

text \<open>The constructors without an iterable argument; an iterable is read through functions of the script.\<close>

definition MapConstructor :: "bool \<Rightarrow> table_store \<Rightarrow> js_throw + js_collection" where
  "MapConstructor newTargetUndefined ts =
     (if newTargetUndefined then Inl (TypeError (''new target can'' @ [CHR 0x27] @ ''t be undefined''))
      else Inr (ts @ [Create LinkedHashMapObject MIN_CAPACITY], length ts))"

definition SetConstructor :: "bool \<Rightarrow> table_store \<Rightarrow> js_throw + js_collection" where
  "SetConstructor newTargetUndefined ts =
     (if newTargetUndefined then Inl (TypeError (''new target can'' @ [CHR 0x27] @ ''t be undefined''))
      else Inr (ts @ [Create LinkedHashSetObject MIN_CAPACITY], length ts))"

end
