(* ===== verification/JS_Map_Theorems.thy ===== *)
theory JS_Map_Theorems
  imports JS_Map_Set
begin

text \<open>
  Map and Set against the language specification. There the data of a collection is one list of entries that never
  moves: a deleted entry becomes empty, new entries go to the end, and an iterator is an index into the list. The tables of
  the runtime are copied and compacted instead; the theorems show that a program cannot tell the difference.
\<close>

section \<open>The specification\<close>

type_synonym map_data = "(js_value \<times> js_value) option list"

definition spec_insert :: "table_ops \<Rightarrow> hash_object \<Rightarrow> js_value \<Rightarrow> js_value \<Rightarrow> map_data \<Rightarrow> map_data" where
  "spec_insert ops h k v M =
     (if has_key ops k (live M) then map (map_option (upd ops h k v)) M else M @ [Some (k, v)])"

definition spec_delete :: "table_ops \<Rightarrow> js_value \<Rightarrow> map_data \<Rightarrow> map_data" where
  "spec_delete ops k M = map (kill (\<lambda>r. matches ops k (fst r))) M"

definition spec_clear :: "map_data \<Rightarrow> map_data" where
  "spec_clear M = map (\<lambda>r. None) M"

definition spec_next ::
  "(js_value \<Rightarrow> js_value \<Rightarrow> 'i) \<Rightarrow> map_data \<Rightarrow> nat option \<Rightarrow> 'i option \<times> nat option" where
  "spec_next item M j =
     (case j of
        None \<Rightarrow> (None, None)
      | Some j \<Rightarrow>
          (case find (\<lambda>i. M ! i \<noteq> None) [j..<length M] of
             None \<Rightarrow> (None, None)
           | Some i \<Rightarrow> (Some (case_prod item (the (M ! i))), Some (Suc i))))"

text \<open>
  A program calls the functions of a collection and of its last iterator. \<open>coll_step\<close> is a call, \<open>coll_run\<close> a
  sequence of calls with their replies; \<open>None\<close> stands for a call that does not return.
\<close>

datatype coll_event =
    EInsert js_value js_value
  | EDelete js_value
  | EClear
  | EGet js_value
  | EHas js_value
  | ESize
  | EIterate IterationKind
  | ENext

datatype coll_reply = ROk | RThrow js_throw | RValue js_value | RSize u32 | RNext "iter_item option"

record coll_api =
  api_insert :: "js_collection \<Rightarrow> js_value \<Rightarrow> js_value \<Rightarrow> (js_throw + js_collection) option"
  api_delete :: "js_collection \<Rightarrow> js_value \<Rightarrow> (js_throw + js_value \<times> js_collection) option"
  api_clear :: "js_collection \<Rightarrow> js_throw + js_collection"
  api_get :: "js_collection \<Rightarrow> js_value \<Rightarrow> (js_throw + js_value) option"
  api_has :: "js_collection \<Rightarrow> js_value \<Rightarrow> (js_throw + js_value) option"
  api_size :: "js_collection \<Rightarrow> js_throw + u32"
  api_iterate :: "js_collection \<Rightarrow> IterationKind \<Rightarrow> js_throw + collection_iterator"
  api_next :: "table_store \<Rightarrow> collection_iterator option \<Rightarrow> (js_throw + iter_item option \<times> collection_iterator) option"

type_synonym coll_state = "js_collection \<times> collection_iterator option"

definition not_callable :: js_throw where
  "not_callable = TypeError ''is not callable''"

fun coll_step :: "coll_api \<Rightarrow> coll_event \<Rightarrow> coll_state \<Rightarrow> (coll_reply \<times> coll_state) option" where
  "coll_step api (EInsert k v) (st, it) =
     map_option (\<lambda>r. case r of Inl x \<Rightarrow> (RThrow x, st, it) | Inr st' \<Rightarrow> (ROk, st', it)) (api_insert api st k v)"
| "coll_step api (EDelete k) (st, it) =
     map_option (\<lambda>r. case r of Inl x \<Rightarrow> (RThrow x, st, it) | Inr (b, st') \<Rightarrow> (RValue b, st', it)) (api_delete api st k)"
| "coll_step api EClear (st, it) = Some (case api_clear api st of Inl x \<Rightarrow> (RThrow x, st, it) | Inr st' \<Rightarrow> (ROk, st', it))"
| "coll_step api (EGet k) (st, it) =
     map_option (\<lambda>r. case r of Inl x \<Rightarrow> (RThrow x, st, it) | Inr v \<Rightarrow> (RValue v, st, it)) (api_get api st k)"
| "coll_step api (EHas k) (st, it) =
     map_option (\<lambda>r. case r of Inl x \<Rightarrow> (RThrow x, st, it) | Inr v \<Rightarrow> (RValue v, st, it)) (api_has api st k)"
| "coll_step api ESize (st, it) = Some (case api_size api st of Inl x \<Rightarrow> (RThrow x, st, it) | Inr n \<Rightarrow> (RSize n, st, it))"
| "coll_step api (EIterate kind) (st, it) =
     Some (case api_iterate api st kind of Inl x \<Rightarrow> (RThrow x, st, it) | Inr it' \<Rightarrow> (ROk, st, Some it'))"
| "coll_step api ENext (st, it) =
     map_option (\<lambda>r. case r of Inl x \<Rightarrow> (RThrow x, st, it) | Inr (i, it') \<Rightarrow> (RNext i, st, Some it')) (api_next api (fst st) it)"

fun coll_run :: "coll_api \<Rightarrow> coll_event list \<Rightarrow> coll_state \<Rightarrow> (coll_reply list \<times> coll_state) option" where
  "coll_run api [] s = Some ([], s)"
| "coll_run api (e # es) s =
     (case coll_step api e s of
        None \<Rightarrow> None
      | Some (r, s') \<Rightarrow> map_option (\<lambda>(rs, s''). (r # rs, s'')) (coll_run api es s'))"

definition map_api :: "table_ops \<Rightarrow> coll_api" where
  "map_api ops = \<lparr>
     api_insert = (\<lambda>st. BuiltinsMap_Set ops (Some st)), api_delete = (\<lambda>st. BuiltinsMap_Delete ops (Some st)),
     api_clear = (\<lambda>st. BuiltinsMap_Clear (Some st)), api_get = (\<lambda>st. BuiltinsMap_Get ops (Some st)),
     api_has = (\<lambda>st. BuiltinsMap_Has ops (Some st)), api_size = (\<lambda>st. BuiltinsMap_GetSize (Some st)),
     api_iterate = (\<lambda>st. CreateMapIterator (Some st)), api_next = JSMapIterator_NextInternal\<rparr>"

text \<open>A Set has no function \<open>get\<close>, so the call of it throws.\<close>

definition set_api :: "table_ops \<Rightarrow> coll_api" where
  "set_api ops = \<lparr>
     api_insert = (\<lambda>st k v. BuiltinsSet_Add ops (Some st) k), api_delete = (\<lambda>st. BuiltinsSet_Delete ops (Some st)),
     api_clear = (\<lambda>st. BuiltinsSet_Clear (Some st)), api_get = (\<lambda>st k. Some (Inl not_callable)),
     api_has = (\<lambda>st. BuiltinsSet_Has ops (Some st)), api_size = (\<lambda>st. BuiltinsSet_GetSize (Some st)),
     api_iterate = (\<lambda>st. CreateSetIterator (Some st)), api_next = JSSetIterator_NextInternal\<rparr>"

text \<open>The same for the specification.\<close>

record coll_spec =
  sp_ops :: table_ops
  sp_object :: hash_object
  sp_stored :: "js_value \<Rightarrow> js_value \<Rightarrow> js_value"
  sp_get :: bool
  sp_item :: "IterationKind \<Rightarrow> js_value \<Rightarrow> js_value \<Rightarrow> iter_item"
  sp_error :: js_throw

type_synonym spec_state = "map_data \<times> (IterationKind \<times> nat option) option"

fun spec_step :: "coll_spec \<Rightarrow> coll_event \<Rightarrow> spec_state \<Rightarrow> coll_reply \<times> spec_state" where
  "spec_step sp (EInsert k v) (M, it) =
     (ROk, spec_insert (sp_ops sp) (sp_object sp) (CanonicalizeKeyedCollectionKey k) (sp_stored sp k v) M, it)"
| "spec_step sp (EDelete k) (M, it) =
     (RValue (tagged_bool (has_key (sp_ops sp) (CanonicalizeKeyedCollectionKey k) (live M))),
      spec_delete (sp_ops sp) (CanonicalizeKeyedCollectionKey k) M, it)"
| "spec_step sp EClear (M, it) = (ROk, spec_clear M, it)"
| "spec_step sp (EGet k) (M, it) =
     (if sp_get sp then RValue (lookup_key (sp_ops sp) (CanonicalizeKeyedCollectionKey k) (live M)) else RThrow not_callable, M, it)"
| "spec_step sp (EHas k) (M, it) =
     (RValue (tagged_bool (has_key (sp_ops sp) (CanonicalizeKeyedCollectionKey k) (live M))), M, it)"
| "spec_step sp ESize (M, it) = (RSize (of_nat (length (live M))), M, it)"
| "spec_step sp (EIterate kind) (M, it) = (ROk, M, Some (kind, Some 0))"
| "spec_step sp ENext (M, it) =
     (case it of
        None \<Rightarrow> (RThrow (sp_error sp), M, it)
      | Some (kind, j) \<Rightarrow> (let (r, j') = spec_next (sp_item sp kind) M j in (RNext r, M, Some (kind, j'))))"

fun spec_run :: "coll_spec \<Rightarrow> coll_event list \<Rightarrow> spec_state \<Rightarrow> coll_reply list \<times> spec_state" where
  "spec_run sp [] s = ([], s)"
| "spec_run sp (e # es) s = (let (r, s') = spec_step sp e s; (rs, s'') = spec_run sp es s' in (r # rs, s''))"

definition map_spec :: "table_ops \<Rightarrow> coll_spec" where
  "map_spec ops = \<lparr>sp_ops = ops, sp_object = LinkedHashMapObject, sp_stored = (\<lambda>k v. v), sp_get = True, sp_item = map_item,
     sp_error = TypeError ''this value is not a map iterator''\<rparr>"

definition set_spec :: "table_ops \<Rightarrow> coll_spec" where
  "set_spec ops = \<lparr>sp_ops = ops, sp_object = LinkedHashSetObject, sp_stored = (\<lambda>k v. CanonicalizeKeyedCollectionKey k), sp_get = False,
     sp_item = set_item, sp_error = TypeError ''this value is not a set iterator''\<rparr>"

text \<open>The values that a program can pass: neither the hole nor a weak reference, which are internal.\<close>

definition script_value :: "js_value \<Rightarrow> bool" where
  "script_value v \<longleftrightarrow> v \<noteq> Hole \<and> (\<forall>a. v \<noteq> JSWeak a)"

fun event_ok :: "coll_event \<Rightarrow> bool" where
  "event_ok (EInsert k v) \<longleftrightarrow> script_value k"
| "event_ok (EDelete k) \<longleftrightarrow> script_value k"
| "event_ok (EGet k) \<longleftrightarrow> script_value k"
| "event_ok (EHas k) \<longleftrightarrow> script_value k"
| "event_ok e \<longleftrightarrow> True"

section \<open>Cursors\<close>

lemma find_upt_Some:
  assumes "find P [i..<n] = Some e"
  shows "i \<le> e" "e < n" "P e" "\<And>e'. i \<le> e' \<Longrightarrow> e' < e \<Longrightarrow> \<not> P e'"
proof -
  obtain k where k: "k < length [i..<n]" "P ([i..<n] ! k)" "e = [i..<n] ! k" "\<forall>j < k. \<not> P ([i..<n] ! j)"
    using assms by (auto simp: find_Some_iff)
  then show "i \<le> e" "e < n" "P e" by auto
  show "\<not> P e'" if "i \<le> e'" "e' < e" for e' using k(4) [rule_format, of "e' - i"] k(1,3) that by auto
qed

lemma live_None: "(\<And>i. i < length xs \<Longrightarrow> xs ! i = None) \<Longrightarrow> live xs = []"
  by (induction xs) (auto simp: nth_Cons split: nat.splits, fastforce+)

lemma next_view_None:
  assumes "find (\<lambda>e. xs ! e \<noteq> None) [i..<length xs] = None"
  shows "snd (view xs i) = []"
proof -
  have "xs ! e = None" if "i \<le> e" "e < length xs" for e using assms that by (auto simp: find_None_iff)
  then have "live (drop i xs) = []" by (intro live_None) simp
  then show ?thesis by (simp add: view_def)
qed

lemma next_view_Some:
  assumes f: "find (\<lambda>e. xs ! e \<noteq> None) [i..<length xs] = Some e" and r: "xs ! e = Some r" and v: "view xs i = (p, q)"
  shows "q = r # snd (view xs (Suc e))" "view xs (Suc e) = (p @ [r], tl q)" "Suc e \<le> length xs"
proof -
  note F = find_upt_Some [OF f]
  have "drop i xs = take (e - i) (drop i xs) @ Some r # drop (Suc e) xs"
    using F(1,2) r id_take_nth_drop [of "e - i" "drop i xs"] by (simp add: Suc_diff_le)
  moreover have "live (take (e - i) (drop i xs)) = []" by (intro live_None) (use F(2,4) in auto)
  ultimately have d: "live (drop i xs) = r # live (drop (Suc e) xs)" by (metis append_Nil live.simps(2) live_append option.simps(5))
  have "take (Suc e) xs = take i xs @ take (e - i) (drop i xs) @ [Some r]"
    using F(1,2) r by (simp add: take_Suc_conv_app_nth) (metis append.assoc le_add_diff_inverse take_add)
  then have "live (take (Suc e) xs) = live (take i xs) @ [r]"
    using \<open>live (take (e - i) (drop i xs)) = []\<close> by simp
  moreover have "q = live (drop i xs)" "p = live (take i xs)" using v by (simp_all add: view_def)
  ultimately show "q = r # snd (view xs (Suc e))" "view xs (Suc e) = (p @ [r], tl q)" "Suc e \<le> length xs"
    using d F(2) by (simp_all add: view_def)
qed

lemma next_view_end:
  assumes "snd (view xs i) = []"
  shows "find (\<lambda>e. xs ! e \<noteq> None) [i..<length xs] = None"
proof (rule ccontr)
  assume "\<not> ?thesis"
  then obtain e where e: "find (\<lambda>e. xs ! e \<noteq> None) [i..<length xs] = Some e" by auto
  then obtain r where "xs ! e = Some r" using find_upt_Some(3) [OF e] by auto
  then show False using next_view_Some(1) [OF e _ surjective_pairing] assms by simp
qed

section \<open>Simulation\<close>

definition iter_rel ::
  "hash_object \<Rightarrow> js_collection \<Rightarrow> map_data \<Rightarrow> collection_iterator option \<Rightarrow> (IterationKind \<times> nat option) option \<Rightarrow> bool" where
  "iter_rel h st M it jt =
     (case it of
        None \<Rightarrow> jt = None
      | Some i \<Rightarrow> (\<exists>j. jt = Some (it_kind i, j) \<and>
          (case it_table i of
             None \<Rightarrow> j = None
           | Some b \<Rightarrow> (\<exists>n e. j = Some n \<and> n \<le> length M \<and> cursor h st b (sint (it_next i)) e \<and> view (content h st) e = view M n))))"

definition coll_rel :: "coll_spec \<Rightarrow> coll_state \<Rightarrow> spec_state \<Rightarrow> bool" where
  "coll_rel sp s m = (case (s, m) of ((st, it), (M, jt)) \<Rightarrow>
     store_ok (sp_ops sp) (sp_object sp) st \<and> live (content (sp_object sp) st) = live M \<and> iter_rel (sp_object sp) st M it jt)"

lemma coll_rel_acts:
  assumes R: "coll_rel sp (st, it) (M, jt)" and A: "acts (sp_ops sp) (sp_object sp) st st' f"
    and len: "length M \<le> length M'" and f: "\<And>j. j \<le> length M \<Longrightarrow> view M' j = f (view M j)"
  shows "coll_rel sp (st', it) (M', jt)"
proof -
  let ?h = "sp_object sp"
  have st: "store_ok (sp_ops sp) ?h st" and eq: "live (content ?h st) = live M" and I: "iter_rel ?h st M it jt"
    using R by (simp_all add: coll_rel_def)
  have "view M 0 = ([], live M)" by (simp add: view_def)
  then have "live M' = fst (f ([], live M)) @ snd (f ([], live M))" using view_live [of M' 0] f [of 0] by simp
  then have "live (content ?h st') = live M'" using acts_live [OF st A] eq by simp
  moreover have "iter_rel ?h st' M' it jt"
  proof (cases it)
    case (Some i)
    then obtain j where j: "jt = Some (it_kind i, j)" using I by (auto simp: iter_rel_def)
    show ?thesis
    proof (cases "it_table i")
      case None
      then show ?thesis using I Some by (simp add: iter_rel_def)
    next
      case b: (Some b)
      then obtain n e where "j = Some n" "n \<le> length M" "cursor ?h st b (sint (it_next i)) e" "view (content ?h st) e = view M n"
        using I Some j by (auto simp: iter_rel_def)
      moreover from this obtain e' where "cursor ?h st' b (sint (it_next i)) e'" "view (content ?h st') e' = f (view M n)"
        using A unfolding acts_def by metis
      ultimately show ?thesis using Some j b len f [of n] by (auto simp: iter_rel_def)
    qed
  qed (use I in \<open>simp add: iter_rel_def\<close>)
  ultimately show ?thesis using A by (simp add: coll_rel_def acts_def)
qed

text \<open>A step of the collection and a step of the specification that act in the same way on every iterator.\<close>

definition moved :: "coll_spec \<Rightarrow> js_collection \<Rightarrow> js_collection \<Rightarrow> map_data \<Rightarrow> map_data \<Rightarrow> bool" where
  "moved sp st st' M M' \<longleftrightarrow> (\<exists>f. acts (sp_ops sp) (sp_object sp) st st' f \<and> length M \<le> length M' \<and> (\<forall>j \<le> length M. view M' j = f (view M j)))"

lemma moved_refl: "store_ok (sp_ops sp) (sp_object sp) st \<Longrightarrow> moved sp st st M M"
  unfolding moved_def by (rule exI [of _ id]) (auto simp: acts_def)

lemma moved_trans: "moved sp st st' M M' \<Longrightarrow> moved sp st' st'' M' M'' \<Longrightarrow> moved sp st st'' M M''"
  unfolding moved_def by (elim exE conjE, rule_tac x = "fa \<circ> f" in exI) (auto intro: acts_trans)

lemma moved_rel: "moved sp st st' M M' \<Longrightarrow> coll_rel sp (st, it) (M, jt) \<Longrightarrow> coll_rel sp (st', it) (M', jt)"
  unfolding moved_def using coll_rel_acts by blast

lemma view_insert: "view (spec_insert ops h k v M) j = insert_view ops h k v (k, v) (view M j)" if "j \<le> length M"
  unfolding insert_view_eq spec_insert_def using that by (auto simp: view_def take_map drop_map live_map_option)

lemma view_delete: "view (spec_delete ops k M) j = remove_view ops k (view M j)"
  by (simp add: spec_delete_def view_def take_map drop_map live_kill)

lemma view_clear: "view (spec_clear M) j = ([], [])"
  by (simp add: spec_clear_def view_def take_map drop_map)

lemma script_key:
  assumes "script_value k"
  shows "IsKey (CanonicalizeKeyedCollectionKey k)" "RemoveWeakTag (CanonicalizeKeyedCollectionKey k) = CanonicalizeKeyedCollectionKey k" "IsKey k"
  using assms by (cases k; simp add: script_value_def CanonicalizeKeyedCollectionKey_def IsKey_def)+

lemma used_small:
  assumes "wf_table ops h t"
  shows "used t \<le> 2 ^ 30"
proof -
  obtain c k where "used t \<le> c" "c = 2 ^ k" "k \<le> 30" using assms table_invD(2,8) unfolding wf_table_def by blast
  then show ?thesis using power_increasing [of k 30 "2 :: nat"] by simp
qed

lemma sint_of_index: "i \<le> 2 ^ 30 \<Longrightarrow> sint (of_nat i :: u32) = int i"
  by (subst sint_nat_small) (simp_all add: unat_of_nat)

lemma find_key: "find (\<lambda>e. GetKey h t e \<noteq> Hole) [i..<used t] = find (\<lambda>e. entries h t ! e \<noteq> None) [i..<length (entries h t)]"
  by (rule find_cong) (auto simp: entries_nth row_def)

lemma iterator_next_ok:
  assumes st: "store_ok ops h st" and R: "iter_rel h st M (Some it) (Some (kind, j))"
  shows "\<exists>it'. iterator_next h item (fst st) it = Some (fst (spec_next (item kind) M j), it') \<and>
    iter_rel h st M (Some it') (Some (kind, snd (spec_next (item kind) M j)))"
proof (cases "it_table it")
  case None
  then show ?thesis using R by (auto simp: iterator_next_def iterator_update_def iter_rel_def spec_next_def)
next
  case (Some b)
  obtain ts a where s: "st = (ts, a)" by (cases st)
  let ?t = "ts ! a"
  have wf: "wf_table ops h ?t" using st by (simp add: s store_ok_def)
  obtain n i where n: "j = Some n" "n \<le> length M" "kind = it_kind it" and cu: "cursor h st b (sint (it_next it)) i"
    and v: "view (content h st) i = view M n" using R Some by (auto simp: iter_rel_def)
  have i: "i \<le> used ?t" and fo: "follows h ts b (sint (it_next it)) a (int i)" using cu by (auto simp: s cursor_def)
  have small: "sint (word_of_int (int i) :: u32) = int i" using sint_of_index [of i] i used_small [OF wf] by simp
  obtain it1 where u: "iterator_update h ts it = Some it1" "it_table it1 = Some a" "sint (it_next it1) = int i" "it_kind it1 = it_kind it"
  proof (cases "GetNextTable (ts ! b) = Hole")
    case True
    then have "a = b" "sint (it_next it) = int i" using fo by (auto elim: follows.cases)
    then show ?thesis using that [of it] True Some by (simp add: iterator_update_def)
  next
    case False
    then show ?thesis using that follows_imp [OF fo] Some small by (simp add: iterator_update_def)
  qed
  have tot: "nat (NumberOfElements ?t + NumberOfDeletedElements ?t) = used ?t" by (simp add: used_def)
  note P = find_key [of h ?t i]
  note N = iterator_next_def u(1,2,3) tot
  show ?thesis
  proof (cases "find (\<lambda>e. entries h ?t ! e \<noteq> None) [i..<length (entries h ?t)]")
    case None
    then have "snd (view M n) = []" using next_view_None [OF None] v by (simp add: s)
    then have "find (\<lambda>e. M ! e \<noteq> None) [n..<length M] = None"
      by (rule next_view_end)
    then show ?thesis using None P n(1,3) u by (simp add: N s spec_next_def iter_rel_def)
  next
    case f: (Some e)
    obtain p q where pq: "view (entries h ?t) i = (p, q)" by (cases "view (entries h ?t) i")
    have row: "entries h ?t ! e = Some (GetKey h ?t e, GetValue h ?t e)"
      using find_upt_Some(2,3) [OF f] by (auto simp: entries_nth row_def split: if_splits)
    note V = next_view_Some [OF f row pq]
    have vM: "view M n = (p, q)" using v pq by (simp add: s)
    obtain m where m: "find (\<lambda>e. M ! e \<noteq> None) [n..<length M] = Some m"
      using next_view_None [of M n] vM V(1) by (cases "find (\<lambda>e. M ! e \<noteq> None) [n..<length M]") auto
    then obtain r where r: "M ! m = Some r" using find_upt_Some(3) [OF m] by auto
    note VM = next_view_Some [OF m r vM]
    have rr: "r = (GetKey h ?t e, GetValue h ?t e)" using V(1) VM(1) by simp
    have e: "Suc e \<le> used ?t" using V(3) by simp
    then have "sint (of_nat (Suc e) :: u32) = int (Suc e)" using used_small [OF wf] by (intro sint_of_index) simp
    then have "cursor h st a (sint (of_nat (Suc e) :: u32)) (Suc e)"
      using e st wf by (auto simp: s cursor_def store_ok_def wf_table_def intro: follows.stop)
    then have "iter_rel h st M (Some (it1\<lparr>it_next := of_nat (Suc e)\<rparr>)) (Some (kind, Some (Suc m)))"
      using u n(3) V(2) VM(2,3) rr by (auto simp: iter_rel_def s)
    then show ?thesis using f P m r rr n(1,3) u by (simp add: N s spec_next_def Let_def)
  qed
qed

text \<open>
  What a collection promises: every function returns, and acts on the entries as the specification of it does.
\<close>

locale keyed_collection =
  fixes api :: coll_api and sp :: coll_spec
  assumes insert: "ops_ok (sp_ops sp) \<Longrightarrow> store_ok (sp_ops sp) (sp_object sp) st \<Longrightarrow> script_value k \<Longrightarrow>
      length (live (content (sp_object sp) st)) < 2 ^ 29 \<Longrightarrow>
      \<exists>st'. api_insert api st k v = Some (Inr st') \<and>
        acts (sp_ops sp) (sp_object sp) st st' (insert_view (sp_ops sp) (sp_object sp) (CanonicalizeKeyedCollectionKey k)
          (sp_stored sp k v) (CanonicalizeKeyedCollectionKey k, sp_stored sp k v))"
    and delete: "ops_ok (sp_ops sp) \<Longrightarrow> store_ok (sp_ops sp) (sp_object sp) st \<Longrightarrow> script_value k \<Longrightarrow>
      \<exists>st'. api_delete api st k =
          Some (Inr (tagged_bool (has_key (sp_ops sp) (CanonicalizeKeyedCollectionKey k) (live (content (sp_object sp) st))), st')) \<and>
        acts (sp_ops sp) (sp_object sp) st st' (remove_view (sp_ops sp) (CanonicalizeKeyedCollectionKey k))"
    and clear: "ops_ok (sp_ops sp) \<Longrightarrow> store_ok (sp_ops sp) (sp_object sp) st \<Longrightarrow>
      \<exists>st'. api_clear api st = Inr st' \<and> acts (sp_ops sp) (sp_object sp) st st' (\<lambda>v. ([], []))"
    and get: "ops_ok (sp_ops sp) \<Longrightarrow> store_ok (sp_ops sp) (sp_object sp) st \<Longrightarrow> script_value k \<Longrightarrow>
      api_get api st k = Some (if sp_get sp
        then Inr (lookup_key (sp_ops sp) (CanonicalizeKeyedCollectionKey k) (live (content (sp_object sp) st))) else Inl not_callable)"
    and has: "ops_ok (sp_ops sp) \<Longrightarrow> store_ok (sp_ops sp) (sp_object sp) st \<Longrightarrow> script_value k \<Longrightarrow>
      api_has api st k = Some (Inr (tagged_bool (has_key (sp_ops sp) (CanonicalizeKeyedCollectionKey k) (live (content (sp_object sp) st)))))"
    and count: "store_ok (sp_ops sp) (sp_object sp) st \<Longrightarrow> api_size api st = Inr (of_nat (length (live (content (sp_object sp) st))))"
    and iterate: "api_iterate api st kind = Inr \<lparr>it_table = Some (snd st), it_next = 0, it_kind = kind\<rparr>"
    and nexts: "api_next api ts None = Some (Inl (sp_error sp))"
      "api_next api ts (Some it) = map_option Inr (iterator_next (sp_object sp) (sp_item sp) ts it)"
begin

lemma step_sim:
  assumes ok: "ops_ok (sp_ops sp)" and e: "event_ok e" and R: "coll_rel sp (st, it) (M, jt)" and lim: "length (live M) < 2 ^ 29"
  shows "\<exists>st' it'. coll_step api e (st, it) = Some (fst (spec_step sp e (M, jt)), st', it') \<and>
    coll_rel sp (st', it') (snd (spec_step sp e (M, jt))) \<and> moved sp st st' M (fst (snd (spec_step sp e (M, jt))))"
proof -
  have st: "store_ok (sp_ops sp) (sp_object sp) st" and eq: "live (content (sp_object sp) st) = live M"
    and I: "iter_rel (sp_object sp) st M it jt" using R by (simp_all add: coll_rel_def)
  note refl = moved_refl [OF st, of M]
  show ?thesis
  proof (cases e)
    case (EInsert k v)
    then obtain st' where s: "api_insert api st k v = Some (Inr st')" and A: "acts (sp_ops sp) (sp_object sp) st st'
        (insert_view (sp_ops sp) (sp_object sp) (CanonicalizeKeyedCollectionKey k) (sp_stored sp k v)
          (CanonicalizeKeyedCollectionKey k, sp_stored sp k v))"
      using insert [OF ok st, of k v] e lim eq by auto
    then have "moved sp st st' M (spec_insert (sp_ops sp) (sp_object sp) (CanonicalizeKeyedCollectionKey k) (sp_stored sp k v) M)"
      unfolding moved_def using view_insert by (intro exI conjI) (auto simp: spec_insert_def)
    then show ?thesis using EInsert s moved_rel R by auto
  next
    case (EDelete k)
    then obtain st' where s: "api_delete api st k = Some (Inr (tagged_bool (has_key (sp_ops sp) (CanonicalizeKeyedCollectionKey k) (live M)), st'))"
      and A: "acts (sp_ops sp) (sp_object sp) st st' (remove_view (sp_ops sp) (CanonicalizeKeyedCollectionKey k))"
      using delete [OF ok st, of k] e eq by auto
    then have "moved sp st st' M (spec_delete (sp_ops sp) (CanonicalizeKeyedCollectionKey k) M)"
      unfolding moved_def using view_delete by (intro exI conjI) (auto simp: spec_delete_def)
    then show ?thesis using EDelete s moved_rel R by auto
  next
    case EClear
    then obtain st' where s: "api_clear api st = Inr st'" and A: "acts (sp_ops sp) (sp_object sp) st st' (\<lambda>v. ([], []))"
      using clear [OF ok st] by auto
    then have "moved sp st st' M (spec_clear M)"
      unfolding moved_def using view_clear by (intro exI conjI) (auto simp: spec_clear_def)
    then show ?thesis using EClear s moved_rel R by auto
  next
    case (EGet k)
    then show ?thesis using get [OF ok st, of k] e eq R refl by (cases st) auto
  next
    case (EHas k)
    then show ?thesis using has [OF ok st, of k] e eq R refl by (cases st) auto
  next
    case ESize
    then show ?thesis using count [OF st] eq R refl by simp
  next
    case (EIterate kind)
    obtain ts a where s: "st = (ts, a)" by (cases st)
    have "view (content (sp_object sp) st) 0 = view M 0" using eq by (simp add: view_def)
    then have "iter_rel (sp_object sp) st M (Some \<lparr>it_table = Some (snd st), it_next = 0, it_kind = kind\<rparr>) (Some (kind, Some 0))"
      using cursor_start [OF st [unfolded s]] by (auto simp: iter_rel_def s)
    then show ?thesis using EIterate st eq refl by (simp add: iterate coll_rel_def)
  next
    case ENext
    show ?thesis
    proof (cases it)
      case None
      then show ?thesis using ENext R I refl by (simp add: nexts iter_rel_def)
    next
      case (Some i)
      then obtain j where j: "jt = Some (it_kind i, j)" using I by (auto simp: iter_rel_def)
      then obtain it' where "iterator_next (sp_object sp) (sp_item sp) (fst st) i = Some (fst (spec_next (sp_item sp (it_kind i)) M j), it')"
        "iter_rel (sp_object sp) st M (Some it') (Some (it_kind i, snd (spec_next (sp_item sp (it_kind i)) M j)))"
        using iterator_next_ok [OF st, of M i "it_kind i" j] I Some by blast
      then show ?thesis using ENext Some j st eq refl by (simp add: nexts coll_rel_def case_prod_beta)
    qed
  qed
qed

lemma spec_step_size: "length (live (fst (snd (spec_step sp e (M, jt))))) \<le> Suc (length (live M))"
  by (cases e) (auto simp: spec_insert_def live_map_option spec_delete_def live_kill spec_clear_def case_prod_beta Let_def
      split: option.split intro: le_SucI)

lemma run_sim:
  assumes ok: "ops_ok (sp_ops sp)" and es: "\<forall>e \<in> set es. event_ok e" and R: "coll_rel sp (st, it) (M, jt)"
    and lim: "length (live M) + length es \<le> 2 ^ 29"
  shows "\<exists>st' it'. coll_run api es (st, it) = Some (fst (spec_run sp es (M, jt)), st', it') \<and>
    coll_rel sp (st', it') (snd (spec_run sp es (M, jt))) \<and> moved sp st st' M (fst (snd (spec_run sp es (M, jt)))) \<and>
    length (live (fst (snd (spec_run sp es (M, jt))))) \<le> length (live M) + length es"
  using es R lim
proof (induction es arbitrary: st it M jt)
  case Nil
  then show ?case using moved_refl by (simp add: coll_rel_def)
next
  case (Cons e es)
  obtain M1 jt1 where m: "snd (spec_step sp e (M, jt)) = (M1, jt1)" by (cases "snd (spec_step sp e (M, jt))")
  obtain st1 it1 where s1: "coll_step api e (st, it) = Some (fst (spec_step sp e (M, jt)), st1, it1)" "coll_rel sp (st1, it1) (M1, jt1)"
    "moved sp st st1 M M1"
    using step_sim [OF ok, of e st it M jt] Cons.prems m by auto
  have le: "length (live M1) \<le> Suc (length (live M))" using spec_step_size [of e M jt] m by simp
  then have "length (live M1) + length es \<le> 2 ^ 29" using Cons.prems(3) by simp
  then obtain st2 it2 where "coll_run api es (st1, it1) = Some (fst (spec_run sp es (M1, jt1)), st2, it2)"
    "coll_rel sp (st2, it2) (snd (spec_run sp es (M1, jt1)))" "moved sp st1 st2 M1 (fst (snd (spec_run sp es (M1, jt1))))"
    "length (live (fst (snd (spec_run sp es (M1, jt1))))) \<le> length (live M1) + length es"
    using Cons.IH [OF _ s1(2)] Cons.prems(1) by auto
  then show ?case using s1 m le moved_trans [OF s1(3)] by (simp add: case_prod_beta Let_def)
qed

end

section \<open>Map and Set keep the promise\<close>

lemma objects_ok [simp]: "obj_ok LinkedHashMapObject" "obj_ok LinkedHashSetObject"
  by (simp_all add: obj_ok_def)

lemma store_wf: "store_ok ops h st \<Longrightarrow> wf_table ops h (current st)"
  by (auto simp: store_ok_def)

lemma size_of_store: "store_ok ops h st \<Longrightarrow> word_of_int (NumberOfElements (current st)) = (of_nat (length (live (content h st))) :: u32)"
  using store_wf [of ops h st] by (simp add: wf_table_def)

lemma delete_reply:
  assumes "ops_ok ops" "obj_ok h" "store_ok ops h st" "IsKey k"
  shows "\<exists>st'. (let (ts, a) = st
      in map_option (\<lambda>entry. if entry = - 1 then (False, st) else (True, ts[a := RemoveEntry h (ts ! a) (nat entry)], a))
           (FindElement ops h (ts ! a) k)) = Some (has_key ops k (live (content h st)), st') \<and>
    acts ops h st st' (remove_view ops k)"
proof -
  obtain ts a where s: "st = (ts, a)" by (cases st)
  show ?thesis by (cases rule: delete_acts [OF assms(1,2) assms(3) [unfolded s] assms(4)]) (auto simp: s)
qed

lemma get_empty:
  assumes "store_ok ops h st" "word_of_int (NumberOfElements (current st)) = (0 :: u32)"
  shows "live (content h st) = []"
proof -
  have wf: "wf_table ops h (current st)" using store_wf [OF assms(1)] .
  have "length (live (content h st)) \<le> 2 ^ 30" using length_live_le [of "content h st"] used_small [OF wf] by simp
  moreover have "unat (of_nat (length (live (content h st))) :: u32) = 0" using size_of_store [OF assms(1)] assms(2) by simp
  ultimately show ?thesis by (simp add: unat_of_nat)
qed

interpretation map_coll: keyed_collection "map_api ops" "map_spec ops" for ops
proof
  fix st :: js_collection and k v kind ts it
  note defs = map_api_def map_spec_def
  assume st: "store_ok (sp_ops (map_spec ops)) (sp_object (map_spec ops)) st"
  then have st': "store_ok ops LinkedHashMapObject st" by (simp add: map_spec_def)
  show "api_size (map_api ops) st = Inr (of_nat (length (live (content (sp_object (map_spec ops)) st))))"
    using size_of_store [OF st'] by (simp add: defs BuiltinsMap_GetSize_def receiver_def JSMap_GetSize_def)
  assume ok: "ops_ok (sp_ops (map_spec ops))"
  then have ok': "ops_ok ops" by (simp add: map_spec_def)
  show "\<exists>st'. api_clear (map_api ops) st = Inr st' \<and> acts (sp_ops (map_spec ops)) (sp_object (map_spec ops)) st st' (\<lambda>v. ([], []))"
    using Clear_acts [OF ok' _ st'] by (simp add: defs BuiltinsMap_Clear_def receiver_def JSMap_Clear_def)
  assume k: "script_value k"
  note K = script_key [OF k]
  show "\<exists>st'. api_delete (map_api ops) st k =
      Some (Inr (tagged_bool (has_key (sp_ops (map_spec ops)) (CanonicalizeKeyedCollectionKey k) (live (content (sp_object (map_spec ops)) st))), st')) \<and>
    acts (sp_ops (map_spec ops)) (sp_object (map_spec ops)) st st' (remove_view (sp_ops (map_spec ops)) (CanonicalizeKeyedCollectionKey k))"
    using delete_reply [OF ok' _ st' K(1)] by (auto simp: defs BuiltinsMap_Delete_def receiver_def JSMap_Delete_def Let_def)
  show "api_has (map_api ops) st k =
      Some (Inr (tagged_bool (has_key (sp_ops (map_spec ops)) (CanonicalizeKeyedCollectionKey k) (live (content (sp_object (map_spec ops)) st)))))"
    using Has_ok [OF ok' store_wf [OF st'] K(1)] by (simp add: defs BuiltinsMap_Has_def receiver_def JSMap_Has_def)
  show "api_get (map_api ops) st k = Some (if sp_get (map_spec ops)
      then Inr (lookup_key (sp_ops (map_spec ops)) (CanonicalizeKeyedCollectionKey k) (live (content (sp_object (map_spec ops)) st))) else Inl not_callable)"
    using Get_ok [OF ok' store_wf [OF st'] K(1)] get_empty [OF st']
    by (simp add: defs BuiltinsMap_Get_def receiver_def JSMap_Get_def JSMap_GetSize_def lookup_key_def)
  assume lim: "length (live (content (sp_object (map_spec ops)) st)) < 2 ^ 29"
  show "\<exists>st'. api_insert (map_api ops) st k v = Some (Inr st') \<and>
    acts (sp_ops (map_spec ops)) (sp_object (map_spec ops)) st st' (insert_view (sp_ops (map_spec ops)) (sp_object (map_spec ops))
      (CanonicalizeKeyedCollectionKey k) (sp_stored (map_spec ops) k v) (CanonicalizeKeyedCollectionKey k, sp_stored (map_spec ops) k v))"
    using Insert_acts [OF ok' _ st' _ K(1,2), of v] lim K(1)
    by (auto simp: defs BuiltinsMap_Set_def receiver_def JSMap_Set_def Let_def LinkedHashMapObject_def LinkedHashSetObject_def obj_ok_def)
qed (simp_all add: map_api_def map_spec_def CreateMapIterator_def NewJSMapIterator_def JSMapIterator_NextInternal_def receiver_def)

interpretation set_coll: keyed_collection "set_api ops" "set_spec ops" for ops
proof
  fix st :: js_collection and k v kind ts it
  note defs = set_api_def set_spec_def
  assume st: "store_ok (sp_ops (set_spec ops)) (sp_object (set_spec ops)) st"
  then have st': "store_ok ops LinkedHashSetObject st" by (simp add: set_spec_def)
  show "api_size (set_api ops) st = Inr (of_nat (length (live (content (sp_object (set_spec ops)) st))))"
    using size_of_store [OF st'] by (simp add: defs BuiltinsSet_GetSize_def receiver_def JSSet_GetSize_def)
  assume ok: "ops_ok (sp_ops (set_spec ops))"
  then have ok': "ops_ok ops" by (simp add: set_spec_def)
  show "\<exists>st'. api_clear (set_api ops) st = Inr st' \<and> acts (sp_ops (set_spec ops)) (sp_object (set_spec ops)) st st' (\<lambda>v. ([], []))"
    using Clear_acts [OF ok' _ st'] by (simp add: defs BuiltinsSet_Clear_def receiver_def JSSet_Clear_def)
  assume k: "script_value k"
  note K = script_key [OF k]
  show "\<exists>st'. api_delete (set_api ops) st k =
      Some (Inr (tagged_bool (has_key (sp_ops (set_spec ops)) (CanonicalizeKeyedCollectionKey k) (live (content (sp_object (set_spec ops)) st))), st')) \<and>
    acts (sp_ops (set_spec ops)) (sp_object (set_spec ops)) st st' (remove_view (sp_ops (set_spec ops)) (CanonicalizeKeyedCollectionKey k))"
    using delete_reply [OF ok' _ st' K(1)] by (auto simp: defs BuiltinsSet_Delete_def receiver_def JSSet_Delete_def Let_def)
  show "api_has (set_api ops) st k =
      Some (Inr (tagged_bool (has_key (sp_ops (set_spec ops)) (CanonicalizeKeyedCollectionKey k) (live (content (sp_object (set_spec ops)) st)))))"
    using Has_ok [OF ok' store_wf [OF st'] K(1)] by (simp add: defs BuiltinsSet_Has_def receiver_def JSSet_Has_def)
  show "api_get (set_api ops) st k = Some (if sp_get (set_spec ops)
      then Inr (lookup_key (sp_ops (set_spec ops)) (CanonicalizeKeyedCollectionKey k) (live (content (sp_object (set_spec ops)) st))) else Inl not_callable)"
    by (simp add: defs)
  assume lim: "length (live (content (sp_object (set_spec ops)) st)) < 2 ^ 29"
  show "\<exists>st'. api_insert (set_api ops) st k v = Some (Inr st') \<and>
    acts (sp_ops (set_spec ops)) (sp_object (set_spec ops)) st st' (insert_view (sp_ops (set_spec ops)) (sp_object (set_spec ops))
      (CanonicalizeKeyedCollectionKey k) (sp_stored (set_spec ops) k v) (CanonicalizeKeyedCollectionKey k, sp_stored (set_spec ops) k v))"
    using Insert_acts [OF ok' _ st' _ K(1,2), of "CanonicalizeKeyedCollectionKey k"] lim k
    by (auto simp: defs BuiltinsSet_Add_def receiver_def JSSet_Add_def Let_def LinkedHashSetObject_def obj_ok_def script_value_def IsKey_def)
qed (simp_all add: set_api_def set_spec_def CreateSetIterator_def NewJSSetIterator_def JSSetIterator_NextInternal_def receiver_def)

end
