(* ===== verification/JS_Map_Properties.thy ===== *)
theory JS_Map_Properties
  imports JS_Map_Theorems
begin

text \<open>
  The properties of Map and Set: a new collection answers every sequence of calls as the specification does,
  \<open>forEach\<close> visits what the specification visits while its function changes the collection, and what
  \<open>MapIteratorToList\<close> returns.
\<close>

section \<open>A platform that satisfies the hypotheses\<close>

primrec pow2_above :: "nat \<Rightarrow> nat \<Rightarrow> nat" where
  "pow2_above 0 x = 1"
| "pow2_above (Suc k) x = (if x \<le> 2 ^ k then pow2_above k x else 2 ^ Suc k)"

definition sample_ops :: table_ops where
  "sample_ops = \<lparr>HashOther = (\<lambda>v. 0), SameValueZero = (=), GetPowerOfTwoValue32 = (\<lambda>x. of_nat (pow2_above 30 (unat x)))\<rparr>"

lemma pow2_above_ok: "x \<le> 2 ^ k \<Longrightarrow> \<exists>j \<le> k. pow2_above k x = 2 ^ j \<and> x \<le> 2 ^ j \<and> (j = 0 \<or> 2 ^ (j - 1) < x)"
proof (induction k)
  case (Suc k)
  show ?case
  proof (cases "x \<le> 2 ^ k")
    case True
    then obtain j where "j \<le> k" "pow2_above k x = 2 ^ j" "x \<le> 2 ^ j" "j = 0 \<or> 2 ^ (j - 1) < x" using Suc.IH by blast
    then show ?thesis using True by (intro exI [of _ j]) auto
  next
    case False
    then show ?thesis using Suc.prems by (intro exI [of _ "Suc k"]) auto
  qed
qed simp

lemma sample_ops_ok: "ops_ok sample_ops"
proof -
  have "\<exists>k \<le> 30. unat (of_nat (pow2_above 30 (unat x)) :: u32) = 2 ^ k \<and> unat x \<le> 2 ^ k \<and> (k = 0 \<or> 2 ^ (k - 1) < unat x)"
    if x: "unat x \<le> 2 ^ 30" for x :: u32
  proof -
    obtain j where j: "j \<le> 30" "pow2_above 30 (unat x) = 2 ^ j" "unat x \<le> 2 ^ j" "j = 0 \<or> 2 ^ (j - 1) < unat x"
      using pow2_above_ok [OF x] by blast
    have "(2 :: nat) ^ j \<le> 2 ^ 30" using j(1) by (intro power_increasing) auto
    then have "unat (of_nat (pow2_above 30 (unat x)) :: u32) = 2 ^ j" unfolding j(2) unat_of_nat by (intro mod_less) simp
    then show ?thesis using j by blast
  qed
  then show ?thesis by (auto simp: ops_ok_def sample_ops_def pow2_ok_def identity_equivp)
qed

section \<open>forEach\<close>

text \<open>
  In the specification \<open>forEach\<close> goes over the list of entries as an iterator does. \<open>N\<close> bounds the number of calls of the
  function; \<open>None\<close> means that they are not enough.
\<close>

fun spec_foreach ::
  "nat \<Rightarrow> (js_value \<Rightarrow> js_value \<Rightarrow> map_data \<times> 'w \<Rightarrow> js_throw + map_data \<times> 'w) \<Rightarrow> nat \<Rightarrow> map_data \<times> 'w \<Rightarrow>
    (js_throw + map_data \<times> 'w) option" where
  "spec_foreach N f j s =
     (case find (\<lambda>i. fst s ! i \<noteq> None) [j..<length (fst s)] of
        None \<Rightarrow> Some (Inr s)
      | Some i \<Rightarrow>
          (case N of
             0 \<Rightarrow> None
           | Suc N \<Rightarrow>
               (case f (snd (the (fst s ! i))) (fst (the (fst s ! i))) s of
                  Inl e \<Rightarrow> Some (Inl e)
                | Inr s' \<Rightarrow> spec_foreach N f (Suc i) s')))"

declare spec_foreach.simps [simp del]

lemmas spec_foreach_Suc = spec_foreach.simps [of "Suc N" for N, simplified nat.case]

text \<open>
  The function of the program: with its state \<open>w\<close> it makes the calls \<open>prog v k w\<close> on the collection, and ends with a new
  state or throws, according to their replies.
\<close>

type_synonym 'w script = "(js_value \<Rightarrow> js_value \<Rightarrow> 'w \<Rightarrow> coll_event list) \<times> (js_value \<Rightarrow> js_value \<Rightarrow> 'w \<Rightarrow> coll_reply list \<Rightarrow> js_throw + 'w)"

definition run_callback :: "coll_api \<Rightarrow> 'w script \<Rightarrow> 'w foreach_callback" where
  "run_callback api fn v k s =
     (case coll_run api (fst fn v k (snd s)) (fst s, None) of
        None \<Rightarrow> Inl (Thrown Undefined)
      | Some (rs, st, it) \<Rightarrow> map_sum id (Pair st) (snd fn v k (snd s) rs))"

definition spec_callback :: "coll_spec \<Rightarrow> 'w script \<Rightarrow> js_value \<Rightarrow> js_value \<Rightarrow> map_data \<times> 'w \<Rightarrow> js_throw + map_data \<times> 'w" where
  "spec_callback sp fn v k s =
     (case spec_run sp (fst fn v k (snd s)) (fst s, None) of (rs, M, it) \<Rightarrow> map_sum id (Pair M) (snd fn v k (snd s) rs))"

definition script_ok :: "nat \<Rightarrow> 'w script \<Rightarrow> bool" where
  "script_ok b fn \<longleftrightarrow> (\<forall>v k w. length (fst fn v k w) \<le> b \<and> (\<forall>e \<in> set (fst fn v k w). event_ok e))"

lemma foreach_loop_skip:
  "foreach_loop h func a (int i) (int m) s =
     (case find (\<lambda>e. GetKey h (fst (fst s) ! a) e \<noteq> Hole) [i..<m] of
        None \<Rightarrow> Some (Inr s)
      | Some e \<Rightarrow> foreach_loop h func a (int e) (int m) s)"
proof (induction "m - i" arbitrary: i)
  case 0
  then show ?case by (subst foreach_loop.simps) simp
next
  case (Suc x)
  then have i: "i < m" "x = m - Suc i" by simp_all
  show ?case
  proof (cases "GetKey h (fst (fst s) ! a) i = Hole")
    case True
    have "foreach_loop h func a (int i) (int m) s = foreach_loop h func a (int (Suc i)) (int m) s"
      using True i(1) by (subst foreach_loop.simps) (simp add: algebra_simps)
    then show ?thesis using Suc.hyps(1) [OF i(2)] True i(1) by (simp add: upt_conv_Cons)
  next
    case False
    then show ?thesis using i(1) by (simp add: upt_conv_Cons)
  qed
qed

lemma foreach_end:
  assumes "find (\<lambda>e. M ! e \<noteq> None) [n..<length M] = None" and v: "view (content h st) i = view M n"
  shows "foreach_loop h f (snd st) (int i) (int (used (current st))) (st, w) = Some (Inr (st, w))"
proof -
  have "snd (view (content h st) i) = []" using next_view_None [OF assms(1)] v by simp
  then show ?thesis using next_view_end [of "content h st" i] by (subst foreach_loop_skip) (simp add: find_key)
qed

lemma foreach_call:
  assumes m: "find (\<lambda>e. M ! e \<noteq> None) [n..<length M] = Some j" and v: "view (content h st) i = view M n"
  obtains e k x where "M ! j = Some (k, x)" "Suc e \<le> used (current st)" "view (content h st) (Suc e) = view M (Suc j)" "Suc j \<le> length M"
    "foreach_loop h f (snd st) (int i) (int (used (current st))) (st, w) =
      (case f x k (st, w) of
         Inl e \<Rightarrow> Some (Inl e)
       | Inr s \<Rightarrow>
           (case follow_tables h (fst (fst s)) (snd st) (int (Suc e)) of
              None \<Rightarrow> None
            | Some next \<Rightarrow>
                foreach_loop h f (fst next) (snd next)
                  (NumberOfElements (fst (fst s) ! fst next) + NumberOfDeletedElements (fst (fst s) ! fst next)) s))"
proof -
  let ?t = "current st"
  obtain k x where kx: "M ! j = Some (k, x)" using find_upt_Some(3) [OF m] by auto
  obtain p q where pq: "view M n = (p, q)" by (cases "view M n")
  note VM = next_view_Some [OF m kx pq]
  obtain e where e: "find (\<lambda>e. entries h ?t ! e \<noteq> None) [i..<length (entries h ?t)] = Some e"
    using next_view_None [of "content h st" i] v pq VM(1) by (cases "find (\<lambda>e. entries h ?t ! e \<noteq> None) [i..<length (entries h ?t)]") auto
  have lt: "e < used ?t" using find_upt_Some(2) [OF e] by simp
  have key: "GetKey h ?t e \<noteq> Hole" using find_upt_Some(2,3) [OF e] by (auto simp: entries_nth row_def split: if_splits)
  then have row: "entries h ?t ! e = Some (GetKey h ?t e, GetValue h ?t e)" using lt by (simp add: entries_nth row_def)
  note V = next_view_Some [OF e row v [unfolded pq]]
  have eq: "GetKey h ?t e = k" "GetValue h ?t e = x" using V(1) VM(1) by simp_all
  show thesis
  proof (rule that [OF kx _ _ VM(3)])
    show "Suc e \<le> used ?t" using lt by simp
    show "view (content h st) (Suc e) = view M (Suc j)" using V(2) VM(2) V(1) VM(1) by simp
    have "foreach_loop h f (snd st) (int i) (int (used ?t)) (st, w) = foreach_loop h f (snd st) (int e) (int (used ?t)) (st, w)"
      using e by (subst foreach_loop_skip) (simp add: find_key)
    also have "\<dots> = (case f x k (st, w) of
         Inl e \<Rightarrow> Some (Inl e)
       | Inr s \<Rightarrow>
           (case follow_tables h (fst (fst s)) (snd st) (int (Suc e)) of
              None \<Rightarrow> None
            | Some next \<Rightarrow>
                foreach_loop h f (fst next) (snd next)
                  (NumberOfElements (fst (fst s) ! fst next) + NumberOfDeletedElements (fst (fst s) ! fst next)) s))"
      using lt key eq by (subst foreach_loop.simps) (simp add: algebra_simps cong: sum.case_cong option.case_cong)
    finally show "foreach_loop h f (snd st) (int i) (int (used ?t)) (st, w) = \<dots>" .
  qed
qed

lemma cursor_here: "store_ok ops h st \<Longrightarrow> i \<le> used (current st) \<Longrightarrow> cursor h st (snd st) (int i) i"
  by (cases st) (auto simp: cursor_def store_ok_def wf_table_def intro: follows.stop)

lemma foreach_next:
  assumes mv: "moved sp st st' M M'" and st: "store_ok (sp_ops sp) (sp_object sp) st" and i: "i \<le> used (current st)"
    and v: "view (content (sp_object sp) st) i = view M n" "n \<le> length M"
  obtains i' where "follow_tables (sp_object sp) (fst st') (snd st) (int i) = Some (snd st', int i')" "i' \<le> used (current st')"
    "view (content (sp_object sp) st') i' = view M' n" "n \<le> length M'"
proof -
  obtain i' where "cursor (sp_object sp) st' (snd st) (int i) i'" "view (content (sp_object sp) st') i' = view M' n" "n \<le> length M'"
    using mv cursor_here [OF st i] v unfolding moved_def acts_def by (metis order.trans)
  moreover from this have "follow_tables (sp_object sp) (fst st') (snd st) (int i) = Some (snd st', int i')" "i' \<le> used (current st')"
    by (cases st'; auto simp: cursor_def dest: follows_imp)+
  ultimately show thesis using that by blast
qed

lemma foreach_view:
  assumes R: "coll_rel sp (st, it) (M, jt)"
  shows "coll_rel sp (st, None) (M, None)" "view (content (sp_object sp) st) 0 = view M 0"
    "NumberOfElements (current st) + NumberOfDeletedElements (current st) = int (used (current st))"
proof -
  have st: "store_ok (sp_ops sp) (sp_object sp) st" and "live (content (sp_object sp) st) = live M" using R by (simp_all add: coll_rel_def)
  then show "coll_rel sp (st, None) (M, None)" "view (content (sp_object sp) st) 0 = view M 0"
    by (simp_all add: coll_rel_def iter_rel_def view_def)
  show "NumberOfElements (current st) + NumberOfDeletedElements (current st) = int (used (current st))"
    by (rule used_int [OF store_wf [OF st]])
qed

context keyed_collection
begin

lemma callback_sim:
  assumes ok: "ops_ok (sp_ops sp)" and fn: "script_ok b fn" and R: "coll_rel sp (st, None) (M, None)"
    and lim: "length (live M) + b \<le> 2 ^ 29"
  shows "(\<exists>e. run_callback api fn v k (st, w) = Inl e \<and> spec_callback sp fn v k (M, w) = Inl e) \<or>
    (\<exists>st' M' w'. run_callback api fn v k (st, w) = Inr (st', w') \<and> spec_callback sp fn v k (M, w) = Inr (M', w') \<and>
      coll_rel sp (st', None) (M', None) \<and> moved sp st st' M M' \<and> length (live M') \<le> length (live M) + b)"
proof -
  let ?es = "fst fn v k w"
  have es: "\<forall>e \<in> set ?es. event_ok e" "length ?es \<le> b" using fn by (simp_all add: script_ok_def)
  obtain rs M' jt where m: "spec_run sp ?es (M, None) = (rs, M', jt)" by (metis prod.exhaust)
  obtain st' it where s: "coll_run api ?es (st, None) = Some (rs, st', it)" "moved sp st st' M M'" "length (live M') \<le> length (live M) + length ?es"
    using run_sim [OF ok es(1) R] lim es(2) m by auto
  have "coll_rel sp (st', None) (M', None)" using moved_rel [OF s(2) R] .
  then show ?thesis using s m es(2) by (cases "snd fn v k w rs") (auto simp: run_callback_def spec_callback_def)
qed

lemma foreach_sim:
  assumes ok: "ops_ok (sp_ops sp)" and fn: "script_ok b fn"
    and st: "coll_rel sp (st, None) (M, None)" and i: "i \<le> used (current st)"
    and v: "view (content (sp_object sp) st) i = view M n" "n \<le> length M"
    and lim: "length (live M) + N * b \<le> 2 ^ 29"
    and m: "spec_foreach N (\<lambda>v k. spec_callback sp fn (g v k) k) n (M, w) = Some r"
  shows "\<exists>r'. foreach_loop (sp_object sp) (\<lambda>v k. run_callback api fn (g v k) k) (snd st) (int i) (int (used (current st))) (st, w) = Some r' \<and>
    map_sum id snd r' = map_sum id snd r"
  using st i v lim m
proof (induction N arbitrary: st M i n w)
  case 0
  then have "find (\<lambda>e. M ! e \<noteq> None) [n..<length M] = None" "r = Inr (M, w)" by (auto simp: spec_foreach.simps split: option.splits)
  then show ?case using foreach_end [OF _ "0.prems"(3)] by (intro exI [of _ "Inr (st, w)"]) simp
next
  case (Suc N)
  let ?h = "sp_object sp"
  let ?f = "\<lambda>v k. run_callback api fn (g v k) k"
  have so: "store_ok (sp_ops sp) ?h st" using Suc.prems(1) by (simp add: coll_rel_def)
  show ?case
  proof (cases "find (\<lambda>e. M ! e \<noteq> None) [n..<length M]")
    case None
    then have "r = Inr (M, w)" using Suc.prems(6) by (simp add: spec_foreach.simps)
    then show ?thesis using foreach_end [OF None Suc.prems(3)] by (intro exI [of _ "Inr (st, w)"]) simp
  next
    case j: (Some j)
    obtain e k x where c: "M ! j = Some (k, x)" "Suc e \<le> used (current st)" "view (content ?h st) (Suc e) = view M (Suc j)" "Suc j \<le> length M"
      and L: "foreach_loop ?h ?f (snd st) (int i) (int (used (current st))) (st, w) =
        (case ?f x k (st, w) of
           Inl e \<Rightarrow> Some (Inl e)
         | Inr s \<Rightarrow>
             (case follow_tables ?h (fst (fst s)) (snd st) (int (Suc e)) of
                None \<Rightarrow> None
              | Some next \<Rightarrow>
                  foreach_loop ?h ?f (fst next) (snd next)
                    (NumberOfElements (fst (fst s) ! fst next) + NumberOfDeletedElements (fst (fst s) ! fst next)) s))"
      by (rule foreach_call [OF j Suc.prems(3)])
    have S: "Some r = (case spec_callback sp fn (g x k) k (M, w) of Inl e \<Rightarrow> Some (Inl e)
        | Inr s' \<Rightarrow> spec_foreach N (\<lambda>v k. spec_callback sp fn (g v k) k) (Suc j) s')"
      using Suc.prems(6) j c(1) by (simp add: spec_foreach.simps [of "Suc N"])
    have "length (live M) + b \<le> 2 ^ 29" using Suc.prems(5) by simp
    then consider (thrown) e where "?f x k (st, w) = Inl e" "spec_callback sp fn (g x k) k (M, w) = Inl e"
      | (ended) st' M' w' where "?f x k (st, w) = Inr (st', w')" "spec_callback sp fn (g x k) k (M, w) = Inr (M', w')"
        "coll_rel sp (st', None) (M', None)" "moved sp st st' M M'" "length (live M') \<le> length (live M) + b"
      using callback_sim [OF ok fn Suc.prems(1), of "g x k" k w] by blast
    then show ?thesis
    proof cases
      case thrown
      then show ?thesis using L S by simp
    next
      case ended
      obtain i' where n: "follow_tables ?h (fst st') (snd st) (int (Suc e)) = Some (snd st', int i')" "i' \<le> used (current st')"
        "view (content ?h st') i' = view M' (Suc j)" "Suc j \<le> length M'"
        by (rule foreach_next [OF ended(4) so c(2,3,4)])
      have "length (live M') + N * b \<le> 2 ^ 29" using ended(5) Suc.prems(5) by simp
      moreover have "NumberOfElements (current st') + NumberOfDeletedElements (current st') = int (used (current st'))"
        by (rule foreach_view(3) [OF ended(3)])
      ultimately show ?thesis using Suc.IH [OF ended(3) n(2,3,4)] L S ended(1,2) n(1) by simp
    qed
  qed
qed

end

section \<open>New collections\<close>

lemma new_collection:
  assumes "obj_ok (sp_object sp)"
  shows "coll_rel sp (([] @ [Create (sp_object sp) MIN_CAPACITY], length ([] :: table_store)), None) ([], None)"
  using Create_ok(2,3) [of 4 2 "sp_object sp"] assms by (simp add: coll_rel_def iter_rel_def store_ok_def wf_table_def MIN_CAPACITY_def)

lemma new_map: "MapConstructor False [] = Inr st \<Longrightarrow> coll_rel (map_spec ops) (st, None) ([], None)"
  using new_collection [of "map_spec ops"] by (auto simp: MapConstructor_def map_spec_def)

lemma new_set: "SetConstructor False [] = Inr st \<Longrightarrow> coll_rel (set_spec ops) (st, None) ([], None)"
  using new_collection [of "set_spec ops"] by (auto simp: SetConstructor_def set_spec_def)

section \<open>Lists of items\<close>




section \<open>Sample collections\<close>

lemmas spec_eval = spec_insert_def spec_delete_def spec_clear_def spec_next_def has_key_def matches_def upd_def kill_def lookup_key_def
  CanonicalizeKeyedCollectionKey_def map_item_def set_item_def tagged_bool_def script_value_def



section \<open>Properties\<close>

text \<open>C2: A new Map answers every sequence of calls of set, delete, clear, get, has, size, keys, values, entries and next as the
  list of entries of the language specification does: every call returns, with the same result, also when a call
  changes the map behind an iterator, copies its table, or clears it.\<close>
theorem map_refines_spec:
  assumes "ops_ok ops" "\<forall>e \<in> set es. event_ok e" "length es \<le> 2 ^ 29" "MapConstructor False [] = Inr st"
  shows "\<exists>s'. coll_run (map_api ops) es (st, None) = Some (fst (spec_run (map_spec ops) es ([], None)), s')"
  using map_coll.run_sim [OF _ assms(2) new_map [OF assms(4), of ops]] assms(1,3) by (auto simp: map_spec_def)

theorem map_refines_spec_witness:
  "\<exists>st s'. MapConstructor False [] = Inr st \<and>
    coll_run (map_api sample_ops)
      [EInsert (JSInt 1) (JSInt 10), EIterate KEY, EInsert (JSInt 2) (JSInt 20), EDelete (JSInt 1), ENext, EGet (JSInt 2), EClear, ENext]
      (st, None) =
    Some ([ROk, ROk, ROk, RValue JSTrue, RNext (Some (Item (JSInt 2))), RValue (JSInt 20), ROk, RNext None], s')"
proof -
  let ?es = "[EInsert (JSInt 1) (JSInt 10), EIterate KEY, EInsert (JSInt 2) (JSInt 20), EDelete (JSInt 1), ENext, EGet (JSInt 2), EClear, ENext]"
  obtain st where new: "MapConstructor False [] = Inr st" by (simp add: MapConstructor_def)
  have "fst (spec_run (map_spec sample_ops) ?es ([], None)) =
      [ROk, ROk, ROk, RValue JSTrue, RNext (Some (Item (JSInt 2))), RValue (JSInt 20), ROk, RNext None]"
    by (simp add: spec_eval map_spec_def sample_ops_def upt_conv_Cons)
  then show ?thesis using map_refines_spec [OF sample_ops_ok _ _ new, of ?es] new by (simp add: script_value_def)
qed

text \<open>C36: The same for a new Set.\<close>
theorem set_refines_spec:
  assumes "ops_ok ops" "\<forall>e \<in> set es. event_ok e" "length es \<le> 2 ^ 29" "SetConstructor False [] = Inr st"
  shows "\<exists>s'. coll_run (set_api ops) es (st, None) = Some (fst (spec_run (set_spec ops) es ([], None)), s')"
  using set_coll.run_sim [OF _ assms(2) new_set [OF assms(4), of ops]] assms(1,3) by (auto simp: set_spec_def)

theorem set_refines_spec_witness:
  "\<exists>st s'. SetConstructor False [] = Inr st \<and>
    coll_run (set_api sample_ops)
      [EInsert (JSInt 1) Undefined, EInsert Null Undefined, EInsert (JSInt 1) Undefined, ESize, EIterate KEY_AND_VALUE, ENext, EHas JSTrue, EGet Null]
      (st, None) =
    Some ([ROk, ROk, ROk, RSize 2, ROk, RNext (Some (PairItem (JSInt 1) (JSInt 1))), RValue JSFalse, RThrow not_callable], s')"
proof -
  let ?es = "[EInsert (JSInt 1) Undefined, EInsert Null Undefined, EInsert (JSInt 1) Undefined, ESize, EIterate KEY_AND_VALUE, ENext, EHas JSTrue, EGet Null]"
  obtain st where new: "SetConstructor False [] = Inr st" by (simp add: SetConstructor_def)
  have "fst (spec_run (set_spec sample_ops) ?es ([], None)) =
      [ROk, ROk, ROk, RSize 2, ROk, RNext (Some (PairItem (JSInt 1) (JSInt 1))), RValue JSFalse, RThrow not_callable]"
    by (simp add: spec_eval set_spec_def sample_ops_def upt_conv_Cons LinkedHashSetObject_def)
  then show ?thesis using set_refines_spec [OF sample_ops_ok _ _ new, of ?es] new by (simp add: script_value_def)
qed

text \<open>C37: \<open>forEach\<close> of a Map that any sequence of calls has made. The function it is given may itself call set, delete,
  clear and the rest on the map, and may throw. The loop returns and leaves the function in the state, or with the
  exception, that the loop of the specification gives, whenever that one ends within \<open>N\<close> calls of the function.\<close>
theorem map_forEach_spec:
  assumes "ops_ok ops" "\<forall>e \<in> set es. event_ok e" "script_ok b fn" "length es + N * b \<le> 2 ^ 29"
    "MapConstructor False [] = Inr st0" "coll_run (map_api ops) es (st0, None) = Some (rs, st, it)"
    "spec_run (map_spec ops) es ([], None) = (rs', M, jt)" "spec_foreach N (spec_callback (map_spec ops) fn) 0 (M, w) = Some r"
  shows "\<exists>r'. BuiltinsMap_ForEach (Some (st, w)) (Some (run_callback (map_api ops) fn)) = Some r' \<and> map_sum id snd r' = map_sum id snd r"
proof -
  have ok: "ops_ok (sp_ops (map_spec ops))" using assms(1) by (simp add: map_spec_def)
  have R: "coll_rel (map_spec ops) (st, it) (M, jt)" and len: "length (live M) \<le> length es"
    using map_coll.run_sim [OF ok assms(2) new_map [OF assms(5)]] assms(4,6,7) by auto
  note V = foreach_view [OF R]
  show ?thesis
    using map_coll.foreach_sim [OF ok assms(3) V(1) _ V(2), where N = N and g = "\<lambda>v k. v" and w = w and r = r] len assms(4,8) V(3)
    by (simp add: BuiltinsMap_ForEach_def receiver_def) (simp add: map_spec_def)
qed

text \<open>
  The function records the keys, deletes 2 and adds 3: it is called for 1 and for 3.
\<close>

theorem map_forEach_spec_witness:
  "\<exists>st0 rs st it r. MapConstructor False [] = Inr st0 \<and>
    coll_run (map_api sample_ops) [EInsert (JSInt 1) (JSInt 10), EInsert (JSInt 2) (JSInt 20)] (st0, None) = Some (rs, st, it) \<and>
    BuiltinsMap_ForEach (Some (st, [])) (Some (run_callback (map_api sample_ops)
      (\<lambda>v k w. [EDelete (JSInt 2), EInsert (JSInt 3) (JSInt 30)], \<lambda>v k w rs. Inr (w @ [k])))) = Some r \<and>
    map_sum id snd r = Inr [JSInt 1, JSInt 3]"
proof -
  let ?es = "[EInsert (JSInt 1) (JSInt 10), EInsert (JSInt 2) (JSInt 20)]"
  let ?fn = "(\<lambda>v k w. [EDelete (JSInt 2), EInsert (JSInt 3) (JSInt 30)], \<lambda>v k w rs. Inr (w @ [k])) :: js_value list script"
  obtain st0 where new: "MapConstructor False [] = Inr st0" by (simp add: MapConstructor_def)
  have es: "\<forall>e \<in> set ?es. event_ok e" and fn: "script_ok 2 ?fn" by (simp_all add: script_ok_def script_value_def)
  have ok: "ops_ok (sp_ops (map_spec sample_ops))" using sample_ops_ok by (simp add: map_spec_def)
  obtain rs st it where run: "coll_run (map_api sample_ops) ?es (st0, None) = Some (rs, st, it)"
    using map_coll.run_sim [OF ok es new_map [OF new]] by auto
  have spec: "spec_run (map_spec sample_ops) ?es ([], None) = ([ROk, ROk], [Some (JSInt 1, JSInt 10), Some (JSInt 2, JSInt 20)], None)"
    by (simp add: spec_eval map_spec_def sample_ops_def)
  have each: "spec_foreach (Suc (Suc (Suc 0))) (spec_callback (map_spec sample_ops) ?fn) 0 ([Some (JSInt 1, JSInt 10), Some (JSInt 2, JSInt 20)], []) =
      Some (Inr ([Some (JSInt 1, JSInt 10), None, Some (JSInt 3, JSInt 30)], [JSInt 1, JSInt 3]))"
    by (simp add: spec_foreach_Suc spec_callback_def spec_eval map_spec_def sample_ops_def upt_conv_Cons LinkedHashMapObject_def LinkedHashSetObject_def)
  obtain r where "BuiltinsMap_ForEach (Some (st, [])) (Some (run_callback (map_api sample_ops) ?fn)) = Some r"
    "map_sum id snd r = Inr [JSInt 1, JSInt 3]"
    using map_forEach_spec [OF sample_ops_ok es fn _ new run spec each] by auto
  then show ?thesis using new run by blast
qed

text \<open>The same for a Set, whose function gets the element twice.\<close>

theorem set_forEach_spec:
  assumes "ops_ok ops" "\<forall>e \<in> set es. event_ok e" "script_ok b fn" "length es + N * b \<le> 2 ^ 29"
    "SetConstructor False [] = Inr st0" "coll_run (set_api ops) es (st0, None) = Some (rs, st, it)"
    "spec_run (set_spec ops) es ([], None) = (rs', M, jt)"
    "spec_foreach N (\<lambda>v k. spec_callback (set_spec ops) fn k k) 0 (M, w) = Some r"
  shows "\<exists>r'. BuiltinsSet_ForEach (Some (st, w)) (Some (run_callback (set_api ops) fn)) = Some r' \<and> map_sum id snd r' = map_sum id snd r"
proof -
  have ok: "ops_ok (sp_ops (set_spec ops))" using assms(1) by (simp add: set_spec_def)
  have R: "coll_rel (set_spec ops) (st, it) (M, jt)" and len: "length (live M) \<le> length es"
    using set_coll.run_sim [OF ok assms(2) new_set [OF assms(5)]] assms(4,6,7) by auto
  note V = foreach_view [OF R]
  show ?thesis
    using set_coll.foreach_sim [OF ok assms(3) V(1) _ V(2), where N = N and g = "\<lambda>v k. k" and w = w and r = r] len assms(4,8) V(3)
    by (simp add: BuiltinsSet_ForEach_def receiver_def) (simp add: set_spec_def)
qed



end
