(* ===== verification/JS_Weak.thy ===== *)
theory JS_Weak
  imports JS_Map_Properties
begin

text \<open>
  WeakMap and WeakSet: ecmascript/js_weak_container.cpp, the class WeakLinkedHashMap of ecmascript/linked_hash_table.cpp,
  the built-ins of ecmascript/builtins/builtins_weak_map.cpp and builtins_weak_set.cpp, and what a collection of garbage
  does to their tables (ecmascript/mem/parallel_evacuator.cpp and full_gc.cpp). The marks of the collector are a
  parameter: the set of the objects that are dead.
\<close>

section \<open>Values that can be held weakly\<close>

text \<open>What the heap knows of an object; a symbol may be in the table of registered symbols.\<close>

datatype heap_kind = ECMAObjectKind | SymbolKind bool | OtherKind

definition CanBeHeldWeakly :: "(nat \<Rightarrow> heap_kind) \<Rightarrow> js_value \<Rightarrow> bool" where
  "CanBeHeldWeakly kinds tagged =
     (case tagged of
        JSRef a \<Rightarrow> (case kinds a of ECMAObjectKind \<Rightarrow> True | SymbolKind registered \<Rightarrow> \<not> registered | OtherKind \<Rightarrow> False)
      | _ \<Rightarrow> False)"

section \<open>The table of a WeakMap\<close>

definition WeakLinkedHashMap_Create :: "int \<Rightarrow> tagged_array" where
  "WeakLinkedHashMap_Create numberOfElements = Create LinkedHashMapObject numberOfElements"

definition WeakLinkedHashMap_GrowCapacity :: "table_ops \<Rightarrow> js_collection \<Rightarrow> int \<Rightarrow> js_collection" where
  "WeakLinkedHashMap_GrowCapacity ops st numberOfAddedElements = GrowCapacity ops LinkedHashMapObject st numberOfAddedElements"

definition WeakLinkedHashMap_Shrink :: "table_ops \<Rightarrow> js_collection \<Rightarrow> int \<Rightarrow> js_collection" where
  "WeakLinkedHashMap_Shrink ops st additionalCapacity = Shrink ops LinkedHashMapObject st additionalCapacity"

definition WeakLinkedHashMap_Delete :: "table_ops \<Rightarrow> js_collection \<Rightarrow> js_value \<Rightarrow> js_collection option" where
  "WeakLinkedHashMap_Delete ops st key =
     (let (ts, table) = st
      in case FindElement ops LinkedHashMapObject (ts ! table) key of
           None \<Rightarrow> None
         | Some entry \<Rightarrow>
             if entry = - 1 then Some st
             else Some (WeakLinkedHashMap_Shrink ops (ts[table := RemoveEntry LinkedHashMapObject (ts ! table) (nat entry)], table) 0))"

text \<open>Unlike \<open>InsertWeakRef\<close> it always sets the value.\<close>

definition WeakLinkedHashMap_SetWeakRef ::
  "table_ops \<Rightarrow> js_collection \<Rightarrow> js_value \<Rightarrow> js_value \<Rightarrow> js_collection option" where
  "WeakLinkedHashMap_SetWeakRef ops st key val =
     (let (ts, table) = st;
          hash = LinkedHash_Hash ops key
      in case FindElement ops LinkedHashMapObject (ts ! table) key of
           None \<Rightarrow> None
         | Some entry \<Rightarrow>
             if entry \<noteq> - 1 then Some (ts[table := SetValue LinkedHashMapObject (ts ! table) (nat entry) val], table)
             else let (ts, newTable) = WeakLinkedHashMap_GrowCapacity ops st 1;
                      weakKey = CreateAndGetWeakRef key
                  in Some (ts[newTable := append_entry ops LinkedHashMapObject hash weakKey (Some val) (ts ! newTable)], newTable))"

definition WeakLinkedHashMap_Get :: "table_ops \<Rightarrow> tagged_array \<Rightarrow> js_value \<Rightarrow> js_value option" where
  "WeakLinkedHashMap_Get ops t key = Get ops LinkedHashMapObject t key"

definition WeakLinkedHashMap_Has :: "table_ops \<Rightarrow> tagged_array \<Rightarrow> js_value \<Rightarrow> bool option" where
  "WeakLinkedHashMap_Has ops t key = Has ops LinkedHashMapObject t key"

definition WeakLinkedHashMap_Clear :: "js_collection \<Rightarrow> js_collection" where
  "WeakLinkedHashMap_Clear st = Clear LinkedHashMapObject st"

definition NumberOfAllUsedElements :: "tagged_array \<Rightarrow> int" where
  "NumberOfAllUsedElements t = NumberOfElements t + NumberOfDeletedElements t"

fun IsInt :: "js_value \<Rightarrow> bool" where
  "IsInt (JSInt i) \<longleftrightarrow> True"
| "IsInt _ \<longleftrightarrow> False"

fun IsHeapObject :: "js_value \<Rightarrow> bool" where
  "IsHeapObject (JSRef a) \<longleftrightarrow> True"
| "IsHeapObject (JSWeak a) \<longleftrightarrow> True"
| "IsHeapObject _ \<longleftrightarrow> False"

text \<open>\<open>VerifyLayout\<close> is the assertion of the collector before it visits a table.\<close>

function verify_slots :: "tagged_array \<Rightarrow> int \<Rightarrow> nat \<Rightarrow> nat \<Rightarrow> bool" where
  "verify_slots t allEntries i j =
     (if \<not> i < EntryToIndex LinkedHashMapObject t (nat allEntries) then True
      else if i < EntryToIndex LinkedHashMapObject t 0 then
        (if IsHeapObject (t ! i) then False else verify_slots t allEntries (i + 1) j)
      else if int j \<ge> allEntries then False
      else
        let index = EntryToIndex LinkedHashMapObject t j;
            idxs = [index, index + ENTRY_VALUE_INDEX LinkedHashMapObject, index + ENTRY_SIZE LinkedHashMapObject]
        in if length idxs \<noteq> ENTRY_SIZE LinkedHashMapObject + 1 then False
           else if [i, i + 1, i + 2] \<noteq> idxs then False
           else if IsHeapObject (t ! (index + ENTRY_SIZE LinkedHashMapObject)) then False
           else verify_slots t allEntries (i + 3) (j + 1))"
  by auto
termination
  by (relation "measure (\<lambda>(t, allEntries, i, j). EntryToIndex LinkedHashMapObject t (nat allEntries) - i)") auto

declare verify_slots.simps [simp del]

definition VerifyLayout :: "tagged_array \<Rightarrow> bool" where
  "VerifyLayout t \<longleftrightarrow>
     list_all (\<lambda>i. i = NEXT_TABLE_INDEX \<or> IsInt (t ! i)) [0..<ELEMENTS_START_INDEX] \<and>
     verify_slots t (NumberOfAllUsedElements t) ELEMENTS_START_INDEX 0"

section \<open>WeakMap\<close>

definition JSWeakMap_Set :: "table_ops \<Rightarrow> js_collection \<Rightarrow> js_value \<Rightarrow> js_value \<Rightarrow> (js_throw + js_collection) option" where
  "JSWeakMap_Set ops st key val =
     (if \<not> IsKey (CreateAndGetWeakRef key) then Some (Inl (TypeError ''the value must be Key of JSWeakMap''))
      else map_option Inr (WeakLinkedHashMap_SetWeakRef ops st key val))"

definition JSWeakMap_Delete :: "table_ops \<Rightarrow> js_collection \<Rightarrow> js_value \<Rightarrow> (bool \<times> js_collection) option" where
  "JSWeakMap_Delete ops st key =
     (let (ts, table) = st
      in case FindElement ops LinkedHashMapObject (ts ! table) key of
           None \<Rightarrow> None
         | Some entry \<Rightarrow>
             if entry = - 1 then Some (False, st)
             else Some (True,
               WeakLinkedHashMap_Shrink ops (ts[table := RemoveEntry LinkedHashMapObject (ts ! table) (nat entry)], table) 0))"

definition JSWeakMap_Has :: "table_ops \<Rightarrow> js_collection \<Rightarrow> js_value \<Rightarrow> bool option" where
  "JSWeakMap_Has ops st key = WeakLinkedHashMap_Has ops (current st) key"

definition JSWeakMap_Get :: "table_ops \<Rightarrow> js_collection \<Rightarrow> js_value \<Rightarrow> js_value option" where
  "JSWeakMap_Get ops st key = WeakLinkedHashMap_Get ops (current st) key"

definition JSWeakMap_GetSize :: "js_collection \<Rightarrow> int" where
  "JSWeakMap_GetSize st = NumberOfElements (current st)"

definition JSWeakMap_GetKey :: "js_collection \<Rightarrow> nat \<Rightarrow> js_value" where
  "JSWeakMap_GetKey st entry = GetKey LinkedHashMapObject (current st) entry"

definition JSWeakMap_GetValue :: "js_collection \<Rightarrow> nat \<Rightarrow> js_value" where
  "JSWeakMap_GetValue st entry = GetValue LinkedHashMapObject (current st) entry"

definition WeakMapConstructor :: "bool \<Rightarrow> table_store \<Rightarrow> js_throw + js_collection" where
  "WeakMapConstructor newTargetUndefined ts =
     (if newTargetUndefined then Inl (TypeError (''new target can'' @ [CHR 0x27] @ ''t be undefined''))
      else Inr (ts @ [WeakLinkedHashMap_Create MIN_CAPACITY], length ts))"

definition BuiltinsWeakMap_Delete ::
  "table_ops \<Rightarrow> (nat \<Rightarrow> heap_kind) \<Rightarrow> js_collection option \<Rightarrow> js_value \<Rightarrow> (js_throw + js_value \<times> js_collection) option" where
  "BuiltinsWeakMap_Delete ops kinds self key =
     (case receiver ''obj is not JSWeakMap.'' self of
        Inl e \<Rightarrow> Some (Inl e)
      | Inr st \<Rightarrow>
          if \<not> CanBeHeldWeakly kinds key then Some (Inr (tagged_bool False, st))
          else map_option (\<lambda>(flag, st). Inr (tagged_bool flag, st)) (JSWeakMap_Delete ops st key))"

definition BuiltinsWeakMap_Has ::
  "table_ops \<Rightarrow> (nat \<Rightarrow> heap_kind) \<Rightarrow> js_collection option \<Rightarrow> js_value \<Rightarrow> (js_throw + js_value) option" where
  "BuiltinsWeakMap_Has ops kinds self key =
     (case receiver ''obj is not JSWeakMap.'' self of
        Inl e \<Rightarrow> Some (Inl e)
      | Inr st \<Rightarrow>
          if \<not> CanBeHeldWeakly kinds key then Some (Inr (tagged_bool False))
          else map_option (\<lambda>flag. Inr (tagged_bool flag)) (JSWeakMap_Has ops st key))"

definition BuiltinsWeakMap_Get ::
  "table_ops \<Rightarrow> (nat \<Rightarrow> heap_kind) \<Rightarrow> js_collection option \<Rightarrow> js_value \<Rightarrow> (js_throw + js_value) option" where
  "BuiltinsWeakMap_Get ops kinds self key =
     (case receiver ''obj is not JSWeakMap.'' self of
        Inl e \<Rightarrow> Some (Inl e)
      | Inr st \<Rightarrow>
          if \<not> CanBeHeldWeakly kinds key then Some (Inr Undefined)
          else map_option Inr (JSWeakMap_Get ops st key))"

definition BuiltinsWeakMap_Set ::
  "table_ops \<Rightarrow> (nat \<Rightarrow> heap_kind) \<Rightarrow> js_collection option \<Rightarrow> js_value \<Rightarrow> js_value \<Rightarrow> (js_throw + js_collection) option" where
  "BuiltinsWeakMap_Set ops kinds self key val =
     (case receiver ''obj is not JSWeakMap.'' self of
        Inl e \<Rightarrow> Some (Inl e)
      | Inr st \<Rightarrow>
          if \<not> CanBeHeldWeakly kinds key then Some (Inl (TypeError ''invalid value used as weak map key.''))
          else JSWeakMap_Set ops st key val)"

section \<open>WeakSet\<close>

definition JSWeakSet_Add :: "table_ops \<Rightarrow> js_collection \<Rightarrow> js_value \<Rightarrow> (js_throw + js_collection) option" where
  "JSWeakSet_Add ops st val =
     (if \<not> IsKey val then Some (Inl (TypeError ''the value must be Key of JSWeakSet''))
      else map_option Inr (InsertWeakRef ops LinkedHashSetObject False st val val))"

definition JSWeakSet_Delete :: "table_ops \<Rightarrow> js_collection \<Rightarrow> js_value \<Rightarrow> (bool \<times> js_collection) option" where
  "JSWeakSet_Delete ops st val =
     (let (ts, table) = st
      in case FindElement ops LinkedHashSetObject (ts ! table) val of
           None \<Rightarrow> None
         | Some entry \<Rightarrow>
             if entry = - 1 then Some (False, st)
             else Some (True, Shrink ops LinkedHashSetObject (ts[table := RemoveEntry LinkedHashSetObject (ts ! table) (nat entry)], table) 0))"

definition JSWeakSet_Has :: "table_ops \<Rightarrow> js_collection \<Rightarrow> js_value \<Rightarrow> bool option" where
  "JSWeakSet_Has ops st val = Has ops LinkedHashSetObject (current st) val"

definition JSWeakSet_GetSize :: "js_collection \<Rightarrow> int" where
  "JSWeakSet_GetSize st = NumberOfElements (current st)"

definition JSWeakSet_GetValue :: "js_collection \<Rightarrow> nat \<Rightarrow> js_value" where
  "JSWeakSet_GetValue st entry = GetValue LinkedHashSetObject (current st) entry"

definition WeakSetConstructor :: "bool \<Rightarrow> table_store \<Rightarrow> js_throw + js_collection" where
  "WeakSetConstructor newTargetUndefined ts =
     (if newTargetUndefined then Inl (TypeError (''new target can'' @ [CHR 0x27] @ ''t be undefined''))
      else Inr (ts @ [Create LinkedHashSetObject MIN_CAPACITY], length ts))"

definition BuiltinsWeakSet_Add ::
  "table_ops \<Rightarrow> (nat \<Rightarrow> heap_kind) \<Rightarrow> js_collection option \<Rightarrow> js_value \<Rightarrow> (js_throw + js_collection) option" where
  "BuiltinsWeakSet_Add ops kinds self val =
     (case receiver ''obj is not JSWeakSet'' self of
        Inl e \<Rightarrow> Some (Inl e)
      | Inr st \<Rightarrow>
          if \<not> CanBeHeldWeakly kinds val then Some (Inl (TypeError ''invalid value used in weak set''))
          else JSWeakSet_Add ops st val)"

text \<open>
  \<open>Delete\<close> and \<open>Has\<close> compute the result false for a value that cannot be held weakly, drop it, and go on.
\<close>

definition BuiltinsWeakSet_Delete ::
  "table_ops \<Rightarrow> js_collection option \<Rightarrow> js_value \<Rightarrow> (js_throw + js_value \<times> js_collection) option" where
  "BuiltinsWeakSet_Delete ops self val =
     (case receiver ''obj is not JSWeakSet'' self of
        Inl e \<Rightarrow> Some (Inl e)
      | Inr st \<Rightarrow> map_option (\<lambda>(flag, st). Inr (tagged_bool flag, st)) (JSWeakSet_Delete ops st val))"

definition BuiltinsWeakSet_Has :: "table_ops \<Rightarrow> js_collection option \<Rightarrow> js_value \<Rightarrow> (js_throw + js_value) option" where
  "BuiltinsWeakSet_Has ops self val =
     (case receiver ''obj is not JSWeakSet'' self of
        Inl e \<Rightarrow> Some (Inl e)
      | Inr st \<Rightarrow> map_option (\<lambda>flag. Inr (tagged_bool flag)) (JSWeakSet_Has ops st val))"

section \<open>Collection of garbage\<close>

text \<open>
  The collector removes the entries of a WeakMap whose key is dead. Of any other object, the table of a WeakSet included,
  it overwrites the weak references to dead objects by undefined.
\<close>

fun dead_key :: "(nat \<Rightarrow> bool) \<Rightarrow> js_value \<Rightarrow> bool" where
  "dead_key dead Undefined \<longleftrightarrow> True"
| "dead_key dead (JSWeak a) \<longleftrightarrow> dead a"
| "dead_key dead _ \<longleftrightarrow> False"

definition UpdateRecordWeakLinkedHashMap :: "(nat \<Rightarrow> bool) \<Rightarrow> tagged_array \<Rightarrow> tagged_array" where
  "UpdateRecordWeakLinkedHashMap dead t =
     for_up 0 (nat (NumberOfAllUsedElements t))
       (\<lambda>i t.
          let maybeKey = GetKey LinkedHashMapObject t i
          in if maybeKey = Hole then t
             else if dead_key dead maybeKey then RemoveEntryFromGCThread LinkedHashMapObject t i
             else t) t"

definition update_weak_slot :: "(nat \<Rightarrow> bool) \<Rightarrow> js_value \<Rightarrow> js_value" where
  "update_weak_slot dead v = (case v of JSWeak a \<Rightarrow> if dead a then Undefined else v | _ \<Rightarrow> v)"

definition UpdateRecordWeakReference :: "(nat \<Rightarrow> bool) \<Rightarrow> tagged_array \<Rightarrow> tagged_array" where
  "UpdateRecordWeakReference dead t = map (update_weak_slot dead) t"

end
