(* ===== verification/JS_Weak_Theorems.thy ===== *)
theory JS_Weak_Theorems
  imports JS_Weak
begin

text \<open>
  What WeakMap and WeakSet do: a WeakMap is a partial function on objects that a collection of garbage restricts to the
  objects that are alive; a WeakSet does not keep that promise.
\<close>

section \<open>The layout that the collector relies on\<close>

lemma link_not_heap: "link_ok m v \<Longrightarrow> \<not> IsHeapObject v"
  by (auto simp: link_ok_def)

lemma verify_entries:
  assumes lay: "layout LinkedHashMapObject t c" and links: "\<And>e. e < n \<Longrightarrow> \<not> IsHeapObject (GetNextEntry LinkedHashMapObject t e)"
    and j: "j \<le> n"
  shows "verify_slots t (int n) (EntryToIndex LinkedHashMapObject t j) j"
  using j
proof (induction "n - j" arbitrary: j)
  case 0
  then show ?case by (subst verify_slots.simps) simp
next
  case (Suc x)
  have idx: "EntryToIndex LinkedHashMapObject t j = 4 + c + j * 3" for j
    unfolding layout_slots(2) [OF lay] by (simp add: slot_def LinkedHashMapObject_def)
  have "\<not> IsHeapObject (t ! (4 + c + j * 3 + 2))"
    using links [of j] Suc.hyps(2) by (simp add: GetNextEntry_def idx) (simp add: LinkedHashMapObject_def)
  moreover have "verify_slots t (int n) (EntryToIndex LinkedHashMapObject t (Suc j)) (Suc j)"
    using Suc.hyps(1) [of "Suc j"] Suc.hyps(2) by simp
  ultimately show ?case using Suc.hyps(2)
    by (subst verify_slots.simps) (simp add: idx Let_def, simp add: LinkedHashMapObject_def algebra_simps)
qed

lemma verify_buckets:
  assumes lay: "layout LinkedHashMapObject t c" and buckets: "\<And>b. b < c \<Longrightarrow> \<not> IsHeapObject (t ! (b + 4))"
    and rest: "verify_slots t (int n) (4 + c) 0" and b: "b \<le> c"
  shows "verify_slots t (int n) (4 + b) 0"
  using b
proof (induction "c - b" arbitrary: b)
  case 0
  then show ?case using rest by simp
next
  case (Suc x)
  have idx: "EntryToIndex LinkedHashMapObject t j = 4 + c + j * 3" for j
    unfolding layout_slots(2) [OF lay] by (simp add: slot_def LinkedHashMapObject_def)
  have "verify_slots t (int n) (4 + Suc b) 0" using Suc.hyps(1) [of "Suc b"] Suc.hyps(2) by simp
  moreover have "b < c" using Suc.hyps(2) by simp
  ultimately show ?case using buckets [of b] by (subst verify_slots.simps) (simp add: idx add.commute)
qed

definition counters :: "tagged_array \<Rightarrow> bool" where
  "counters t \<longleftrightarrow> IsInt (t ! 0) \<and> IsInt (t ! 1)"

lemma VerifyLayout_ok:
  assumes wf: "wf_table ops LinkedHashMapObject t" and int: "counters t"
  shows "VerifyLayout t"
proof -
  obtain c where inv: "table_inv ops LinkedHashMapObject t c (used t)" using wf by (auto simp: wf_table_def)
  note I = table_invD [OF inv]
  have idx: "EntryToIndex LinkedHashMapObject t 0 = 4 + c" by (simp add: layout_slots [OF I(1)] slot_def)
  have "verify_slots t (int (used t)) (4 + c) 0"
    using verify_entries [OF I(1), of "used t" 0] link_not_heap [OF I(4)] by (simp add: idx)
  then have "verify_slots t (int (used t)) 4 0"
    using verify_buckets [OF I(1), of "used t" 0] link_not_heap [OF I(3)] by simp
  moreover have "t ! 2 = JSInt (int c)" using I(1) by (simp add: layout_def)
  ultimately show ?thesis using int used_int [OF wf]
    by (simp add: VerifyLayout_def NumberOfAllUsedElements_def index_consts counters_def upt_conv_Cons eval_nat_numeral)
qed

lemma counters_update [simp]: "4 \<le> i \<Longrightarrow> counters (t[i := v]) = counters t"
  by (simp add: counters_def)

lemma entry_index: "4 \<le> EntryToIndex h t e"
  by (simp add: EntryToIndex_def index_consts)

lemma counters_SetValue [simp]: "counters (SetValue h t e v) = counters t"
  using entry_index [of h t e] by (simp add: SetValue_def)

lemma counters_SetKey [simp]: "counters (SetKey h t e v) = counters t"
  using entry_index [of h t e] by (simp add: SetKey_def)

lemma counters_InsertNewEntry [simp]: "counters (InsertNewEntry h t b e) = counters t"
  using entry_index [of h t e] by (simp add: InsertNewEntry_def Let_def SetNextEntry_def BucketToIndex_def index_consts)

lemma counters_SetNumberOfElements: "t \<noteq> [] \<Longrightarrow> IsInt (t ! 1) \<Longrightarrow> counters (SetNumberOfElements t m)"
  by (simp add: counters_def SetNumberOfElements_def index_consts)

lemma counters_set: "1 < length t \<Longrightarrow> counters (SetNumberOfDeletedElements (SetNumberOfElements t m) n)"
  by (cases t) (simp_all add: counters_def SetNumberOfDeletedElements_def SetNumberOfElements_def index_consts)

lemma counters_RemoveEntry:
  assumes "1 < length t"
  shows "counters (RemoveEntry h t e)"
proof -
  have "length (for_up 0 hi (\<lambda>i a. a[x + i := Hole]) t) = length t" for hi x
    by (rule for_up_inv [where I = "\<lambda>i a. length a = length t"]) simp_all
  then show ?thesis using assms unfolding RemoveEntry_def Let_def by (intro counters_set) simp
qed

lemma counters_append_entry:
  assumes "counters t" "t \<noteq> []"
  shows "counters (append_entry ops h hash key val t)"
proof -
  let ?e = "nat (NumberOfElements t + NumberOfDeletedElements t)"
  let ?u = "SetKey h (InsertNewEntry h t (HashToBucket t hash) ?e) ?e key"
  let ?w = "case val of None \<Rightarrow> ?u | Some v \<Rightarrow> SetValue h ?u ?e v"
  have "counters ?w" using assms(1) by (simp split: option.split)
  moreover have "length ?w = length t"
    by (simp add: SetValue_def SetKey_def InsertNewEntry_def SetNextEntry_def Let_def split: option.split)
  ultimately show ?thesis using assms(2) unfolding append_entry_def Let_def
    by (intro counters_SetNumberOfElements) (auto simp: counters_def)
qed

lemma counters_Create: "0 < c \<Longrightarrow> counters (Create h (int c))"
  by (simp add: Create_def Let_def counters_def SetCapacity_def SetNumberOfDeletedElements_def SetNumberOfElements_def NewTaggedArray_def index_consts)

lemma length_rehash_step:
  "rehash_step ops h i (t, n, d, x) = (t', n', d', x') \<Longrightarrow> length n' = length n"
proof -
  have "length (for_up 0 hi (\<lambda>j a. a[y + j := f j]) n) = length n" for hi y f and n :: tagged_array
    by (rule for_up_inv [where I = "\<lambda>i a. length a = length n"]) simp_all
  then show "rehash_step ops h i (t, n, d, x) = (t', n', d', x') \<Longrightarrow> length n' = length n"
    by (auto simp: rehash_step_def Let_def InsertNewEntry_def SetNextEntry_def split: if_splits)
qed

lemma counters_Rehash:
  assumes "Rehash ops h t a n = (t', n')" "1 < length n"
  shows "counters n'"
proof -
  define s where "s = for_up 0 (nat (NumberOfElements t + NumberOfDeletedElements t)) (rehash_step ops h) (SetNextTable t (JSRef a), n, 0, 0)"
  have "length (fst (snd s)) = length n" unfolding s_def
  proof (rule for_up_inv [where I = "\<lambda>i s. length (fst (snd s)) = length n"])
    show "length (fst (snd (rehash_step ops h i s))) = length n" if "length (fst (snd s)) = length n" for i s
      using that length_rehash_step by (metis prod.collapse)
  qed simp_all
  moreover have "n' = SetNumberOfDeletedElements (SetNumberOfElements (fst (snd s)) (NumberOfElements (fst s))) 0"
    using assms(1) by (auto simp: Rehash_def Let_def s_def case_prod_beta)
  ultimately show ?thesis using assms(2) counters_set by simp
qed

lemma counters_rehash_to:
  assumes "0 < c"
  shows "counters (current (rehash_to ops h st (int c)))"
proof -
  obtain ts a where s: "st = (ts, a)" by (cases st)
  obtain t n where R: "Rehash ops h (ts ! a) (length ts) (Create h (int c)) = (t, n)" by fastforce
  have "length (Create h (int c)) > 1"
    by (simp add: Create_def Let_def SetCapacity_def SetNumberOfDeletedElements_def SetNumberOfElements_def NewTaggedArray_def index_consts)
  then show ?thesis using counters_Rehash [OF R] R by (simp add: rehash_to_def s nth_append)
qed

section \<open>Effects on the table of a WeakMap\<close>

lemma wf_nonempty: "wf_table ops h t \<Longrightarrow> 1 < length t"
  using layout_len table_invD(1) by (fastforce simp: wf_table_def)

text \<open>\<open>SetWeakRef\<close> has the effect of \<open>InsertWeakRef\<close> on a \<open>LinkedHashMap\<close>.\<close>

lemma SetWeakRef_eq: "WeakLinkedHashMap_SetWeakRef ops st key val = InsertWeakRef ops LinkedHashMapObject True st key val"
  unfolding WeakLinkedHashMap_SetWeakRef_def InsertWeakRef_def WeakLinkedHashMap_GrowCapacity_def Let_def by simp

lemma counters_rehash_cap: "counters (current (rehash_to ops h st (ComputeCapacity ops x)))"
proof -
  have "0 < ComputeCapacity ops x" by (simp add: ComputeCapacity_def Let_def MIN_CAPACITY_def)
  then show ?thesis using counters_rehash_to [of "nat (ComputeCapacity ops x)" ops h st] by simp
qed

lemma counters_GrowCapacity: "counters (current st) \<Longrightarrow> counters (current (GrowCapacity ops h st 1))"
  by (cases st) (simp add: GrowCapacity_def counters_rehash_cap)

lemma counters_Shrink: "counters (current st) \<Longrightarrow> counters (current (Shrink ops h st 0))"
  by (cases st) (simp add: Shrink_def Let_def ComputeCapacityWithShrink_def counters_rehash_cap)

lemma weak_set:
  assumes ok: "ops_ok ops" and st: "store_ok ops LinkedHashMapObject st" and c: "counters (current st)"
    and lim: "length (live (content LinkedHashMapObject st)) < 2 ^ 29"
  shows "\<exists>st'. WeakLinkedHashMap_SetWeakRef ops st (JSRef n) v = Some st' \<and> store_ok ops LinkedHashMapObject st' \<and> counters (current st') \<and>
    live (content LinkedHashMapObject st') =
      (if has_key ops (JSRef n) (live (content LinkedHashMapObject st))
       then map (upd ops LinkedHashMapObject (JSRef n) v) (live (content LinkedHashMapObject st))
       else live (content LinkedHashMapObject st) @ [(JSWeak n, v)])"
proof -
  let ?h = LinkedHashMapObject
  obtain ts a where s: "st = (ts, a)" by (cases st)
  have ne: "?h \<noteq> LinkedHashSetObject" by (simp add: LinkedHashMapObject_def LinkedHashSetObject_def)
  obtain st' where st': "InsertWeakRef ops ?h True st (JSRef n) v = Some st'" "acts ops ?h st st' (insert_view ops ?h (JSRef n) v (JSWeak n, v))"
    using InsertWeakRef_acts [OF ok objects_ok(1) st lim, of v n v] ne by auto
  obtain ts' a' where g: "GrowCapacity ops ?h st 1 = (ts', a')" by (cases "GrowCapacity ops ?h st 1")
  have "store_ok ops ?h (ts', a')" using GrowCapacity_acts(1) [OF ok objects_ok(1) st lim] g by (simp add: acts_def)
  then have g': "a' < length ts'" "ts' ! a' \<noteq> []" using wf_nonempty by (fastforce simp: store_ok_def)+
  have "counters (ts' ! a')" using counters_GrowCapacity [OF c, of ops ?h] g by simp
  moreover have "a < length ts" using st by (simp add: s store_ok_def)
  ultimately have "counters (current st')" using st'(1) c g g' counters_append_entry
    by (auto simp: InsertWeakRef_def s Let_def split: option.splits if_splits)
  then show ?thesis using st' acts_live [OF st st'(2)] by (auto simp: SetWeakRef_eq acts_def)
qed

lemma weak_delete:
  assumes ok: "ops_ok ops" and st: "store_ok ops LinkedHashMapObject st" and c: "counters (current st)" and k: "IsKey k"
  shows "\<exists>st'. JSWeakMap_Delete ops st k = Some (has_key ops k (live (content LinkedHashMapObject st)), st') \<and>
    store_ok ops LinkedHashMapObject st' \<and> counters (current st') \<and>
    live (content LinkedHashMapObject st') = filter (\<lambda>r. \<not> matches ops k (fst r)) (live (content LinkedHashMapObject st))"
proof -
  let ?h = LinkedHashMapObject
  obtain ts a where s: "st = (ts, a)" by (cases st)
  have a: "a < length ts" "1 < length (ts ! a)" using st wf_nonempty by (auto simp: s store_ok_def)
  show ?thesis
  proof (cases rule: delete_acts [OF ok objects_ok(1) st [unfolded s] k])
    case 1
    then show ?thesis using st c acts_live [OF st [unfolded s] 1(3)] by (simp add: JSWeakMap_Delete_def s)
  next
    case found: (2 e)
    let ?st = "(ts[a := RemoveEntry ?h (ts ! a) e], a)"
    have st1: "store_ok ops ?h ?st" using found(3) by (simp add: acts_def)
    note S = Shrink_acts [OF ok objects_ok(1) st1]
    have "counters (current (Shrink ops ?h ?st 0))" using counters_RemoveEntry [OF a(2)] a(1) by (intro counters_Shrink) simp
    moreover have "store_ok ops ?h (Shrink ops ?h ?st 0)" using S by (simp add: acts_def)
    ultimately show ?thesis using found(1,2) acts_live [OF st [unfolded s] acts_trans [OF found(3) S]]
      by (simp add: JSWeakMap_Delete_def s WeakLinkedHashMap_Shrink_def)
  qed
qed

lemma collect_step:
  assumes ok: "ops_ok ops" and i: "i < length E"
    and I: "wf_table ops LinkedHashMapObject t \<and> counters t \<and> entries LinkedHashMapObject t = map (kill P) (take i E) @ drop i E"
    and P: "P = (\<lambda>r. dead_key dead (fst r))"
  defines "t' \<equiv> (let maybeKey = GetKey LinkedHashMapObject t i
      in if maybeKey = Hole then t else if dead_key dead maybeKey then RemoveEntryFromGCThread LinkedHashMapObject t i else t)"
  shows "wf_table ops LinkedHashMapObject t' \<and> counters t' \<and> entries LinkedHashMapObject t' = map (kill P) (take (Suc i) E) @ drop (Suc i) E"
proof -
  let ?h = LinkedHashMapObject
  have wf: "wf_table ops ?h t" and E: "entries ?h t = map (kill P) (take i E) @ drop i E" using I by auto
  have u: "used t = length E" using arg_cong [OF E, of length] i by simp
  have row: "row ?h t i = E ! i" using entries_nth [of i t ?h] i u by (simp add: E nth_append)
  have nxt: "(map (kill P) (take i E) @ drop i E)[i := kill P (E ! i)] = map (kill P) (take (Suc i) E) @ drop (Suc i) E"
    using i by (simp add: list_update_append take_Suc_conv_app_nth Cons_nth_drop_Suc [symmetric])
  show ?thesis
  proof (cases "GetKey ?h t i \<noteq> Hole \<and> dead_key dead (GetKey ?h t i)")
    case True
    then have t': "t' = RemoveEntry ?h t i" by (simp add: t'_def RemoveEntryFromGCThread_eq)
    have "kill P (E ! i) = None" using True by (simp add: row [symmetric] row_def kill_def P)
    then show ?thesis unfolding t' using wf_RemoveEntry [OF ok objects_ok(1) wf, of i] True i u E nxt
      counters_RemoveEntry [OF wf_nonempty [OF wf]] by simp
  next
    case False
    then have t': "t' = t" by (auto simp: t'_def Let_def)
    have "kill P (E ! i) = E ! i" using row False by (auto simp: row_def kill_def P split: if_splits option.splits)
    then have "(map (kill P) (take i E) @ drop i E)[i := kill P (E ! i)] = map (kill P) (take i E) @ drop i E"
      using i by (simp add: list_update_append Cons_nth_drop_Suc [symmetric])
    then show ?thesis unfolding t' using I nxt by metis
  qed
qed

lemma collect_weak_map:
  fixes dead :: "nat \<Rightarrow> bool"
  assumes ok: "ops_ok ops" and st: "store_ok ops LinkedHashMapObject (ts, a)" and c: "counters (ts ! a)"
  defines "t \<equiv> UpdateRecordWeakLinkedHashMap dead (ts ! a)"
  shows "store_ok ops LinkedHashMapObject (ts[a := t], a)" "counters t"
    "live (entries LinkedHashMapObject t) = filter (\<lambda>r. \<not> dead_key dead (fst r)) (live (entries LinkedHashMapObject (ts ! a)))"
proof -
  let ?h = LinkedHashMapObject and ?P = "\<lambda>r :: js_value \<times> js_value. dead_key dead (fst r)"
  define E where "E = entries ?h (ts ! a)"
  have wf: "wf_table ops ?h (ts ! a)" using st by (simp add: store_ok_def)
  have n: "nat (NumberOfAllUsedElements (ts ! a)) = length E" using used_int [OF wf] by (simp add: NumberOfAllUsedElements_def E_def)
  have "wf_table ops ?h t \<and> counters t \<and> entries ?h t = map (kill ?P) (take (length E) E) @ drop (length E) E"
    unfolding t_def UpdateRecordWeakLinkedHashMap_def n
  proof (rule for_up_inv [where I = "\<lambda>i t. wf_table ops ?h t \<and> counters t \<and> entries ?h t = map (kill ?P) (take i E) @ drop i E"])
    show "wf_table ops ?h (ts ! a) \<and> counters (ts ! a) \<and> entries ?h (ts ! a) = map (kill ?P) (take 0 E) @ drop 0 E"
      using wf c by (simp add: E_def)
  qed (simp, rule collect_step [OF ok _ _ refl])
  then show "store_ok ops ?h (ts[a := t], a)" "counters t"
    "live (entries ?h t) = filter (\<lambda>r. \<not> dead_key dead (fst r)) (live (entries ?h (ts ! a)))"
    using cursor_in_place(1) [OF st] by (simp_all add: live_kill E_def)
qed

section \<open>WeakMap as a partial function\<close>

text \<open>
  Equal objects are identical, and an object differs from the special values: SameValueZero on what can be held weakly.
\<close>

definition identity_ok :: "table_ops \<Rightarrow> (nat \<Rightarrow> heap_kind) \<Rightarrow> bool" where
  "identity_ok ops kinds \<longleftrightarrow> (\<forall>a b. CanBeHeldWeakly kinds (JSRef a) \<longrightarrow> SameValueZero ops (JSRef a) (JSRef b) \<longrightarrow> a = b)"

definition weak_keys :: "(js_value \<times> js_value) list \<Rightarrow> bool" where
  "weak_keys L \<longleftrightarrow> (\<forall>r \<in> set L. \<exists>n. fst r = JSWeak n)"

definition weak_fun :: "(js_value \<times> js_value) list \<Rightarrow> nat \<Rightarrow> js_value option" where
  "weak_fun L n = map_option snd (find (\<lambda>r. fst r = JSWeak n) L)"

lemma weak_match:
  assumes "ops_ok ops" "identity_ok ops kinds" "CanBeHeldWeakly kinds (JSRef n)" "weak_keys L" "r \<in> set L"
  shows "matches ops (JSRef n) (fst r) \<longleftrightarrow> fst r = JSWeak n"
proof -
  obtain a where "fst r = JSWeak a" using assms(4,5) by (auto simp: weak_keys_def)
  then show ?thesis using assms(2,3) ops_okD(1) [OF assms(1)] by (auto simp: matches_def identity_ok_def)
qed

lemma weak_lookup:
  assumes "ops_ok ops" "identity_ok ops kinds" "CanBeHeldWeakly kinds (JSRef n)" "weak_keys L"
  shows "has_key ops (JSRef n) L \<longleftrightarrow> weak_fun L n \<noteq> None"
    "lookup_key ops (JSRef n) L = (case weak_fun L n of None \<Rightarrow> Undefined | Some v \<Rightarrow> v)"
proof -
  note m = weak_match [OF assms]
  have "find (\<lambda>r. matches ops (JSRef n) (fst r)) L = find (\<lambda>r. fst r = JSWeak n) L" by (rule find_cong [OF refl]) (rule m)
  then show "lookup_key ops (JSRef n) L = (case weak_fun L n of None \<Rightarrow> Undefined | Some v \<Rightarrow> v)"
    by (simp add: lookup_key_def weak_fun_def split: option.split)
  show "has_key ops (JSRef n) L \<longleftrightarrow> weak_fun L n \<noteq> None"
    unfolding has_key_def weak_fun_def list_ex_iff using m by (auto simp: find_None_iff simp del: split_paired_All split_paired_Ex)
qed

lemma weak_fun_filter:
  assumes "\<And>r. r \<in> set L \<Longrightarrow> fst r = JSWeak n \<Longrightarrow> P r = Q"
  shows "weak_fun (filter P L) n = (if Q then weak_fun L n else None)"
  using assms by (induction L) (auto simp: weak_fun_def)

lemma weak_fun_upd:
  assumes "\<And>r. r \<in> set L \<Longrightarrow> matches ops (JSRef n) (fst r) \<longleftrightarrow> fst r = JSWeak n"
  shows "weak_fun (map (upd ops LinkedHashMapObject (JSRef n) v) L) m = (if m = n then map_option (\<lambda>x. v) (weak_fun L n) else weak_fun L m)"
  using assms by (induction L) (auto simp: weak_fun_def upd_def LinkedHashMapObject_def LinkedHashSetObject_def)

lemma weak_fun_append: "weak_fun (L @ [(JSWeak n, v)]) m = (if weak_fun L m = None \<and> m = n then Some v else weak_fun L m)"
  by (induction L) (auto simp: weak_fun_def)

definition weak_rel :: "table_ops \<Rightarrow> js_collection \<Rightarrow> (nat \<Rightarrow> js_value option) \<Rightarrow> bool" where
  "weak_rel ops st m \<longleftrightarrow> store_ok ops LinkedHashMapObject st \<and> counters (current st) \<and>
     weak_keys (live (content LinkedHashMapObject st)) \<and> weak_fun (live (content LinkedHashMapObject st)) = m"

text \<open>
  A program calls the functions of a WeakMap, and the collector runs between the calls.
\<close>

datatype weak_event = WSet js_value js_value | WDelete js_value | WHas js_value | WGet js_value | WCollect "nat \<Rightarrow> bool"

fun weak_step :: "table_ops \<Rightarrow> (nat \<Rightarrow> heap_kind) \<Rightarrow> weak_event \<Rightarrow> js_collection \<Rightarrow> (coll_reply \<times> js_collection) option" where
  "weak_step ops kinds (WSet k v) st =
     map_option (\<lambda>r. case r of Inl x \<Rightarrow> (RThrow x, st) | Inr st' \<Rightarrow> (ROk, st')) (BuiltinsWeakMap_Set ops kinds (Some st) k v)"
| "weak_step ops kinds (WDelete k) st =
     map_option (\<lambda>r. case r of Inl x \<Rightarrow> (RThrow x, st) | Inr (b, st') \<Rightarrow> (RValue b, st')) (BuiltinsWeakMap_Delete ops kinds (Some st) k)"
| "weak_step ops kinds (WHas k) st =
     map_option (\<lambda>r. case r of Inl x \<Rightarrow> (RThrow x, st) | Inr v \<Rightarrow> (RValue v, st)) (BuiltinsWeakMap_Has ops kinds (Some st) k)"
| "weak_step ops kinds (WGet k) st =
     map_option (\<lambda>r. case r of Inl x \<Rightarrow> (RThrow x, st) | Inr v \<Rightarrow> (RValue v, st)) (BuiltinsWeakMap_Get ops kinds (Some st) k)"
| "weak_step ops kinds (WCollect dead) st =
     Some (ROk, (fst st)[snd st := UpdateRecordWeakLinkedHashMap dead (current st)], snd st)"

fun weak_run :: "table_ops \<Rightarrow> (nat \<Rightarrow> heap_kind) \<Rightarrow> weak_event list \<Rightarrow> js_collection \<Rightarrow> (coll_reply list \<times> js_collection) option" where
  "weak_run ops kinds [] st = Some ([], st)"
| "weak_run ops kinds (e # es) st =
     (case weak_step ops kinds e st of
        None \<Rightarrow> None
      | Some (r, st') \<Rightarrow> map_option (\<lambda>(rs, st''). (r # rs, st'')) (weak_run ops kinds es st'))"

fun weak_spec :: "(nat \<Rightarrow> heap_kind) \<Rightarrow> weak_event \<Rightarrow> (nat \<Rightarrow> js_value option) \<Rightarrow> coll_reply \<times> (nat \<Rightarrow> js_value option)" where
  "weak_spec kinds (WSet k v) m =
     (if CanBeHeldWeakly kinds k then (ROk, m(GetTaggedObject k \<mapsto> v)) else (RThrow (TypeError ''invalid value used as weak map key.''), m))"
| "weak_spec kinds (WDelete k) m =
     (if CanBeHeldWeakly kinds k then (RValue (tagged_bool (m (GetTaggedObject k) \<noteq> None)), m(GetTaggedObject k := None))
      else (RValue (tagged_bool False), m))"
| "weak_spec kinds (WHas k) m = (RValue (tagged_bool (CanBeHeldWeakly kinds k \<and> m (GetTaggedObject k) \<noteq> None)), m)"
| "weak_spec kinds (WGet k) m =
     (RValue (if CanBeHeldWeakly kinds k then (case m (GetTaggedObject k) of None \<Rightarrow> Undefined | Some v \<Rightarrow> v) else Undefined), m)"
| "weak_spec kinds (WCollect dead) m = (ROk, \<lambda>n. if dead n then None else m n)"

fun weak_spec_run ::
  "(nat \<Rightarrow> heap_kind) \<Rightarrow> weak_event list \<Rightarrow> (nat \<Rightarrow> js_value option) \<Rightarrow> coll_reply list \<times> (nat \<Rightarrow> js_value option)" where
  "weak_spec_run kinds [] m = ([], m)"
| "weak_spec_run kinds (e # es) m =
     (let (r, m') = weak_spec kinds e m; (rs, m'') = weak_spec_run kinds es m' in (r # rs, m''))"

lemma held_ref: "CanBeHeldWeakly kinds k \<Longrightarrow> \<exists>n. k = JSRef n"
  by (auto simp: CanBeHeldWeakly_def split: js_value.splits)

text \<open>Keys that can be held weakly are references.\<close>

lemma weak_set_sim:
  assumes ok: "ops_ok ops" and idn: "identity_ok ops kinds" and R: "weak_rel ops st m"
    and lim: "length (live (content LinkedHashMapObject st)) < 2 ^ 29" and held: "CanBeHeldWeakly kinds (JSRef n)"
  shows "\<exists>st'. WeakLinkedHashMap_SetWeakRef ops st (JSRef n) v = Some st' \<and> weak_rel ops st' (m(n \<mapsto> v)) \<and>
    length (live (content LinkedHashMapObject st')) \<le> Suc (length (live (content LinkedHashMapObject st)))"
proof -
  let ?h = LinkedHashMapObject and ?L = "live (content LinkedHashMapObject st)"
  have st: "store_ok ops ?h st" and c: "counters (current st)" and W: "weak_keys ?L" and m: "m = weak_fun ?L"
    using R by (auto simp: weak_rel_def)
  obtain st' where st': "WeakLinkedHashMap_SetWeakRef ops st (JSRef n) v = Some st'" "store_ok ops ?h st'" "counters (current st')"
    "live (content ?h st') = (if has_key ops (JSRef n) ?L then map (upd ops ?h (JSRef n) v) ?L else ?L @ [(JSWeak n, v)])"
    using weak_set [OF ok st c lim, of n v] by blast
  have "weak_keys (live (content ?h st'))" unfolding st'(4) using W
    by (auto simp: weak_keys_def upd_def LinkedHashMapObject_def LinkedHashSetObject_def)
  moreover have "weak_fun (live (content ?h st')) x = (m(n \<mapsto> v)) x" for x unfolding st'(4)
    using weak_lookup(1) [OF ok idn held W] weak_fun_upd [OF weak_match [OF ok idn held W], where v = v and m = x] weak_fun_append [of ?L n v x]
    by (simp add: m) auto
  moreover have "length (live (content ?h st')) \<le> Suc (length ?L)" unfolding st'(4) by simp
  ultimately show ?thesis using st' by (auto simp: weak_rel_def)
qed

lemma weak_delete_sim:
  assumes ok: "ops_ok ops" and idn: "identity_ok ops kinds" and R: "weak_rel ops st m" and held: "CanBeHeldWeakly kinds (JSRef n)"
  shows "\<exists>st'. JSWeakMap_Delete ops st (JSRef n) = Some (m n \<noteq> None, st') \<and> weak_rel ops st' (m(n := None)) \<and>
    length (live (content LinkedHashMapObject st')) \<le> Suc (length (live (content LinkedHashMapObject st)))"
proof -
  let ?h = LinkedHashMapObject and ?L = "live (content LinkedHashMapObject st)"
  have st: "store_ok ops ?h st" and c: "counters (current st)" and W: "weak_keys ?L" and m: "m = weak_fun ?L"
    using R by (auto simp: weak_rel_def)
  have "IsKey (JSRef n)" by (simp add: IsKey_def)
  then obtain st' where st': "JSWeakMap_Delete ops st (JSRef n) = Some (has_key ops (JSRef n) ?L, st')" "store_ok ops ?h st'"
    "counters (current st')" "live (content ?h st') = filter (\<lambda>r. \<not> matches ops (JSRef n) (fst r)) ?L"
    using weak_delete [OF ok st c] by blast
  have "weak_keys (live (content ?h st'))" unfolding st'(4) using W by (auto simp: weak_keys_def)
  moreover have "weak_fun (live (content ?h st')) x = (m(n := None)) x" for x unfolding st'(4)
    using weak_fun_filter [of ?L x "\<lambda>r. \<not> matches ops (JSRef n) (fst r)" "x \<noteq> n"] weak_match [OF ok idn held W] by (auto simp: m)
  moreover have "length (live (content ?h st')) \<le> Suc (length ?L)" unfolding st'(4) by (simp add: le_SucI)
  ultimately show ?thesis using st' weak_lookup(1) [OF ok idn held W] by (auto simp: weak_rel_def m)
qed

lemma weak_collect_sim:
  fixes dead :: "nat \<Rightarrow> bool"
  assumes ok: "ops_ok ops" and R: "weak_rel ops (ts, a) m"
  defines "st' \<equiv> (ts[a := UpdateRecordWeakLinkedHashMap dead (ts ! a)], a)"
  shows "weak_rel ops st' (\<lambda>n. if dead n then None else m n)"
    "length (live (content LinkedHashMapObject st')) \<le> Suc (length (live (content LinkedHashMapObject (ts, a))))"
proof -
  let ?h = LinkedHashMapObject and ?L = "live (entries LinkedHashMapObject (ts ! a))"
  have st: "store_ok ops ?h (ts, a)" and c: "counters (ts ! a)" and W: "weak_keys ?L" and m: "m = weak_fun ?L"
    using R by (auto simp: weak_rel_def)
  note C = collect_weak_map [OF ok st c, of dead]
  have a: "a < length ts" using st by (simp add: store_ok_def)
  have "weak_keys (filter (\<lambda>r. \<not> dead_key dead (fst r)) ?L)" using W by (auto simp: weak_keys_def)
  moreover have "weak_fun (filter (\<lambda>r. \<not> dead_key dead (fst r)) ?L) x = (if dead x then None else m x)" for x
    using weak_fun_filter [of ?L x "\<lambda>r. \<not> dead_key dead (fst r)" "\<not> dead x"] by (simp add: m)
  ultimately show "weak_rel ops st' (\<lambda>n. if dead n then None else m n)" using C a by (auto simp: weak_rel_def st'_def)
  show "length (live (content ?h st')) \<le> Suc (length (live (content ?h (ts, a))))"
    using C(3) a by (simp add: st'_def le_SucI)
qed

lemma weak_step_sim:
  assumes ok: "ops_ok ops" and idn: "identity_ok ops kinds" and R: "weak_rel ops st m"
    and lim: "length (live (content LinkedHashMapObject st)) < 2 ^ 29"
  shows "\<exists>st'. weak_step ops kinds e st = Some (fst (weak_spec kinds e m), st') \<and> weak_rel ops st' (snd (weak_spec kinds e m)) \<and>
    length (live (content LinkedHashMapObject st')) \<le> Suc (length (live (content LinkedHashMapObject st)))"
proof -
  have wf: "wf_table ops LinkedHashMapObject (current st)" and W: "weak_keys (live (content LinkedHashMapObject st))"
    and m: "m = weak_fun (live (content LinkedHashMapObject st))"
    using R store_wf by (auto simp: weak_rel_def)
  have key: "IsKey (JSRef n)" for n by (simp add: IsKey_def)
  note defs = BuiltinsWeakMap_Set_def BuiltinsWeakMap_Delete_def BuiltinsWeakMap_Has_def BuiltinsWeakMap_Get_def receiver_def
    JSWeakMap_Set_def JSWeakMap_Has_def JSWeakMap_Get_def WeakLinkedHashMap_Has_def WeakLinkedHashMap_Get_def
  show ?thesis
  proof (cases e)
    case (WSet k v)
    show ?thesis
    proof (cases "CanBeHeldWeakly kinds k")
      case True
      then obtain n where k: "k = JSRef n" using held_ref by blast
      show ?thesis using weak_set_sim [OF ok idn R lim True [unfolded k], of v] True WSet by (auto simp: defs k IsKey_def)
    qed (use WSet R in \<open>simp add: defs\<close>)
  next
    case (WDelete k)
    show ?thesis
    proof (cases "CanBeHeldWeakly kinds k")
      case True
      then obtain n where k: "k = JSRef n" using held_ref by blast
      show ?thesis using weak_delete_sim [OF ok idn R True [unfolded k]] True WDelete by (auto simp: defs k)
    qed (use WDelete R in \<open>simp add: defs\<close>)
  next
    case (WHas k)
    show ?thesis
    proof (cases "CanBeHeldWeakly kinds k")
      case True
      then obtain n where k: "k = JSRef n" using held_ref by blast
      show ?thesis using WHas True R Has_ok [OF ok wf key, of n] weak_lookup(1) [OF ok idn True [unfolded k] W]
        by (simp add: defs k m)
    qed (use WHas R in \<open>simp add: defs\<close>)
  next
    case (WGet k)
    show ?thesis
    proof (cases "CanBeHeldWeakly kinds k")
      case True
      then obtain n where k: "k = JSRef n" using held_ref by blast
      show ?thesis using WGet True R Get_ok [OF ok wf key, of n] weak_lookup(2) [OF ok idn True [unfolded k] W]
        by (simp add: defs k m)
    qed (use WGet R in \<open>simp add: defs\<close>)
  next
    case (WCollect dead)
    obtain ts a where s: "st = (ts, a)" by (cases st)
    show ?thesis using weak_collect_sim [OF ok R [unfolded s], of dead] by (simp add: WCollect s)
  qed
qed

lemma weak_run_sim:
  assumes ok: "ops_ok ops" and idn: "identity_ok ops kinds" and R: "weak_rel ops st m"
    and lim: "length (live (content LinkedHashMapObject st)) + length es \<le> 2 ^ 29"
  shows "\<exists>st'. weak_run ops kinds es st = Some (fst (weak_spec_run kinds es m), st') \<and> weak_rel ops st' (snd (weak_spec_run kinds es m))"
  using R lim
proof (induction es arbitrary: st m)
  case (Cons e es)
  obtain st1 where s1: "weak_step ops kinds e st = Some (fst (weak_spec kinds e m), st1)" "weak_rel ops st1 (snd (weak_spec kinds e m))"
    "length (live (content LinkedHashMapObject st1)) \<le> Suc (length (live (content LinkedHashMapObject st)))"
    using weak_step_sim [OF ok idn Cons.prems(1), of e] Cons.prems(2) by auto
  have "length (live (content LinkedHashMapObject st1)) + length es \<le> 2 ^ 29" using s1(3) Cons.prems(2) by simp
  then show ?case using Cons.IH [OF s1(2)] s1(1) by (auto simp: case_prod_beta Let_def)
qed simp

lemma new_weak_map: "WeakMapConstructor False [] = Inr st \<Longrightarrow> weak_rel ops st (\<lambda>n. None)"
  using Create_ok(2,3) [of 4 2 LinkedHashMapObject] counters_Create [of 4 LinkedHashMapObject]
  by (auto simp: WeakMapConstructor_def WeakLinkedHashMap_Create_def weak_rel_def store_ok_def MIN_CAPACITY_def wf_table_def weak_keys_def weak_fun_def)

section \<open>Dead entries of a WeakSet\<close>

definition reference_keys :: "(js_value \<times> js_value) list \<Rightarrow> bool" where
  "reference_keys L \<longleftrightarrow> (\<forall>r \<in> set L. \<exists>a. fst r = JSWeak a \<or> fst r = JSRef a)"

text \<open>What the collector does to the table of a WeakSet when one object is dead.\<close>

lemma dead_slots:
  fixes n :: nat
  assumes wf: "wf_table ops LinkedHashSetObject t" and inv: "table_inv ops LinkedHashSetObject t c (used t)"
  defines "u \<equiv> UpdateRecordWeakReference ((=) n) t"
  shows "layout LinkedHashSetObject u c" "NumberOfElements u = NumberOfElements t" "NumberOfDeletedElements u = NumberOfDeletedElements t"
    "used u = used t" "e < used t \<Longrightarrow> GetKey LinkedHashSetObject u e = update_weak_slot ((=) n) (GetKey LinkedHashSetObject t e)"
    "e < used t \<Longrightarrow> GetValue LinkedHashSetObject u e = GetKey LinkedHashSetObject u e"
proof -
  let ?h = LinkedHashSetObject
  note I = table_invD [OF inv]
  have len: "length u = length t" and nth: "\<And>i. i < length t \<Longrightarrow> u ! i = update_weak_slot ((=) n) (t ! i)"
    by (simp_all add: u_def UpdateRecordWeakReference_def)
  have "4 + c \<le> length t" by (rule layout_len [OF I(1)])
  then have hd: "u ! 0 = update_weak_slot ((=) n) (t ! 0)" "u ! Suc 0 = update_weak_slot ((=) n) (t ! Suc 0)" "u ! 2 = JSInt (int c)"
    using nth I(1) by (simp_all add: layout_def update_weak_slot_def)
  show lay: "layout ?h u c" using I(1) len hd(3) by (simp add: layout_def)
  have i: "GetInt (update_weak_slot d v) = GetInt v" for d v by (simp add: update_weak_slot_def split: js_value.split)
  show num: "NumberOfElements u = NumberOfElements t" "NumberOfDeletedElements u = NumberOfDeletedElements t"
    using hd by (simp_all add: NumberOfElements_def NumberOfDeletedElements_def index_consts i)
  show "used u = used t" by (simp add: used_def num)
  show "GetKey ?h u e = update_weak_slot ((=) n) (GetKey ?h t e)" if "e < used t" for e
  proof -
    have "e < c" using that I(2) by simp
    then show ?thesis using nth slot_less [OF I(1), of e 0] by (simp add: layout_slots [OF lay] layout_slots [OF I(1)])
  qed
  show "GetValue ?h u e = GetKey ?h u e" by (simp add: GetValue_def GetKey_def LinkedHashSetObject_def)
qed

lemma dead_rows:
  fixes n :: nat
  assumes ok: "ops_ok ops" and und: "\<And>v. SameValueZero ops Undefined v \<Longrightarrow> v = Undefined"
    and wf: "wf_table ops LinkedHashSetObject t" and inv: "table_inv ops LinkedHashSetObject t c (used t)"
    and keys: "reference_keys (live (entries LinkedHashSetObject t))"
  defines "u \<equiv> UpdateRecordWeakReference ((=) n) t"
  shows "distinct_rows ops LinkedHashSetObject u c (used u)"
    "live (entries LinkedHashSetObject u) = map (\<lambda>r. (update_weak_slot ((=) n) (fst r), update_weak_slot ((=) n) (fst r))) (live (entries LinkedHashSetObject t))"
proof -
  let ?h = LinkedHashSetObject
  note I = table_invD [OF inv] and D = dead_slots [OF wf inv, where n = n, folded u_def]
  have ref: "\<exists>a. GetKey ?h t e = JSWeak a \<or> GetKey ?h t e = JSRef a" if "e < used t" "GetKey ?h t e \<noteq> Hole" for e
    using keys that live_entries [of "(GetKey ?h t e, GetValue ?h t e)" ?h t] unfolding reference_keys_def by fastforce
  have hole: "GetKey ?h u e = Hole \<longleftrightarrow> GetKey ?h t e = Hole" if "e < used t" for e
    using D(5) [OF that] by (auto simp: update_weak_slot_def split: js_value.splits if_splits)
  have "e = e'" if e: "e < used t" "e' < used t" "GetKey ?h u e \<noteq> Hole" "GetKey ?h u e' \<noteq> Hole"
    and eq: "SameValueZero ops (live_key ?h u e) (live_key ?h u e')" for e e'
  proof -
    have k: "GetKey ?h t e \<noteq> Hole" "GetKey ?h t e' \<noteq> Hole" using hole e by auto
    have dead: "live_key ?h u x = Undefined \<and> GetKey ?h t x = JSWeak n \<or> live_key ?h u x = live_key ?h t x \<and> live_key ?h u x \<noteq> Undefined"
      if "x < used t" "GetKey ?h t x \<noteq> Hole" for x
      using ref [OF that] D(5) [OF that(1)] by (cases "GetKey ?h t x = JSWeak n") (auto simp: live_key_def update_weak_slot_def)
    have "SameValueZero ops (live_key ?h t e) (live_key ?h t e')"
      using dead [OF e(1) k(1)] dead [OF e(2) k(2)] eq und ops_okD(1,2) [OF ok] by (metis live_key_def)
    then show ?thesis using I(6) e k by blast
  qed
  moreover have "0 < c" using I(8) by auto
  ultimately show "distinct_rows ops ?h u c (used u)" using D(1,4) I(2) unfolding distinct_rows_def by metis
  have "row ?h u e = map_option (\<lambda>r. (update_weak_slot ((=) n) (fst r), update_weak_slot ((=) n) (fst r))) (row ?h t e)" if "e < used t" for e
    using hole [OF that] D(5,6) [OF that] by (simp add: row_def)
  then have "entries ?h u = map (map_option (\<lambda>r. (update_weak_slot ((=) n) (fst r), update_weak_slot ((=) n) (fst r)))) (entries ?h t)"
    by (simp add: entries_def rows_def D(4))
  then show "live (entries ?h u) = map (\<lambda>r. (update_weak_slot ((=) n) (fst r), update_weak_slot ((=) n) (fst r))) (live (entries ?h t))"
    by (simp add: live_map_option)
qed

section \<open>Properties\<close>

lemma stale_undefined:
  assumes ok: "ops_ok ops" and und: "\<And>v. SameValueZero ops Undefined v \<Longrightarrow> v = Undefined"
    and st: "store_ok ops LinkedHashSetObject (ts, a)" and keys: "reference_keys (live (entries LinkedHashSetObject (ts ! a)))"
    and n: "JSWeak n \<in> fst ` set (live (entries LinkedHashSetObject (ts ! a)))"
    and full: "\<not> HasSufficientCapacity (ts ! a) 1" and lim: "length (live (entries LinkedHashSetObject (ts ! a))) < 2 ^ 29"
  defines "st' \<equiv> GrowCapacity ops LinkedHashSetObject (ts[a := UpdateRecordWeakReference ((=) n) (ts ! a)], a) 1"
  shows "Has ops LinkedHashSetObject (current st') Undefined = Some True"
proof -
  let ?h = LinkedHashSetObject and ?t = "ts ! a" and ?u = "UpdateRecordWeakReference ((=) n) (ts ! a)"
  have a: "a < length ts" and wf: "wf_table ops ?h ?t" using st by (simp_all add: store_ok_def)
  then obtain c where inv: "table_inv ops ?h ?t c (used ?t)" by (auto simp: wf_table_def)
  note D = dead_slots [OF wf inv, where n = n] and E = dead_rows [OF ok und wf inv keys, where n = n]
  have num: "NumberOfElements ?u = int (length (live (entries ?h ?u)))" "0 \<le> NumberOfDeletedElements ?u"
    using wf D(2,3) E(2) by (simp_all add: wf_table_def)
  let ?x = "word_of_int (NumberOfElements ?u + 1) :: u32"
  have len: "length (live (entries ?h ?u)) = length (live (entries ?h ?t))" using E(2) by simp
  have x: "unat ?x = Suc (length (live (entries ?h ?u)))" using lim len by (subst unat_word_of_int_small) (simp_all add: num(1))
  then obtain k where k: "k \<le> 30" "ComputeCapacity ops ?x = int (2 ^ k)" "Suc (length (live (entries ?h ?u))) \<le> 2 ^ k"
    using ComputeCapacity_ok [OF ok, of ?x] lim len by auto
  obtain t' m where R: "Rehash ops ?h ?u (length ts) (Create ?h (int (2 ^ k))) = (t', m)" by fastforce
  have "Capacity ?u = Capacity ?t" using layout_slots(1) D(1) table_invD(1) [OF inv] by metis
  then have "\<not> HasSufficientCapacity ?u 1" using full D(2,3) by (simp add: HasSufficientCapacity_def)
  then have cur: "current st' = m" using R k(2) a by (simp add: st'_def GrowCapacity_def rehash_to_def nth_append)
  have room: "length (live (entries ?h ?u)) \<le> 2 ^ k" using k(3) by simp
  note W = Rehash_rows(2,3) [OF ok objects_ok(2) E(1) num refl k(1) room R]
  obtain r where "r \<in> set (live (entries ?h ?t))" "fst r = JSWeak n" using n by auto
  then have "(Undefined, Undefined) \<in> set (live (entries ?h ?u))" using E(2) by (force simp: update_weak_slot_def)
  then have "has_key ops Undefined (live (entries ?h m))"
    using ops_okD(1) [OF ok] by (force simp: W(2) has_key_def list_ex_iff matches_def)
  then show ?thesis using Has_ok [OF ok W(1), of Undefined] by (simp add: cur IsKey_def)
qed

lemma sample_weak_add:
  assumes "store_ok sample_ops LinkedHashSetObject st" "live (content LinkedHashSetObject st) = map (\<lambda>n. (JSWeak n, JSWeak n)) ns"
    "n \<notin> set ns" "length ns < 2 ^ 29"
  obtains st' where "store_ok sample_ops LinkedHashSetObject st'"
    "live (content LinkedHashSetObject st') = map (\<lambda>n. (JSWeak n, JSWeak n)) (ns @ [n])"
proof -
  let ?h = LinkedHashSetObject
  obtain st' where "acts sample_ops ?h st st' (insert_view sample_ops ?h (JSRef n) (JSRef n) (JSWeak n, JSWeak n))"
    using InsertWeakRef_acts [OF sample_ops_ok objects_ok(2) assms(1), of "JSRef n" n "JSWeak n"] assms(2,4) by auto
  moreover have "\<not> has_key sample_ops (JSRef n) (map (\<lambda>n. (JSWeak n, JSWeak n)) ns)"
    using assms(3) by (auto simp: has_key_def list_ex_iff matches_def sample_ops_def)
  ultimately have "store_ok sample_ops ?h st'" "live (content ?h st') = map (\<lambda>n. (JSWeak n, JSWeak n)) (ns @ [n])"
    using acts_live [OF assms(1)] assms(2) by (auto simp: acts_def)
  then show thesis by (rule that)
qed

lemma sample_weak_set:
  obtains ts a where "store_ok sample_ops LinkedHashSetObject (ts, a)" "\<not> HasSufficientCapacity (ts ! a) 1"
    "live (entries LinkedHashSetObject (ts ! a)) = map (\<lambda>n. (JSWeak n, JSWeak n)) [1, 2, 3]"
proof -
  let ?h = LinkedHashSetObject
  have st0: "store_ok sample_ops ?h ([Create ?h 4], 0)" "live (content ?h ([Create ?h 4], 0)) = map (\<lambda>n. (JSWeak n, JSWeak n)) []"
    using Create_ok(2,3) [of 4 2 ?h] by (auto simp: store_ok_def wf_table_def)
  obtain st1 where st1: "store_ok sample_ops ?h st1" "live (content ?h st1) = map (\<lambda>n. (JSWeak n, JSWeak n)) ([] @ [1])"
    by (rule sample_weak_add [OF st0, of 1]) simp_all
  obtain st2 where st2: "store_ok sample_ops ?h st2" "live (content ?h st2) = map (\<lambda>n. (JSWeak n, JSWeak n)) (([] @ [1]) @ [2])"
    by (rule sample_weak_add [OF st1, of 2]) simp_all
  obtain st3 where st3: "store_ok sample_ops ?h st3" "live (content ?h st3) = map (\<lambda>n. (JSWeak n, JSWeak n)) ((([] @ [1]) @ [2]) @ [3])"
    by (rule sample_weak_add [OF st2, of 3]) simp_all
  let ?st = "rehash_to sample_ops ?h st3 4"
  have G: "acts sample_ops ?h st3 ?st id" "Capacity (current ?st) = 4" "content ?h ?st = map Some (map (\<lambda>n. (JSWeak n, JSWeak n)) [1, 2, 3])"
    using rehash_to_acts [OF sample_ops_ok objects_ok(2) st3(1), of 4 2] st3(2) by simp_all
  obtain ts a where s: "?st = (ts, a)" by (cases ?st)
  have st: "store_ok sample_ops ?h (ts, a)" using G(1) by (simp add: acts_def s)
  have live: "live (entries ?h (ts ! a)) = map (\<lambda>n. (JSWeak n, JSWeak n)) [1, 2, 3]" using G(3) by (simp add: s)
  have "NumberOfElements (ts ! a) = 3" using st live by (simp add: store_ok_def wf_table_def)
  then have "\<not> HasSufficientCapacity (ts ! a) 1" using G(2) by (simp add: HasSufficientCapacity_def s)
  then show thesis using that st live by blast
qed

text \<open>C5: A new WeakMap answers every sequence of calls of set, delete, has and get as a partial function on objects does, where a
  collection of garbage between two calls removes exactly the objects that are dead; a key that cannot be held weakly is
  rejected. The assertion that the collector makes on the table before it visits it holds.\<close>
theorem weak_map_refines_function:
  assumes "ops_ok ops" "identity_ok ops kinds" "length es \<le> 2 ^ 29" "WeakMapConstructor False [] = Inr st"
  shows "\<exists>st'. weak_run ops kinds es st = Some (fst (weak_spec_run kinds es (\<lambda>n. None)), st') \<and> VerifyLayout (current st')"
proof -
  have R: "weak_rel ops st (\<lambda>n. None)" by (rule new_weak_map [OF assms(4)])
  have "live (content LinkedHashMapObject st) = []"
    using assms(4) Create_ok(3) [of 4 2 LinkedHashMapObject] by (auto simp: WeakMapConstructor_def WeakLinkedHashMap_Create_def MIN_CAPACITY_def)
  then obtain st' where "weak_run ops kinds es st = Some (fst (weak_spec_run kinds es (\<lambda>n. None)), st')"
      "weak_rel ops st' (snd (weak_spec_run kinds es (\<lambda>n. None)))"
    using weak_run_sim [OF assms(1,2) R, of es] assms(3) by auto
  moreover from this(2) have "VerifyLayout (current st')" using VerifyLayout_ok [OF store_wf, of ops st'] by (simp add: weak_rel_def)
  ultimately show ?thesis by blast
qed

theorem weak_map_refines_function_witness:
  "\<exists>st st'. WeakMapConstructor False [] = Inr st \<and>
    weak_run sample_ops (\<lambda>a. ECMAObjectKind)
      [WSet (JSRef 1) (JSInt 5), WSet (JSInt 3) Null, WHas (JSRef 1), WCollect ((=) 1), WGet (JSRef 1)] st =
      Some ([ROk, RThrow (TypeError ''invalid value used as weak map key.''), RValue JSTrue, ROk, RValue Undefined], st') \<and>
    VerifyLayout (current st')"
proof -
  obtain st where new: "WeakMapConstructor False [] = Inr st" by (simp add: WeakMapConstructor_def)
  have "identity_ok sample_ops (\<lambda>a. ECMAObjectKind)" by (simp add: identity_ok_def sample_ops_def)
  then show ?thesis using weak_map_refines_function [OF sample_ops_ok _ _ new, of "\<lambda>a. ECMAObjectKind"
      "[WSet (JSRef 1) (JSInt 5), WSet (JSInt 3) Null, WHas (JSRef 1), WCollect ((=) 1), WGet (JSRef 1)]"] new
    by (simp add: CanBeHeldWeakly_def tagged_bool_def)
qed



text \<open>C40: The function has of a WeakSet goes on with a value that cannot be held weakly. On a set of objects it answers false
  for undefined; but once one of the objects is dead and the table is copied to grow, it answers true.\<close>
theorem weak_set_has_undefined:
  assumes "ops_ok ops" "\<And>v. SameValueZero ops Undefined v \<Longrightarrow> v = Undefined"
    "store_ok ops LinkedHashSetObject (ts, a)" "reference_keys (live (content LinkedHashSetObject (ts, a)))"
    "JSWeak n \<in> fst ` set (live (content LinkedHashSetObject (ts, a)))" "\<not> HasSufficientCapacity (ts ! a) 1"
    "length (live (content LinkedHashSetObject (ts, a))) < 2 ^ 29"
  shows "BuiltinsWeakSet_Has ops (Some (ts, a)) Undefined = Some (Inr JSFalse) \<and>
    BuiltinsWeakSet_Has ops (Some (GrowCapacity ops LinkedHashSetObject (ts[a := UpdateRecordWeakReference ((=) n) (ts ! a)], a) 1)) Undefined =
      Some (Inr JSTrue)"
proof -
  have "\<not> has_key ops Undefined (live (entries LinkedHashSetObject (ts ! a)))"
    using assms(2,4) by (fastforce simp: has_key_def list_ex_iff matches_def reference_keys_def)
  then have "Has ops LinkedHashSetObject (ts ! a) Undefined = Some False"
    using Has_ok [OF assms(1), of LinkedHashSetObject "ts ! a" Undefined] assms(3) by (simp add: store_ok_def IsKey_def)
  moreover have "Has ops LinkedHashSetObject
      (current (GrowCapacity ops LinkedHashSetObject (ts[a := UpdateRecordWeakReference ((=) n) (ts ! a)], a) 1)) Undefined = Some True"
    by (rule stale_undefined [OF assms(1-3)]) (use assms(4-7) in simp_all)
  ultimately show ?thesis by (simp add: BuiltinsWeakSet_Has_def receiver_def JSWeakSet_Has_def tagged_bool_def)
qed

theorem weak_set_has_undefined_witness:
  "\<exists>ts a. live (content LinkedHashSetObject (ts, a)) = [(JSWeak 1, JSWeak 1), (JSWeak 2, JSWeak 2), (JSWeak 3, JSWeak 3)] \<and>
    BuiltinsWeakSet_Has sample_ops (Some (ts, a)) Undefined = Some (Inr JSFalse) \<and>
    BuiltinsWeakSet_Has sample_ops
      (Some (GrowCapacity sample_ops LinkedHashSetObject (ts[a := UpdateRecordWeakReference ((=) 2) (ts ! a)], a) 1)) Undefined = Some (Inr JSTrue)"
proof -
  obtain ts a where st: "store_ok sample_ops LinkedHashSetObject (ts, a)" "\<not> HasSufficientCapacity (ts ! a) 1"
    "live (entries LinkedHashSetObject (ts ! a)) = map (\<lambda>n. (JSWeak n, JSWeak n)) [1, 2, 3]" by (rule sample_weak_set)
  have "SameValueZero sample_ops Undefined v \<Longrightarrow> v = Undefined" for v by (simp add: sample_ops_def)
  from weak_set_has_undefined [OF sample_ops_ok this st(1) _ _ st(2), of 2] show ?thesis
    using st(3) by (intro exI [of _ ts] exI [of _ a]) (simp add: reference_keys_def)
qed

end
